(* ===== verification/Kern_Prelude.thy ===== *)
theory Kern_Prelude
  imports Main "HOL-Library.Word" "HOL-Library.Monad_Syntax"
begin

text \<open>
  Shared material of the OS/161 development: the machine types of the MIPS port, the error
  numbers of \<^verbatim>\<open>kern/include/kern/errno.h\<close>, the outcome of a kernel routine, the assertion
  macro, and the generic lemmas on lists, options and words that the component theories use.

  A kernel routine is a function into \<open>'a option\<close>.  \<open>None\<close> is the end of the kernel: a failed
  \<^verbatim>\<open>KASSERT\<close>, a call of \<^verbatim>\<open>panic\<close>, or an access the C standard leaves undefined (a null
  dereference, an index outside the array).  \<open>Some r\<close> is an ordinary return, error codes
  included: those are part of \<open>r\<close>, as they are in the C code.
\<close>

unbundle bit_operations_syntax

section \<open>Machine types and constants\<close>

type_synonym u8 = "8 word"
type_synonym u16 = "16 word"
type_synonym u32 = "32 word"
type_synonym u64 = "64 word"
type_synonym vaddr = u32
type_synonym paddr = u32

text \<open>Error numbers: a C \<^verbatim>\<open>int\<close>, 0 meaning success.\<close>

type_synonym errno = int

abbreviation (input) EUNIMP :: errno where "EUNIMP \<equiv> 2"
abbreviation (input) ENOMEM :: errno where "ENOMEM \<equiv> 3"
abbreviation (input) EFAULT :: errno where "EFAULT \<equiv> 6"
abbreviation (input) ENAMETOOLONG :: errno where "ENAMETOOLONG \<equiv> 7"
abbreviation (input) EINVAL :: errno where "EINVAL \<equiv> 8"
abbreviation (input) EMPROC :: errno where "EMPROC \<equiv> 11"
abbreviation (input) ENPROC :: errno where "ENPROC \<equiv> 12"
abbreviation (input) ENOEXEC :: errno where "ENOEXEC \<equiv> 13"
abbreviation (input) E2BIG :: errno where "E2BIG \<equiv> 14"
abbreviation (input) ESRCH :: errno where "ESRCH \<equiv> 15"
abbreviation (input) ECHILD :: errno where "ECHILD \<equiv> 16"
abbreviation (input) ENOTDIR :: errno where "ENOTDIR \<equiv> 17"
abbreviation (input) EISDIR :: errno where "EISDIR \<equiv> 18"
abbreviation (input) ENOENT :: errno where "ENOENT \<equiv> 19"
abbreviation (input) EEXIST :: errno where "EEXIST \<equiv> 22"
abbreviation (input) EXDEV :: errno where "EXDEV \<equiv> 24"
abbreviation (input) ENODEV :: errno where "ENODEV \<equiv> 25"
abbreviation (input) EBUSY :: errno where "EBUSY \<equiv> 27"
abbreviation (input) EMFILE :: errno where "EMFILE \<equiv> 28"
abbreviation (input) ENFILE :: errno where "ENFILE \<equiv> 29"
abbreviation (input) EBADF :: errno where "EBADF \<equiv> 30"
abbreviation (input) ESPIPE :: errno where "ESPIPE \<equiv> 33"
abbreviation (input) ENOSPC :: errno where "ENOSPC \<equiv> 36"

text \<open>Unsigned 32-bit arithmetic on \<open>nat\<close>, with the wrap-around written out.\<close>

definition u32 :: "nat \<Rightarrow> nat" where
  "u32 n = n mod 2 ^ 32"

lemma u32_id [simp]: "n < 2 ^ 32 \<Longrightarrow> u32 n = n"
  by (simp add: u32_def)

lemma u32_bound [simp]: "u32 n < 2 ^ 32"
  by (simp add: u32_def)

definition usub :: "nat \<Rightarrow> nat \<Rightarrow> nat" where
  "usub a b = u32 (a + 2 ^ 32 - u32 b)"

lemma usub_le [simp]: "b \<le> a \<Longrightarrow> a < 2 ^ 32 \<Longrightarrow> usub a b = a - b"
proof -
  assume "b \<le> a" "a < 2 ^ 32"
  then have "a + 2 ^ 32 - u32 b = (a - b) + 2 ^ 32" by simp
  then have "usub a b = (a - b) mod 2 ^ 32" unfolding usub_def u32_def by (metis mod_add_self2)
  with \<open>a < 2 ^ 32\<close> show ?thesis by simp
qed

definition DIVROUNDUP :: "nat \<Rightarrow> nat \<Rightarrow> nat" where
  "DIVROUNDUP a b = usub (u32 (a + b)) 1 div b"

lemma DIVROUNDUP_exact: "0 < b \<Longrightarrow> a + b < 2 ^ 32 \<Longrightarrow> DIVROUNDUP a b = (a + b - 1) div b"
  by (simp add: DIVROUNDUP_def)

section \<open>Assertions\<close>

definition KASSERT :: "bool \<Rightarrow> unit option" where
  "KASSERT b = (if b then Some () else None)"

lemma KASSERT_bind [simp]: "Option.bind (KASSERT b) f = (if b then f () else None)"
  by (simp add: KASSERT_def)

lemma KASSERT_True [simp]: "KASSERT True = Some ()"
  by (simp add: KASSERT_def)

lemma KASSERT_eq_Some [simp]: "KASSERT b = Some x \<longleftrightarrow> b"
  by (simp add: KASSERT_def)

text \<open>A checked read and write of an array: outside its bounds the behaviour is undefined.\<close>

definition rd :: "'a list \<Rightarrow> nat \<Rightarrow> 'a option" where
  "rd xs i = (if i < length xs then Some (xs ! i) else None)"

definition wr :: "'a list \<Rightarrow> nat \<Rightarrow> 'a \<Rightarrow> 'a list option" where
  "wr xs i x = (if i < length xs then Some (xs[i := x]) else None)"

lemma rd_in [simp]: "i < length xs \<Longrightarrow> rd xs i = Some (xs ! i)"
  by (simp add: rd_def)

lemma wr_in [simp]: "i < length xs \<Longrightarrow> wr xs i x = Some (xs[i := x])"
  by (simp add: wr_def)

lemma rd_eq_Some: "rd xs i = Some x \<longleftrightarrow> i < length xs \<and> xs ! i = x"
  by (auto simp: rd_def)

lemma wr_eq_Some: "wr xs i x = Some ys \<longleftrightarrow> i < length xs \<and> ys = xs[i := x]"
  by (auto simp: wr_def)

lemma rd_out [simp]: "\<not> i < length xs \<Longrightarrow> rd xs i = None"
  by (simp add: rd_def)

section \<open>Single bits of a word\<close>

text \<open>A mask with one bit is \<open>push_bit k 1\<close> in the models, as in the source; \<open>2 ^ k\<close> is its
  simp normal form.\<close>

lemma and_one_bit: "(w :: 'a::len word) AND push_bit k 1 = 0 \<longleftrightarrow> \<not> bit w k"
  by (simp add: and_exp_eq_0_iff_not_bit)

lemma bit_or_one_bit:
  "bit ((w :: 'a::len word) OR push_bit k 1) n \<longleftrightarrow> bit w n \<or> n = k \<and> k < LENGTH('a)"
  by (auto simp: bit_simps)

lemma bit_and_not_one_bit:
  "bit ((w :: 'a::len word) AND NOT (push_bit k 1)) n \<longleftrightarrow> bit w n \<and> n \<noteq> k"
  by (auto simp: bit_simps dest: bit_imp_le_length)

lemmas one_bit = and_one_bit bit_or_one_bit bit_and_not_one_bit
lemmas one_bit_exp = one_bit [unfolded push_bit_of_1]

lemma word_ne_mask: "(w :: 'a::len word) \<noteq> mask LENGTH('a) \<longleftrightarrow> (\<exists>k<LENGTH('a). \<not> bit w k)"
  by (auto simp: bit_eq_iff [of w] bit_simps)

lemma rtranclp_two: "r a b \<Longrightarrow> r b c \<Longrightarrow> r\<^sup>*\<^sup>* a c"
  by (rule converse_rtranclp_into_rtranclp [of r]) auto

lemmas outcome_simps = Option.bind_eq_Some_conv rd_eq_Some wr_eq_Some

end
