(* ===== verification/Byte_Order.thy ===== *)
theory Byte_Order
  imports Kern_Prelude
begin

text \<open>
  \<^verbatim>\<open>kern/lib/bswap.c\<close>: the byte-swap functions, the network-order functions of the
  big-endian MIPS port, and the two routines that join and split 64-bit values.
\<close>

section \<open>Definitions\<close>

definition bswap16 :: "u16 \<Rightarrow> u16" where
  "bswap16 val = push_bit 8 (val AND 0x00ff) OR drop_bit 8 (val AND 0xff00)"

definition bswap32 :: "u32 \<Rightarrow> u32" where
  "bswap32 val = push_bit 24 (val AND 0x000000ff)
     OR push_bit 8 (val AND 0x0000ff00)
     OR drop_bit 8 (val AND 0x00ff0000)
     OR drop_bit 24 (val AND 0xff000000)"

definition bswap64 :: "u64 \<Rightarrow> u64" where
  "bswap64 val = push_bit 56 (val AND 0x00000000000000ff)
     OR push_bit 40 (val AND 0x000000000000ff00)
     OR push_bit 24 (val AND 0x0000000000ff0000)
     OR push_bit 8 (val AND 0x00000000ff000000)
     OR push_bit 8 (val AND 0x000000ff00000000)
     OR push_bit 24 (val AND 0x0000ff0000000000)
     OR drop_bit 40 (val AND 0x00ff000000000000)
     OR drop_bit 56 (val AND 0xff00000000000000)"

definition ntohs :: "u16 \<Rightarrow> u16" where "ntohs val = val"
definition htons :: "u16 \<Rightarrow> u16" where "htons val = val"
definition ntohl :: "u32 \<Rightarrow> u32" where "ntohl val = val"
definition htonl :: "u32 \<Rightarrow> u32" where "htonl val = val"
definition ntohll :: "u64 \<Rightarrow> u64" where "ntohll val = val"
definition htonll :: "u64 \<Rightarrow> u64" where "htonll val = val"

definition join32to64 :: "u32 \<Rightarrow> u32 \<Rightarrow> u64" where
  "join32to64 x1 x2 = push_bit 32 (ucast x1 :: u64) OR ucast x2"

definition split64to32 :: "u64 \<Rightarrow> u32 \<times> u32" where
  "split64to32 x = (ucast (drop_bit 32 x), ucast (x AND 0xffffffff))"

section \<open>Bytes of a word\<close>

text \<open>The specification side: byte \<open>i\<close> of a word, counted from the least significant one.\<close>

definition byte :: "nat \<Rightarrow> 'a::len word \<Rightarrow> u8" where
  "byte i w = ucast (drop_bit (8 * i) w)"

definition bytes :: "nat \<Rightarrow> 'a::len word \<Rightarrow> u8 list" where
  "bytes n w = map (\<lambda>i. byte i w) [0..<n]"

lemma bit_byte: "bit (byte i w) n \<longleftrightarrow> n < 8 \<and> bit w (8 * i + n)"
  by (auto simp: byte_def bit_simps)

lemma bytes_upto:
  "bytes 2 w = [byte 0 w, byte 1 w]"
  "bytes 4 w = [byte 0 w, byte 1 w, byte 2 w, byte 3 w]"
  "bytes 8 w = [byte 0 w, byte 1 w, byte 2 w, byte 3 w, byte 4 w, byte 5 w, byte 6 w, byte 7 w]"
  by (simp_all add: bytes_def upt_rec flip: One_nat_def)

lemma bytes_inject:
  fixes x y :: "'a::len word"
  assumes eq: "bytes n x = bytes n y" and len: "LENGTH('a) \<le> 8 * n"
  shows "x = y"
proof (rule bit_word_eqI)
  fix k assume "k < LENGTH('a)"
  with len have "k div 8 < n" by simp
  with eq have "byte (k div 8) x = byte (k div 8) y"
    by (simp add: bytes_def)
  then have "bit (byte (k div 8) x) (k mod 8) = bit (byte (k div 8) y) (k mod 8)"
    by simp
  then show "bit x k = bit y k" by (simp add: bit_byte)
qed

text \<open>The masks of the source as shifted runs of ones, so that their bits simplify.\<close>

lemma byte_masks:
  "(0x00ff::u16) = mask 8" "(0xff00::u16) = push_bit 8 (mask 8)"
  "(0x000000ff::u32) = mask 8" "(0x0000ff00::u32) = push_bit 8 (mask 8)"
  "(0x00ff0000::u32) = push_bit 16 (mask 8)" "(0xff000000::u32) = push_bit 24 (mask 8)"
  "(0xffffffff::u64) = mask 32"
  by (simp_all add: mask_eq_exp_minus_1)

lemma byte_masks64:
  "(0x00000000000000ff::u64) = mask 8" "(0x000000000000ff00::u64) = push_bit 8 (mask 8)"
  "(0x0000000000ff0000::u64) = push_bit 16 (mask 8)"
  "(0x00000000ff000000::u64) = push_bit 24 (mask 8)"
  "(0x000000ff00000000::u64) = push_bit 32 (mask 8)"
  "(0x0000ff0000000000::u64) = push_bit 40 (mask 8)"
  "(0x00ff000000000000::u64) = push_bit 48 (mask 8)"
  "(0xff00000000000000::u64) = push_bit 56 (mask 8)"
  by (simp_all add: mask_eq_exp_minus_1)

lemma bit_u32_high: "\<not> bit (w :: u32) (32 + n)"
  using bit_imp_le_length [of w "32 + n"] by auto

section \<open>What the swaps do to the bytes\<close>

lemma byte_bswap16: "byte 0 (bswap16 x) = byte 1 x" "byte 1 (bswap16 x) = byte 0 x"
  by (auto intro!: bit_word_eqI simp: bit_byte bswap16_def byte_masks bit_simps)

lemma byte_bswap32:
  "byte 0 (bswap32 x) = byte 3 x" "byte 1 (bswap32 x) = byte 2 x"
  "byte 2 (bswap32 x) = byte 1 x" "byte 3 (bswap32 x) = byte 0 x"
  by (auto intro!: bit_word_eqI simp: bit_byte bswap32_def byte_masks bit_simps)

lemma byte_bswap64:
  "byte 0 (bswap64 x) = byte 7 x" "byte 1 (bswap64 x) = byte 6 x"
  "byte 2 (bswap64 x) = 0" "byte 3 (bswap64 x) = 0"
  "byte 4 (bswap64 x) = byte 3 x" "byte 5 (bswap64 x) = byte 2 x OR byte 4 x"
  "byte 6 (bswap64 x) = byte 1 x" "byte 7 (bswap64 x) = byte 0 x"
  by (auto intro!: bit_word_eqI simp: bit_byte bswap64_def byte_masks64 bit_simps)

lemma bytes_bswap16: "bytes 2 (bswap16 x) = rev (bytes 2 x)"
  by (simp add: bytes_upto byte_bswap16 del: One_nat_def)

lemma bytes_bswap32: "bytes 4 (bswap32 x) = rev (bytes 4 x)"
  by (simp add: bytes_upto byte_bswap32 del: One_nat_def)

text \<open>\<^verbatim>\<open>bswap16\<close> and \<^verbatim>\<open>bswap32\<close> reverse the bytes of their argument, so applying either
  twice gives the argument back.\<close>

theorem bswap_reverses_bytes:
  "bytes 2 (bswap16 x) = rev (bytes 2 x) \<and> bytes 4 (bswap32 y) = rev (bytes 4 y) \<and>
   bswap16 (bswap16 x) = x \<and> bswap32 (bswap32 y) = y"
proof -
  have "bswap16 (bswap16 x) = x"
    by (rule bytes_inject [where n = 2]) (simp_all add: bytes_bswap16)
  moreover have "bswap32 (bswap32 y) = y"
    by (rule bytes_inject [where n = 4]) (simp_all add: bytes_bswap32)
  ultimately show ?thesis by (simp add: bytes_bswap16 bytes_bswap32)
qed

text \<open>\<^verbatim>\<open>bswap64\<close> does not reverse the bytes of its argument.  The two middle terms of its
  upper half are shifted left where they have to be shifted right, so byte 4 is or-ed into the
  place of byte 2, byte 5 is lost, and the places of bytes 2 and 3 are zero.\<close>

theorem bswap64_loses_bytes:
  "bytes 8 (bswap64 x) =
     [byte 7 x, byte 6 x, 0, 0, byte 3 x, byte 2 x OR byte 4 x, byte 1 x, byte 0 x] \<and>
   bswap64 (bswap64 0x0000010000000000) \<noteq> 0x0000010000000000"
proof -
  have "bswap64 0x0000010000000000 = 0" by (simp add: bswap64_def)
  then have "bswap64 (bswap64 0x0000010000000000) = 0" by (simp add: bswap64_def)
  then show ?thesis by (simp add: bytes_upto byte_bswap64 del: One_nat_def)
qed

text \<open>Joining the halves that \<^verbatim>\<open>split64to32\<close> returns gives the 64-bit value back, and
  splitting a joined value gives the two 32-bit values back, in memory order.\<close>

theorem split_join_roundtrip:
  "split64to32 (join32to64 x y) = (x, y) \<and> (case split64to32 z of (a, b) \<Rightarrow> join32to64 a b) = z"
  by (auto simp: split64to32_def join32to64_def byte_masks bit_simps bit_u32_high
      intro!: bit_word_eqI)

end
