(* ===== verification/Slot_Allocator.thy ===== *)
theory Slot_Allocator
  imports Kern_Prelude
begin

text \<open>
  The contract several kernel components share: a pool of numbered slots from which a routine
  hands out a free one and to which another returns it.  The bitmap of \<^verbatim>\<open>kern/lib/bitmap.c\<close>
  is one, the page references of \<^verbatim>\<open>kern/vm/kmalloc.c\<close>, the process table of
  \<^verbatim>\<open>kern/syscall/process_syscalls.c\<close> and the coremap are others.  The consequences for a client that
  allocates repeatedly are proved once here.
\<close>

text \<open>A client that asks for \<open>n\<close> slots in a row and stops when the pool is empty.\<close>

fun alloc_n :: "('s \<Rightarrow> (nat option \<times> 's) option) \<Rightarrow> nat \<Rightarrow> 's \<Rightarrow> (nat list \<times> 's) option" where
  "alloc_n alloc 0 s = Some ([], s)"
| "alloc_n alloc (Suc n) s = do {
     (r, s1) \<leftarrow> alloc s;
     case r of
       None \<Rightarrow> Some ([], s1)
     | Some i \<Rightarrow> do { (xs, s2) \<leftarrow> alloc_n alloc n s1; Some (i # xs, s2) }
   }"

locale slot_allocator =
  fixes used :: "'s \<Rightarrow> nat set"
    and slots :: "'s \<Rightarrow> nat set"
    and invar :: "'s \<Rightarrow> bool"
    and alloc :: "'s \<Rightarrow> (nat option \<times> 's) option"
    and free :: "nat \<Rightarrow> 's \<Rightarrow> 's option"
  assumes finite_slots: "invar s \<Longrightarrow> finite (slots s)"
    and used_slots: "invar s \<Longrightarrow> used s \<subseteq> slots s"
    and alloc_total: "invar s \<Longrightarrow> \<exists>r s'. alloc s = Some (r, s')"
    and alloc_Some: "invar s \<Longrightarrow> alloc s = Some (Some i, s') \<Longrightarrow>
      i \<in> slots s - used s \<and> used s' = insert i (used s) \<and> slots s' = slots s \<and> invar s'"
    and alloc_None: "invar s \<Longrightarrow> alloc s = Some (None, s') \<Longrightarrow> s' = s \<and> used s = slots s"
    and free_used: "invar s \<Longrightarrow> i \<in> used s \<Longrightarrow>
      \<exists>s'. free i s = Some s' \<and> used s' = used s - {i} \<and> slots s' = slots s \<and> invar s'"
begin

lemma alloc_ne_None: "invar s \<Longrightarrow> alloc s \<noteq> None"
  using alloc_total by fastforce

lemma alloc_cases:
  assumes "invar s"
  obtains (full) "alloc s = Some (None, s)" "used s = slots s"
  | (got) i s' where "alloc s = Some (Some i, s')" "i \<in> slots s - used s"
      "used s' = insert i (used s)" "slots s' = slots s" "invar s'"
proof -
  from alloc_total [OF assms] obtain r s' where a: "alloc s = Some (r, s')" by blast
  show thesis
  proof (cases r)
    case None
    with a alloc_None [OF assms] show ?thesis by (auto intro: full)
  next
    case (Some i)
    with a alloc_Some [OF assms] show ?thesis by (blast intro: got)
  qed
qed

text \<open>Repeated allocation never fails, hands out distinct free slots, and stops short only
  when every slot is taken.\<close>

lemma alloc_n_ok:
  "invar s \<Longrightarrow> \<exists>xs s'. alloc_n alloc n s = Some (xs, s') \<and> invar s' \<and> slots s' = slots s \<and>
     distinct xs \<and> set xs \<subseteq> slots s - used s \<and> used s' = used s \<union> set xs \<and> length xs \<le> n \<and>
     (length xs < n \<longrightarrow> used s' = slots s)"
proof (induction n arbitrary: s)
  case 0
  then show ?case by simp
next
  case (Suc n)
  from Suc.prems show ?case
  proof (cases rule: alloc_cases)
    case full
    with Suc.prems show ?thesis by simp
  next
    case (got i s1)
    from Suc.IH [OF got(5)] obtain xs s2 where
      r: "alloc_n alloc n s1 = Some (xs, s2)" "invar s2" "slots s2 = slots s1" "distinct xs"
        "set xs \<subseteq> slots s1 - used s1" "used s2 = used s1 \<union> set xs" "length xs \<le> n"
        "length xs < n \<longrightarrow> used s2 = slots s1"
      by blast
    have "alloc_n alloc (Suc n) s = Some (i # xs, s2)"
      using got(1) r(1) by simp
    with got(2-4) r show ?thesis
      by (intro exI [of _ "i # xs"] exI [of _ s2]) auto
  qed
qed

lemma alloc_n_count:
  assumes "invar s" "n \<le> card (slots s - used s)" "alloc_n alloc n s = Some (xs, s')"
  shows "length xs = n"
proof (rule ccontr)
  assume "length xs \<noteq> n"
  with alloc_n_ok [OF assms(1), of n] assms(3) have
    l: "length xs < n" and u: "used s \<union> set xs = slots s" and d: "distinct xs" by auto
  from u have "slots s - used s \<subseteq> set xs" by blast
  then have "card (slots s - used s) \<le> card (set xs)" by (rule card_mono [rotated]) simp
  with d l assms(2) show False by (simp add: distinct_card)
qed

text \<open>A slot that was just handed out can be returned, which restores the pool.\<close>

lemma free_after_alloc:
  assumes "invar s" "alloc s = Some (Some i, s')"
  shows "\<exists>s''. free i s' = Some s'' \<and> used s'' = used s \<and> invar s''"
proof -
  from alloc_Some [OF assms] have *: "i \<notin> used s" "used s' = insert i (used s)" "invar s'" by auto
  from free_used [OF *(3), of i] *(1,2) show ?thesis by auto
qed

end

end
