(* ===== verification/Bitmap.thy ===== *)
theory Bitmap
  imports Slot_Allocator
begin

text \<open>
  \<^verbatim>\<open>kern/lib/bitmap.c\<close>: the fixed-size bitmap the file system uses for its free blocks.
  The array of \<^verbatim>\<open>unsigned char\<close> words is a list of \<open>u8\<close>; an \<^verbatim>\<open>unsigned\<close> is a \<open>nat\<close> with the
  wrap-around of \<open>u32\<close>; a read or write outside the array is \<open>None\<close>.  The two arguments
  \<open>m1\<close>, \<open>m2\<close> of \<open>bitmap_create\<close> say whether its two calls of \<^verbatim>\<open>kmalloc\<close> succeed.
\<close>

section \<open>Definitions\<close>

abbreviation BITS_PER_WORD :: nat where "BITS_PER_WORD \<equiv> 8"
abbreviation WORD_ALLBITS :: u8 where "WORD_ALLBITS \<equiv> 0xff"

record bitmap =
  nbits :: nat
  vec :: "u8 list"

text \<open>The loop that marks the leftover bits of the last word.\<close>

function mark_over :: "nat \<Rightarrow> nat \<Rightarrow> u8 list \<Rightarrow> u8 list option" where
  "mark_over j ix v =
     (if j < BITS_PER_WORD
      then do { w \<leftarrow> rd v ix; v' \<leftarrow> wr v ix (w OR push_bit j 1); mark_over (Suc j) ix v' }
      else Some v)"
  by pat_completeness auto
termination
  by (relation "measure (\<lambda>(j, ix, v). BITS_PER_WORD - j)") auto

definition bitmap_create :: "bool \<Rightarrow> bool \<Rightarrow> nat \<Rightarrow> bitmap option option" where
  "bitmap_create m1 m2 nb =
     (let words = DIVROUNDUP nb BITS_PER_WORD in
      if \<not> m1 then Some None
      else if \<not> m2 then Some None
      else
        let v = replicate words 0 in
        if words > nb div BITS_PER_WORD then
          let ix = words - 1; overbits = usub nb (ix * BITS_PER_WORD) in
          do {
            KASSERT (nb div BITS_PER_WORD = words - 1);
            KASSERT (overbits > 0 \<and> overbits < BITS_PER_WORD);
            v' \<leftarrow> mark_over overbits ix v;
            Some (Some \<lparr>nbits = nb, vec = v'\<rparr>)
          }
        else Some (Some \<lparr>nbits = nb, vec = v\<rparr>))"

definition bitmap_getdata :: "bitmap \<Rightarrow> u8 list" where
  "bitmap_getdata b = vec b"

text \<open>The inner loop of \<open>bitmap_alloc\<close>: the first clear bit of a word.\<close>

function scan_word :: "u8 \<Rightarrow> nat \<Rightarrow> nat option" where
  "scan_word w offset =
     (if offset < BITS_PER_WORD
      then if w AND push_bit offset 1 = 0 then Some offset else scan_word w (Suc offset)
      else None)"
  by pat_completeness auto
termination
  by (relation "measure (\<lambda>(w, offset). BITS_PER_WORD - offset)") auto

text \<open>The outer loop. The result is the error code, the index stored through the pointer on
  success, and the bitmap.\<close>

function bitmap_alloc_from :: "bitmap \<Rightarrow> nat \<Rightarrow> nat \<Rightarrow> (errno \<times> nat option \<times> bitmap) option" where
  "bitmap_alloc_from b maxix ix =
     (if ix < maxix
      then do {
        w \<leftarrow> rd (vec b) ix;
        if w \<noteq> WORD_ALLBITS
        then (case scan_word w 0 of
            None \<Rightarrow> None
          | Some offset \<Rightarrow> do {
              v' \<leftarrow> wr (vec b) ix (w OR push_bit offset 1);
              index \<leftarrow> Some (u32 (ix * BITS_PER_WORD + offset));
              KASSERT (index < nbits b);
              Some (0, Some index, b\<lparr>vec := v'\<rparr>)
            })
        else bitmap_alloc_from b maxix (Suc ix)
      }
      else Some (ENOSPC, None, b))"
  by pat_completeness auto
termination
  by (relation "measure (\<lambda>(b, maxix, ix). maxix - ix)") auto

definition bitmap_alloc :: "bitmap \<Rightarrow> (errno \<times> nat option \<times> bitmap) option" where
  "bitmap_alloc b = bitmap_alloc_from b (DIVROUNDUP (nbits b) BITS_PER_WORD) 0"

definition bitmap_translate :: "nat \<Rightarrow> nat \<times> u8" where
  "bitmap_translate bitno = (bitno div BITS_PER_WORD, push_bit (bitno mod BITS_PER_WORD) 1)"

definition bitmap_mark :: "nat \<Rightarrow> bitmap \<Rightarrow> bitmap option" where
  "bitmap_mark index b = do {
     KASSERT (index < nbits b);
     (ix, msk) \<leftarrow> Some (bitmap_translate index);
     w \<leftarrow> rd (vec b) ix;
     KASSERT (w AND msk = 0);
     v' \<leftarrow> wr (vec b) ix (w OR msk);
     Some (b\<lparr>vec := v'\<rparr>)
   }"

definition bitmap_unmark :: "nat \<Rightarrow> bitmap \<Rightarrow> bitmap option" where
  "bitmap_unmark index b = do {
     KASSERT (index < nbits b);
     (ix, msk) \<leftarrow> Some (bitmap_translate index);
     w \<leftarrow> rd (vec b) ix;
     KASSERT (w AND msk \<noteq> 0);
     v' \<leftarrow> wr (vec b) ix (w AND NOT msk);
     Some (b\<lparr>vec := v'\<rparr>)
   }"

definition bitmap_isset :: "bitmap \<Rightarrow> nat \<Rightarrow> u8 option" where
  "bitmap_isset b index = do {
     (ix, msk) \<leftarrow> Some (bitmap_translate index);
     w \<leftarrow> rd (vec b) ix;
     Some (w AND msk)
   }"

declare mark_over.simps [simp del] scan_word.simps [simp del] bitmap_alloc_from.simps [simp del]

section \<open>The set a bitmap stands for\<close>

text \<open>Bit \<open>i\<close> of the whole array, and the set of bits in use.\<close>

definition vbit :: "u8 list \<Rightarrow> nat \<Rightarrow> bool" where
  "vbit v i = bit (v ! (i div BITS_PER_WORD)) (i mod BITS_PER_WORD)"

definition bm_used :: "bitmap \<Rightarrow> nat set" where
  "bm_used b = {i. i < nbits b \<and> vbit (vec b) i}"

text \<open>The invariant: the array has the right length, the bits past the end are marked in use,
  and the size does not make the word count wrap around.\<close>

definition bm_inv :: "bitmap \<Rightarrow> bool" where
  "bm_inv b \<longleftrightarrow> nbits b + 8 < 2 ^ 32 \<and> length (vec b) = (nbits b + 7) div 8 \<and>
     (\<forall>i. nbits b \<le> i \<longrightarrow> i < 8 * length (vec b) \<longrightarrow> vbit (vec b) i)"

lemma vbit_update:
  assumes "ix < length v"
  shows "vbit (v[ix := w]) i = (if i div 8 = ix then bit w (i mod 8) else vbit v i)"
  using assms by (simp add: vbit_def nth_list_update)

lemma not_allbits: "(w :: u8) \<noteq> WORD_ALLBITS \<longleftrightarrow> (\<exists>k<8. \<not> bit w k)"
  using word_ne_mask [of w] by (simp add: mask_eq_exp_minus_1)

text \<open>Setting and clearing one bit, as the four operations do it.\<close>

definition bm_set :: "nat \<Rightarrow> bitmap \<Rightarrow> bitmap" where
  "bm_set i b = b\<lparr>vec := (vec b)[i div 8 := vec b ! (i div 8) OR push_bit (i mod 8) 1]\<rparr>"

definition bm_clear :: "nat \<Rightarrow> bitmap \<Rightarrow> bitmap" where
  "bm_clear i b = b\<lparr>vec := (vec b)[i div 8 := vec b ! (i div 8) AND NOT (push_bit (i mod 8) 1)]\<rparr>"

lemma div_mod_8_eq: "(i::nat) div 8 = j div 8 \<Longrightarrow> i mod 8 = j mod 8 \<longleftrightarrow> i = j"
  by (metis div_mult_mod_eq)

lemma bm_inv_index: "bm_inv b \<Longrightarrow> i < nbits b \<Longrightarrow> i div 8 < length (vec b)"
  by (auto simp: bm_inv_def)

lemma vbit_bm_set:
  "i div 8 < length (vec b) \<Longrightarrow> vbit (vec (bm_set i b)) j \<longleftrightarrow> j = i \<or> vbit (vec b) j"
  using div_mod_8_eq [of i j]
  by (auto simp: bm_set_def vbit_update one_bit_exp) (simp_all add: vbit_def)

lemma vbit_bm_clear:
  "i div 8 < length (vec b) \<Longrightarrow> vbit (vec (bm_clear i b)) j \<longleftrightarrow> j \<noteq> i \<and> vbit (vec b) j"
  using div_mod_8_eq [of i j]
  by (auto simp: bm_clear_def vbit_update one_bit_exp) (simp_all add: vbit_def)

lemma bm_set_simps [simp]:
  "nbits (bm_set i b) = nbits b" "length (vec (bm_set i b)) = length (vec b)"
  "nbits (bm_clear i b) = nbits b" "length (vec (bm_clear i b)) = length (vec b)"
  by (simp_all add: bm_set_def bm_clear_def)

lemma bm_set_ok:
  assumes "bm_inv b" "i < nbits b"
  shows "bm_inv (bm_set i b)" "bm_used (bm_set i b) = insert i (bm_used b)"
  using assms bm_inv_index [OF assms] by (auto simp: bm_inv_def bm_used_def vbit_bm_set)

lemma bm_clear_ok:
  assumes "bm_inv b" "i < nbits b"
  shows "bm_inv (bm_clear i b)" "bm_used (bm_clear i b) = bm_used b - {i}"
  using assms bm_inv_index [OF assms] by (auto simp: bm_inv_def bm_used_def vbit_bm_clear)

section \<open>The loops\<close>

lemma scan_word_spec:
  "case scan_word w off of
     None \<Rightarrow> \<forall>j. off \<le> j \<and> j < 8 \<longrightarrow> bit w j
   | Some k \<Rightarrow> off \<le> k \<and> k < 8 \<and> \<not> bit w k \<and> (\<forall>j. off \<le> j \<and> j < k \<longrightarrow> bit w j)"
proof (induction w off rule: scan_word.induct)
  case (1 w off)
  show ?case
  proof (cases "off < 8 \<and> bit w off")
    case True
    with 1 show ?thesis
      by (auto simp: scan_word.simps [of w off] one_bit_exp Suc_le_eq split: option.splits)
        (metis le_neq_implies_less)+
  next
    case False
    then show ?thesis
      by (auto simp: scan_word.simps [of w off] one_bit_exp)
  qed
qed

lemma scan_word_found:
  assumes "w \<noteq> WORD_ALLBITS"
  obtains k where "scan_word w 0 = Some k" "k < 8" "\<not> bit w k" "\<And>j. j < k \<Longrightarrow> bit w j"
  using assms scan_word_spec [where w = w and off = 0] not_allbits [of w] by (auto split: option.splits)

lemma vbit_word: "vbit v (8 * ix + k) = bit (v ! ix) k" if "k < 8"
  using that by (simp add: vbit_def)

lemma index_split:
  assumes "i < 8 * ix + k" "k \<le> (8::nat)"
  obtains "i < 8 * ix" | "i div 8 = ix" "i mod 8 < k"
proof (cases "i < 8 * ix")
  case False
  then obtain d where "i = 8 * ix + d" by (metis le_Suc_ex not_less)
  with assms that(2) show ?thesis by simp
qed (rule that(1))

lemma all_set_Suc:
  "(\<forall>i<8 * Suc ix. vbit v i) \<longleftrightarrow> (\<forall>i<8 * ix. vbit v i) \<and> v ! ix = WORD_ALLBITS"
proof
  assume l: "\<forall>i<8 * Suc ix. vbit v i"
  have "bit (v ! ix) k" if "k < 8" for k
    using l that vbit_word [OF that, of v ix] by auto
  then show "(\<forall>i<8 * ix. vbit v i) \<and> v ! ix = WORD_ALLBITS"
    using l not_allbits by auto
next
  assume r: "(\<forall>i<8 * ix. vbit v i) \<and> v ! ix = WORD_ALLBITS"
  show "\<forall>i<8 * Suc ix. vbit v i"
  proof (intro allI impI)
    fix i assume "i < 8 * Suc ix"
    then have "i < 8 * ix + 8" by simp
    then consider "i < 8 * ix" | "i div 8 = ix" by (rule index_split) auto
    then show "vbit v i"
      using r not_allbits [of "v ! ix"] by cases (auto simp: vbit_def)
  qed
qed

lemma bitmap_alloc_from_spec:
  assumes "bm_inv b" "ix \<le> length (vec b)" "\<forall>i<8 * ix. vbit (vec b) i"
  shows "(\<exists>i<nbits b. \<not> vbit (vec b) i \<and> (\<forall>j<i. vbit (vec b) j) \<and>
            bitmap_alloc_from b (length (vec b)) ix = Some (0, Some i, bm_set i b)) \<or>
         (\<forall>i<nbits b. vbit (vec b) i) \<and>
            bitmap_alloc_from b (length (vec b)) ix = Some (ENOSPC, None, b)"
  using assms
proof (induction b "length (vec b)" ix rule: bitmap_alloc_from.induct)
  case (1 b ix)
  have nb: "nbits b \<le> 8 * length (vec b)" using "1.prems"(1) by (auto simp: bm_inv_def)
  show ?case
  proof (cases "ix < length (vec b)")
    case False
    with "1.prems" nb have "\<forall>i<nbits b. vbit (vec b) i" by auto
    with False show ?thesis by (simp add: bitmap_alloc_from.simps [of b _ ix])
  next
    case True
    show ?thesis
    proof (cases "vec b ! ix = WORD_ALLBITS")
      case all: True
      with "1.prems"(3) have "\<forall>i<8 * Suc ix. vbit (vec b) i" by (simp only: all_set_Suc simp_thms)
      with "1.hyps"[OF True] all True "1.prems"(1) show ?thesis
        by (simp add: bitmap_alloc_from.simps [of b _ ix])
    next
      case False
      then obtain k where k: "scan_word (vec b ! ix) 0 = Some k" "k < 8" "\<not> bit (vec b ! ix) k"
        "\<And>j. j < k \<Longrightarrow> bit (vec b ! ix) j" by (rule scan_word_found) blast
      let ?i = "8 * ix + k"
      have clear: "\<not> vbit (vec b) ?i" using k by (simp add: vbit_word)
      have lt: "?i < 8 * length (vec b)" using True k(2) by linarith
      have nbi: "?i < nbits b" using clear lt "1.prems"(1) by (meson bm_inv_def not_le)
      have below: "\<forall>j<?i. vbit (vec b) j"
      proof (intro allI impI)
        fix j assume "j < ?i"
        then consider "j < 8 * ix" | "j div 8 = ix" "j mod 8 < k"
          using k(2) by (rule index_split [OF _ less_imp_le])
        then show "vbit (vec b) j" using "1.prems"(3) k(4) by cases (auto simp: vbit_def)
      qed
      have "u32 (ix * 8 + k) = ?i" using nbi "1.prems"(1) by (simp add: bm_inv_def mult.commute)
      moreover have "?i div 8 = ix" "?i mod 8 = k" using k(2) by simp_all
      ultimately have "bitmap_alloc_from b (length (vec b)) ix = Some (0, Some ?i, bm_set ?i b)"
        using True False k(1) nbi by (simp add: bitmap_alloc_from.simps [of b _ ix] bm_set_def)
      with clear nbi below show ?thesis by blast
    qed
  qed
qed

lemma bm_inv_words: "bm_inv b \<Longrightarrow> DIVROUNDUP (nbits b) 8 = length (vec b)"
  by (simp add: bm_inv_def DIVROUNDUP_exact)

lemma bitmap_alloc_cases:
  assumes "bm_inv b"
  obtains (found) i where "i < nbits b" "\<not> vbit (vec b) i" "\<And>j. j < i \<Longrightarrow> vbit (vec b) j"
    "bitmap_alloc b = Some (0, Some i, bm_set i b)"
  | (full) "\<And>i. i < nbits b \<Longrightarrow> vbit (vec b) i" "bitmap_alloc b = Some (ENOSPC, None, b)"
  using bitmap_alloc_from_spec [OF assms, of 0] bm_inv_words [OF assms]
  by (auto simp: bitmap_alloc_def)

lemma mark_over_spec:
  "ix < length v \<Longrightarrow> \<exists>v'. mark_over j ix v = Some v' \<and> length v' = length v \<and>
     (\<forall>i. vbit v' i \<longleftrightarrow> vbit v i \<or> i div 8 = ix \<and> j \<le> i mod 8)"
proof (induction j ix v rule: mark_over.induct)
  case (1 j ix v)
  show ?case
  proof (cases "j < 8")
    case False
    have "\<not> j \<le> i mod 8" for i
      using False mod_less_divisor [of 8 i] order.trans by fastforce
    with False show ?thesis by (simp add: mark_over.simps [of j])
  next
    case True
    let ?v = "v[ix := v ! ix OR push_bit j 1]"
    from "1.IH" [of "v ! ix" ?v] True "1.prems" obtain v' where v': "mark_over (Suc j) ix ?v = Some v'" "length v' = length v"
      "\<And>i. vbit v' i \<longleftrightarrow> vbit ?v i \<or> i div 8 = ix \<and> Suc j \<le> i mod 8" by auto
    have "vbit v' i \<longleftrightarrow> vbit v i \<or> i div 8 = ix \<and> j \<le> i mod 8" for i
    proof (cases "i div 8 = ix")
      case i: True
      then have "vbit ?v i \<longleftrightarrow> vbit v i \<or> i mod 8 = j"
        using True "1.prems" by (auto simp: vbit_update one_bit_exp) (auto simp: vbit_def)
      moreover have "j \<le> r \<longleftrightarrow> Suc j \<le> r \<or> r = j" for r by auto
      ultimately show ?thesis using v'(3) i by blast
    qed (use v'(3) "1.prems" in \<open>simp add: vbit_update\<close>)
    with True "1.prems" v'(1,2) show ?thesis by (simp add: mark_over.simps [of j])
  qed
qed

lemma roundup_words: "nb mod 8 \<noteq> 0 \<Longrightarrow> (nb + 7) div 8 = Suc (nb div (8::nat))"
proof -
  assume nz: "nb mod 8 \<noteq> 0"
  define q r where "q = nb div 8" and "r = nb mod 8"
  then have "nb = 8 * q + r" "r < 8" "0 < r" using nz by simp_all
  then show ?thesis by (intro div_nat_eqI) (simp_all flip: q_def)
qed

lemma vbit_zeros: "i div 8 < n \<Longrightarrow> \<not> vbit (replicate n 0) i"
  by (simp add: vbit_def)

section \<open>Correctness\<close>

interpretation bm: slot_allocator bm_used "\<lambda>b. {..<nbits b}" bm_inv
  "\<lambda>b. map_option snd (bitmap_alloc b)" bitmap_unmark
proof unfold_locales
  fix b assume inv: "bm_inv b"
  show "finite {..<nbits b}" by simp
  show "bm_used b \<subseteq> {..<nbits b}" by (auto simp: bm_used_def)
  show "\<exists>r b'. map_option snd (bitmap_alloc b) = Some (r, b')"
    using inv by (cases rule: bitmap_alloc_cases) auto
  show "i \<in> {..<nbits b} - bm_used b \<and> bm_used b' = insert i (bm_used b) \<and>
      {..<nbits b'} = {..<nbits b} \<and> bm_inv b'"
    if "map_option snd (bitmap_alloc b) = Some (Some i, b')" for i b'
    using inv
  proof (cases rule: bitmap_alloc_cases)
    case (found j)
    with that bm_set_ok [OF inv, of j] show ?thesis by (auto simp: bm_used_def [of b])
  qed (use that in simp)
  show "b' = b \<and> bm_used b = {..<nbits b}"
    if "map_option snd (bitmap_alloc b) = Some (None, b')" for b'
    using inv that by (cases rule: bitmap_alloc_cases) (auto simp: bm_used_def)
  show "\<exists>b'. bitmap_unmark i b = Some b' \<and> bm_used b' = bm_used b - {i} \<and>
      {..<nbits b'} = {..<nbits b} \<and> bm_inv b'" if "i \<in> bm_used b" for i
  proof -
    from that have i: "i < nbits b" "bit (vec b ! (i div 8)) (i mod 8)"
      by (auto simp: bm_used_def vbit_def)
    then have "bitmap_unmark i b = Some (bm_clear i b)"
      using bm_inv_index [OF inv]
      by (simp add: bitmap_unmark_def bitmap_translate_def bm_clear_def one_bit_exp)
    with bm_clear_ok [OF inv i(1)] show ?thesis by simp
  qed
qed

text \<open>A bitmap fresh from \<^verbatim>\<open>bitmap_create\<close> satisfies the invariant and has every bit
  clear, for every size whose rounding does not wrap around; and the routine returns a null
  pointer when either allocation fails.\<close>

theorem bitmap_create_ok:
  assumes "nb + 8 < 2 ^ 32"
  shows "(\<exists>b. bitmap_create True True nb = Some (Some b) \<and> bm_inv b \<and> nbits b = nb \<and>
            bm_used b = {}) \<and>
         bitmap_create False m nb = Some None \<and> bitmap_create m False nb = Some None"
proof -
  have words: "DIVROUNDUP nb 8 = (nb + 7) div 8" using assms by (simp add: DIVROUNDUP_exact)
  let ?n = "(nb + 7) div 8"
  have "\<exists>b. bitmap_create True True nb = Some (Some b) \<and> bm_inv b \<and> nbits b = nb \<and> bm_used b = {}"
  proof (cases "nb mod 8 = 0")
    case True
    then have n: "?n = nb div 8" "8 * (nb div 8) = nb" by auto
    then have "bitmap_create True True nb = Some (Some \<lparr>nbits = nb, vec = replicate ?n 0\<rparr>)"
      by (simp add: bitmap_create_def words)
    with n assms show ?thesis by (auto simp: bm_inv_def bm_used_def vbit_zeros)
  next
    case False
    then have n: "?n = Suc (nb div 8)" by (rule roundup_words)
    have over: "usub nb (nb div 8 * 8) = nb mod 8"
      using assms by (simp add: minus_div_mult_eq_mod)
    obtain v where v: "mark_over (nb mod 8) (nb div 8) (replicate ?n 0) = Some v" "length v = ?n"
      "\<And>i. vbit v i \<longleftrightarrow> vbit (replicate ?n 0) i \<or> i div 8 = nb div 8 \<and> nb mod 8 \<le> i mod 8"
      using mark_over_spec [of "nb div 8" "replicate ?n 0" "nb mod 8"] n by auto
    then have c: "bitmap_create True True nb = Some (Some \<lparr>nbits = nb, vec = v\<rparr>)"
      using False n by (simp add: bitmap_create_def words over)
    have past: "vbit v i" if "nb \<le> i" "i < 8 * ?n" for i
    proof -
      have "i div 8 = nb div 8" using that n div_le_mono [of nb i 8] by (simp add: less_mult_imp_div_less)
      with that v(3) show ?thesis by (metis div_mult_mod_eq nat_add_left_cancel_le)
    qed
    have "\<not> vbit v i" if "i < nb" for i
    proof -
      have "i div 8 < ?n" using that div_le_mono [of i nb 8] n by simp
      moreover have "\<not> (i div 8 = nb div 8 \<and> nb mod 8 \<le> i mod 8)"
        using that by (metis div_mult_mod_eq nat_add_left_cancel_le not_less)
      ultimately show ?thesis using v(3) vbit_zeros by blast
    qed
    with c past v(2) assms show ?thesis by (auto simp: bm_inv_def bm_used_def)
  qed
  then show ?thesis by (auto simp: bitmap_create_def Let_def)
qed

theorem bitmap_create_ok_witness:
  "(13::nat) + 8 < 2 ^ 32 \<and> (\<exists>b. bitmap_create True True 13 = Some (Some b) \<and> bm_inv b)"
  using bitmap_create_ok [of 13] by auto

text \<open>C23: \<^verbatim>\<open>bitmap_alloc\<close> never panics on a well-formed bitmap.  It returns the least clear
  bit and sets exactly that bit, and it returns \<^verbatim>\<open>ENOSPC\<close>, changing nothing, exactly when every
  bit is set.\<close>

theorem bitmap_alloc_least:
  assumes "bm_inv b"
  shows "if bm_used b = {..<nbits b} then bitmap_alloc b = Some (ENOSPC, None, b)
         else \<exists>b'. bitmap_alloc b = Some (0, Some (LEAST i. i \<notin> bm_used b), b') \<and>
           bm_used b' = insert (LEAST i. i \<notin> bm_used b) (bm_used b) \<and>
           nbits b' = nbits b \<and> bm_inv b'"
  using assms
proof (cases rule: bitmap_alloc_cases)
  case (found i)
  have "(LEAST i. i \<notin> bm_used b) = i"
    using found by (intro Least_equality) (auto simp: bm_used_def not_less [symmetric])
  moreover have "bm_used b \<noteq> {..<nbits b}" using found by (auto simp: bm_used_def)
  ultimately show ?thesis using found(4) bm_set_ok [OF assms found(1)] by simp
qed (auto simp: bm_used_def)

theorem bitmap_alloc_least_witness:
  "bm_inv \<lparr>nbits = 8, vec = [0xfb]\<rparr> \<and>
   (\<exists>b'. bitmap_alloc \<lparr>nbits = 8, vec = [0xfb]\<rparr> = Some (0, Some 2, b'))"
proof -
  let ?b = "\<lparr>nbits = 8, vec = [0xfb :: u8]\<rparr>"
  have inv: "bm_inv ?b" by (simp add: bm_inv_def)
  have v: "vbit [0xfb] 0" "vbit [0xfb] 1" "\<not> vbit [0xfb] 2" by (simp_all add: vbit_def)
  then have "(LEAST i. i \<notin> bm_used ?b) = 2"
    by (intro Least_equality) (auto simp: bm_used_def, metis One_nat_def less_2_cases not_le)
  moreover have "2 \<notin> bm_used ?b" using v by (simp add: bm_used_def)
  ultimately show ?thesis using inv bitmap_alloc_least [OF inv] by (auto split: if_splits)
qed

text \<open>On a valid index \<^verbatim>\<open>bitmap_mark\<close> adds a clear bit to the set and panics on a set one,
  \<^verbatim>\<open>bitmap_unmark\<close> removes a set bit and panics on a clear one, and \<^verbatim>\<open>bitmap_isset\<close> is nonzero
  exactly on the bits of the set.\<close>

theorem bitmap_mark_unmark_isset:
  assumes "bm_inv b" "i < nbits b"
  shows "(if i \<in> bm_used b then bitmap_mark i b = None
          else \<exists>b'. bitmap_mark i b = Some b' \<and> bm_inv b' \<and> bm_used b' = insert i (bm_used b)) \<and>
         (if i \<in> bm_used b
          then \<exists>b'. bitmap_unmark i b = Some b' \<and> bm_inv b' \<and> bm_used b' = bm_used b - {i}
          else bitmap_unmark i b = None) \<and>
         (\<exists>w. bitmap_isset b i = Some w \<and> (w \<noteq> 0 \<longleftrightarrow> i \<in> bm_used b))"
proof -
  note ix = bm_inv_index [OF assms]
  have used: "i \<in> bm_used b \<longleftrightarrow> bit (vec b ! (i div 8)) (i mod 8)"
    using assms by (simp add: bm_used_def vbit_def)
  have "bitmap_mark i b = (if i \<in> bm_used b then None else Some (bm_set i b))"
    using assms ix by (simp add: bitmap_mark_def bitmap_translate_def used bm_set_def one_bit_exp)
  moreover have "bitmap_unmark i b = (if i \<in> bm_used b then Some (bm_clear i b) else None)"
    using assms ix by (simp add: bitmap_unmark_def bitmap_translate_def used bm_clear_def one_bit_exp)
  moreover have "bitmap_isset b i = Some (vec b ! (i div 8) AND push_bit (i mod 8) 1)"
    using ix by (simp add: bitmap_isset_def bitmap_translate_def)
  ultimately show ?thesis
    using bm_set_ok [OF assms] bm_clear_ok [OF assms] by (simp add: used and_one_bit del: push_bit_of_1)
qed

theorem bitmap_mark_unmark_isset_witness:
  "bm_inv \<lparr>nbits = 8, vec = [4]\<rparr> \<and> (2::nat) < nbits \<lparr>nbits = 8, vec = [4]\<rparr> \<and>
   bitmap_mark 2 \<lparr>nbits = 8, vec = [4]\<rparr> = None"
proof -
  have inv: "bm_inv \<lparr>nbits = 8, vec = [4]\<rparr>" by (simp add: bm_inv_def)
  moreover have "2 \<in> bm_used \<lparr>nbits = 8, vec = [4]\<rparr>" by (simp add: bm_used_def vbit_def)
  ultimately show ?thesis using bitmap_mark_unmark_isset [OF inv, of 2] by simp
qed

text \<open>Calling \<^verbatim>\<open>bitmap_alloc\<close> as often as there are clear bits succeeds every time and hands
  out that many different bits, none of which was in use.\<close>

theorem bitmap_allocs_distinct:
  assumes "bm_inv b" "n \<le> card ({..<nbits b} - bm_used b)"
  shows "\<exists>xs b'. alloc_n (\<lambda>b. map_option snd (bitmap_alloc b)) n b = Some (xs, b') \<and>
           length xs = n \<and> distinct xs \<and> set xs \<subseteq> {..<nbits b} - bm_used b \<and>
           bm_used b' = bm_used b \<union> set xs"
  using bm.alloc_n_ok [OF assms(1), of n] bm.alloc_n_count [OF assms] by blast

theorem bitmap_allocs_distinct_witness:
  "bm_inv \<lparr>nbits = 8, vec = [0xf0]\<rparr> \<and>
   (\<exists>xs b'. alloc_n (\<lambda>b. map_option snd (bitmap_alloc b)) 2 \<lparr>nbits = 8, vec = [0xf0]\<rparr> = Some (xs, b') \<and>
      length xs = 2 \<and> distinct xs)"
proof -
  let ?b = "\<lparr>nbits = 8, vec = [0xf0 :: u8]\<rparr>"
  have inv: "bm_inv ?b" by (simp add: bm_inv_def)
  have "{0, 1} \<subseteq> {..<nbits ?b} - bm_used ?b" by (simp add: bm_used_def vbit_def)
  then have "card {0::nat, 1} \<le> card ({..<nbits ?b} - bm_used ?b)"
    by (rule card_mono [rotated]) simp
  then have "2 \<le> card ({..<nbits ?b} - bm_used ?b)" by simp
  from bitmap_allocs_distinct [OF inv this] inv show ?thesis by blast
qed

end
