(* ===== verification/Kern_Array.thy ===== *)
theory Kern_Array
  imports Kern_Prelude
begin

text \<open>
  \<^verbatim>\<open>kern/lib/array.c\<close> and the inline operations of \<^verbatim>\<open>kern/include/array.h\<close>: the resizable array of
  pointers behind \<^verbatim>\<open>cpuarray\<close>, the device list and the other typed arrays.  The block \<^verbatim>\<open>v\<close> points to is
  a list with one element per cell; the null pointer is the empty list.  An operation that may call
  \<^verbatim>\<open>kmalloc\<close> takes what the call returns: \<open>None\<close> for a null pointer, \<open>Some junk\<close> for a fresh block whose
  cell \<open>i\<close> happens to hold \<open>junk i\<close>.
\<close>

section \<open>Definitions\<close>

record 'a array =
  arr_v :: "'a list"
  arr_num :: nat
  arr_max :: nat

definition array_init :: "'a array" where
  "array_init = \<lparr>arr_v = [], arr_num = 0, arr_max = 0\<rparr>"

definition array_create :: "bool \<Rightarrow> 'a array option" where
  "array_create m = (if m then Some array_init else None)"

definition array_cleanup :: "'a array \<Rightarrow> 'a array option" where
  "array_cleanup a = do { KASSERT (arr_num a = 0); Some (a\<lparr>arr_v := []\<rparr>) }"

text \<open>\<^verbatim>\<open>array_destroy\<close> also frees the structure itself: nothing of it is left.\<close>

definition array_destroy :: "'a array \<Rightarrow> unit option" where
  "array_destroy a = do { _ \<leftarrow> array_cleanup a; Some () }"

text \<open>The doubling loop. \<open>newmax*2\<close> is unsigned and wraps around, so the loop may not end: then
  the value is \<open>None\<close>.\<close>

partial_function (option) grow :: "nat \<Rightarrow> nat \<Rightarrow> nat option" where
  "grow n newmax =
     (if n > newmax then grow n (if newmax \<noteq> 0 then u32 (newmax * 2) else 4) else Some newmax)"

text \<open>The new block has room for \<open>newmax*sizeof(void*)\<close> bytes, a product that wraps around too.
  Copying more cells than either block has is undefined.\<close>

definition array_setsize :: "(nat \<Rightarrow> 'a) option \<Rightarrow> 'a array \<Rightarrow> nat \<Rightarrow> (errno \<times> 'a array) option" where
  "array_setsize mem a n =
     (if n > arr_max a then do {
        newmax \<leftarrow> grow n (arr_max a);
        case mem of
          None \<Rightarrow> Some (ENOMEM, a)
        | Some junk \<Rightarrow>
            let newptr = map junk [0..<u32 (newmax * 4) div 4] in
            if arr_num a \<le> length newptr \<and> arr_num a \<le> length (arr_v a)
            then Some (0, a\<lparr>arr_v := take (arr_num a) (arr_v a) @ drop (arr_num a) newptr, arr_num := n, arr_max := newmax\<rparr>)
            else None
      }
      else Some (0, a\<lparr>arr_num := n\<rparr>))"

text \<open>\<^verbatim>\<open>memmove\<close> of \<open>n\<close> cells inside one block.\<close>

definition move_cells :: "'a list \<Rightarrow> nat \<Rightarrow> nat \<Rightarrow> nat \<Rightarrow> 'a list option" where
  "move_cells xs dst src n =
     (if dst + n \<le> length xs \<and> src + n \<le> length xs
      then Some (take dst xs @ take n (drop src xs) @ drop (dst + n) xs) else None)"

definition array_remove :: "'a array \<Rightarrow> nat \<Rightarrow> 'a array option" where
  "array_remove a index = do {
     KASSERT (arr_num a \<le> arr_max a);
     KASSERT (index < arr_num a);
     num_to_move \<leftarrow> Some (usub (arr_num a) (u32 (index + 1)));
     v' \<leftarrow> move_cells (arr_v a) index (index + 1) num_to_move;
     Some (a\<lparr>arr_v := v', arr_num := arr_num a - 1\<rparr>)
   }"

definition array_num :: "'a array \<Rightarrow> nat" where
  "array_num a = arr_num a"

definition array_get :: "'a array \<Rightarrow> nat \<Rightarrow> 'a option" where
  "array_get a index = do { KASSERT (index < arr_num a); rd (arr_v a) index }"

definition array_set :: "'a array \<Rightarrow> nat \<Rightarrow> 'a \<Rightarrow> 'a array option" where
  "array_set a index val = do {
     KASSERT (index < arr_num a);
     v' \<leftarrow> wr (arr_v a) index val;
     Some (a\<lparr>arr_v := v'\<rparr>)
   }"

text \<open>The result of \<open>array_add\<close>: the error code, the index stored through \<^verbatim>\<open>index_ret\<close> on success,
  and the array.\<close>

definition array_add :: "(nat \<Rightarrow> 'a) option \<Rightarrow> 'a array \<Rightarrow> 'a \<Rightarrow> (errno \<times> nat option \<times> 'a array) option" where
  "array_add mem a val = do {
     index \<leftarrow> Some (arr_num a);
     (ret, a1) \<leftarrow> array_setsize mem a (u32 (index + 1));
     if ret \<noteq> 0 then Some (ret, None, a1)
     else do {
       v' \<leftarrow> wr (arr_v a1) index val;
       Some (0, Some index, a1\<lparr>arr_v := v'\<rparr>)
     }
   }"

section \<open>The list an array stands for\<close>

definition elems :: "'a array \<Rightarrow> 'a list" where
  "elems a = take (arr_num a) (arr_v a)"

text \<open>The capacity is 0 or a power of two, at most \<open>2^29\<close>: beyond that the byte count of the block
  wraps around.\<close>

definition cap_ok :: "nat \<Rightarrow> bool" where
  "cap_ok m \<longleftrightarrow> m = 0 \<or> (\<exists>k. 2 \<le> k \<and> k \<le> 29 \<and> m = 2 ^ k)"

definition arr_inv :: "'a array \<Rightarrow> bool" where
  "arr_inv a \<longleftrightarrow> arr_num a \<le> arr_max a \<and> length (arr_v a) = arr_max a \<and> cap_ok (arr_max a)"

lemma cap_ok_le: "cap_ok m \<Longrightarrow> m \<le> 2 ^ 29"
  unfolding cap_ok_def using power_increasing [of _ 29 "2::nat"] by fastforce

lemma length_elems [simp]: "arr_inv a \<Longrightarrow> length (elems a) = arr_num a"
  by (simp add: elems_def arr_inv_def)

lemma arr_inv_init: "arr_inv array_init" "elems array_init = []"
  by (simp_all add: arr_inv_def array_init_def elems_def cap_ok_def)

section \<open>The doubling loop\<close>

lemma grow_pow:
  assumes "2 ^ k < n" "n \<le> 2 ^ j" "j < 32"
  shows "\<exists>i. k < i \<and> i \<le> j \<and> grow n (2 ^ k) = Some (2 ^ i) \<and> n \<le> 2 ^ i \<and> 2 ^ i < 2 * n"
  using assms
proof (induction "j - k" arbitrary: k)
  case 0
  then have "(2::nat) ^ j \<le> 2 ^ k" by (intro power_increasing) auto
  with 0 show ?case by simp
next
  case (Suc d)
  have d: "d = j - Suc k" using Suc.hyps(2) by simp
  have kj: "k < j"
  proof (rule ccontr)
    assume "\<not> k < j"
    then have "(2::nat) ^ j \<le> 2 ^ k" by (intro power_increasing) auto
    with Suc.prems show False by simp
  qed
  have "(2::nat) ^ Suc k < 2 ^ 32" using kj Suc.prems(3) by (intro power_strict_increasing) auto
  then have "u32 (2 ^ k * 2) = 2 ^ Suc k" by (simp add: mult.commute)
  with Suc.prems(1) have step: "grow n (2 ^ k) = grow n (2 ^ Suc k)"
    by (subst grow.simps) simp
  show ?case
  proof (cases "n \<le> 2 ^ Suc k")
    case True
    then have "grow n (2 ^ Suc k) = Some (2 ^ Suc k)" by (subst grow.simps) simp
    with step True Suc.prems(1) kj show ?thesis by (intro exI [of _ "Suc k"]) auto
  next
    case False
    then obtain i where "Suc k < i" "i \<le> j" "grow n (2 ^ Suc k) = Some (2 ^ i)" "n \<le> 2 ^ i" "2 ^ i < 2 * n"
      using Suc.hyps(1) [of "Suc k", OF d] Suc.prems by (auto simp: not_le)
    with step show ?thesis by (intro exI [of _ i]) auto
  qed
qed

lemma grow_ok:
  assumes "cap_ok m" "m < n" "n \<le> 2 ^ 29"
  shows "\<exists>m'. grow n m = Some m' \<and> cap_ok m' \<and> n \<le> m' \<and> m' \<le> max 4 (2 * n)"
proof (cases "m = 0")
  case False
  with assms(1) obtain k where k: "2 \<le> k" "k \<le> 29" "m = 2 ^ k" by (auto simp: cap_ok_def)
  from grow_pow [of k n 29] assms k obtain i where
    "k < i" "i \<le> 29" "grow n m = Some (2 ^ i)" "n \<le> 2 ^ i" "2 ^ i < 2 * n" by auto
  with k(1) show ?thesis by (intro exI [of _ "2 ^ i"]) (auto simp: cap_ok_def intro!: exI [of _ i])
next
  case True
  have step: "grow n m = grow n (2 ^ 2)" using True assms(2) by (subst grow.simps) simp
  show ?thesis
  proof (cases "n \<le> 4")
    case True
    then have "grow n (2 ^ 2) = Some (2 ^ 2)" by (subst grow.simps) simp
    with step True show ?thesis by (intro exI [of _ 4]) (auto simp: cap_ok_def intro!: exI [of _ 2])
  next
    case False
    with grow_pow [of 2 n 29] assms obtain i where
      "2 < i" "i \<le> 29" "grow n (2 ^ 2) = Some (2 ^ i)" "n \<le> 2 ^ i" "2 ^ i < 2 * n" by auto
    with step show ?thesis by (intro exI [of _ "2 ^ i"]) (auto simp: cap_ok_def intro!: exI [of _ i])
  qed
qed

text \<open>If the loop ends, it ends at a capacity it can reach by doubling.\<close>

lemma grow_result:
  assumes "grow n m = Some r" "m = 0 \<or> (\<exists>k<32. m = 2 ^ k)"
  shows "n \<le> r \<and> r \<le> 2 ^ 31"
proof -
  have "(m = 0 \<or> (\<exists>k<32. m = 2 ^ k)) \<longrightarrow> n \<le> r \<and> r \<le> 2 ^ 31"
  proof (rule grow.raw_induct [OF _ assms(1),
        where P = "\<lambda>n m r. (m = 0 \<or> (\<exists>k<32. m = 2 ^ k)) \<longrightarrow> n \<le> r \<and> r \<le> 2 ^ 31"], rule impI)
    fix f :: "nat \<Rightarrow> nat \<Rightarrow> nat option" and n m r
    assume IH: "\<And>n m r. f n m = Some r \<Longrightarrow>
        (m = 0 \<or> (\<exists>k<32. m = 2 ^ k)) \<longrightarrow> n \<le> r \<and> r \<le> 2 ^ 31"
      and eq: "(if m < n then f n (if m \<noteq> 0 then u32 (m * 2) else 4) else Some m) = Some r"
      and m: "m = 0 \<or> (\<exists>k<32. m = 2 ^ k)"
    let ?m = "if m \<noteq> 0 then u32 (m * 2) else 4"
    show "n \<le> r \<and> r \<le> 2 ^ 31"
    proof (cases "m < n")
      case True
      have "?m = 0 \<or> (\<exists>k<32. ?m = 2 ^ k)"
      proof (cases "m = 0")
        case False
        with m obtain k where k: "k < 32" "m = 2 ^ k" by auto
        show ?thesis
        proof (cases "k = 31")
          case True
          with k show ?thesis by (simp add: u32_def)
        next
          case False
          then have "(2::nat) ^ Suc k < 2 ^ 32" using k by (intro power_strict_increasing) auto
          with k False show ?thesis by (auto simp: mult.commute intro!: exI [of _ "Suc k"])
        qed
      qed (auto intro!: exI [of _ 2])
      moreover have "f n ?m = Some r" using eq True by simp
      ultimately show ?thesis using IH by blast
    next
      case False
      moreover have "(2::nat) ^ k \<le> 2 ^ 31" if "k < 32" for k
        using that by (intro power_increasing) auto
      ultimately show ?thesis using eq m by auto
    qed
  qed
  with assms(2) show ?thesis by blast
qed

section \<open>The interface\<close>

text \<open>What a client of a resizable array relies on.  \<open>add\<close> takes the outcome of the allocation it may
  have to make; when that fails, the array is as before.\<close>

locale pointer_array =
  fixes contents :: "'s \<Rightarrow> 'a list"
    and invar :: "'s \<Rightarrow> bool"
    and room :: nat
    and add :: "'m \<Rightarrow> 's \<Rightarrow> 'a \<Rightarrow> (errno \<times> nat option \<times> 's) option"
    and get :: "'s \<Rightarrow> nat \<Rightarrow> 'a option"
    and remove :: "'s \<Rightarrow> nat \<Rightarrow> 's option"
  assumes add_ok: "invar s \<Longrightarrow> length (contents s) < room \<Longrightarrow>
      (\<exists>s'. add m s x = Some (0, Some (length (contents s)), s') \<and> invar s' \<and>
         contents s' = contents s @ [x]) \<or>
      (\<exists>e. e \<noteq> 0 \<and> add m s x = Some (e, None, s))"
    and get_ok: "invar s \<Longrightarrow> i < length (contents s) \<Longrightarrow> get s i = Some (contents s ! i)"
    and remove_ok: "invar s \<Longrightarrow> i < length (contents s) \<Longrightarrow>
      \<exists>s'. remove s i = Some s' \<and> invar s' \<and> contents s' = take i (contents s) @ drop (Suc i) (contents s)"
begin

text \<open>Entries keep their index while others are appended.\<close>

lemma get_after_add:
  assumes "invar s" "length (contents s) < room" "add m s x = Some (0, Some i, s')"
  shows "get s' i = Some x \<and> (\<forall>j<i. get s' j = get s j)"
proof -
  from add_ok [OF assms(1,2), of m x] assms(3)
  have s': "i = length (contents s)" "invar s'" "contents s' = contents s @ [x]" by auto
  then show ?thesis using assms(1) by (auto simp: get_ok nth_append)
qed

text \<open>Removing the entry just added restores the list.\<close>

lemma remove_after_add:
  assumes "invar s" "length (contents s) < room" "add m s x = Some (0, Some i, s')"
  shows "\<exists>s''. remove s' i = Some s'' \<and> contents s'' = contents s"
proof -
  from add_ok [OF assms(1,2), of m x] assms(3)
  have s': "i = length (contents s)" "invar s'" "contents s' = contents s @ [x]" by auto
  then show ?thesis using remove_ok [of s' i] by auto
qed

end

section \<open>Correctness\<close>

lemma array_setsize_ok:
  assumes "arr_inv a" "n \<le> 2 ^ 29"
  shows "if arr_max a < n \<and> mem = None then array_setsize mem a n = Some (ENOMEM, a)
    else \<exists>a'. array_setsize mem a n = Some (0, a') \<and> arr_inv a' \<and> arr_num a' = n \<and>
      take (arr_num a) (arr_v a') = take (arr_num a) (arr_v a) \<and>
      arr_max a' \<le> max (arr_max a) (max 4 (2 * n))"
proof (cases "arr_max a < n")
  case False
  with assms(1) show ?thesis by (auto simp: array_setsize_def arr_inv_def)
next
  case True
  from grow_ok [OF _ True assms(2)] assms(1) obtain m where
    m: "grow n (arr_max a) = Some m" "cap_ok m" "n \<le> m" "m \<le> max 4 (2 * n)"
    by (auto simp: arr_inv_def)
  have cells: "u32 (m * 4) div 4 = m" using cap_ok_le [OF m(2)] by simp
  show ?thesis
  proof (cases mem)
    case None
    with True m(1) show ?thesis by (simp add: array_setsize_def)
  next
    case (Some junk)
    with True m cells assms(1) show ?thesis by (auto simp: array_setsize_def arr_inv_def)
  qed
qed

lemma array_add_cases:
  assumes "arr_inv a" "arr_num a < 2 ^ 29"
  shows "if arr_num a = arr_max a \<and> mem = None then array_add mem a x = Some (ENOMEM, None, a)
    else \<exists>a'. array_add mem a x = Some (0, Some (arr_num a), a') \<and> arr_inv a' \<and>
      elems a' = elems a @ [x] \<and> arr_max a' \<le> max (arr_max a) (max 4 (2 * (arr_num a + 1)))"
proof -
  let ?n = "arr_num a + 1"
  have n: "u32 ?n = ?n" "?n \<le> 2 ^ 29" using assms(2) by simp_all
  note ss = array_setsize_ok [OF assms(1) n(2), of mem]
  show ?thesis
  proof (cases "arr_max a < ?n \<and> mem = None")
    case True
    moreover from this assms(1) have "arr_num a = arr_max a" by (simp add: arr_inv_def)
    ultimately show ?thesis using ss n(1) by (simp add: array_add_def)
  next
    case False
    with ss obtain a' where a': "array_setsize mem a ?n = Some (0, a')" "arr_inv a'" "arr_num a' = ?n"
      "take (arr_num a) (arr_v a') = take (arr_num a) (arr_v a)"
      "arr_max a' \<le> max (arr_max a) (max 4 (2 * ?n))" by auto
    have len: "arr_num a < length (arr_v a')" using a'(2,3) by (simp add: arr_inv_def)
    with a'(1) n(1) have "array_add mem a x = Some (0, Some (arr_num a), a'\<lparr>arr_v := (arr_v a')[arr_num a := x]\<rparr>)"
      by (simp add: array_add_def)
    moreover have "take ?n ((arr_v a')[arr_num a := x]) = take (arr_num a) (arr_v a) @ [x]"
      using len a'(4) by (simp add: take_Suc_conv_app_nth)
    moreover have "\<not> (arr_num a = arr_max a \<and> mem = None)" using False by auto
    ultimately show ?thesis using a' by (auto simp: elems_def arr_inv_def)
  qed
qed

lemma array_remove_elems:
  assumes "arr_inv a" "i < arr_num a"
  shows "\<exists>a'. array_remove a i = Some a' \<and> arr_inv a' \<and>
    elems a' = take i (elems a) @ drop (Suc i) (elems a) \<and> arr_max a' = arr_max a"
proof -
  have le: "arr_num a \<le> length (arr_v a)" "arr_num a \<le> arr_max a" "arr_num a < 2 ^ 32" "Suc i \<le> arr_num a"
    using assms cap_ok_le [of "arr_max a"] by (auto simp: arr_inv_def)
  then have u: "usub (arr_num a) (u32 (i + 1)) = arr_num a - Suc i" by simp
  let ?w = "take i (arr_v a) @ take (arr_num a - Suc i) (drop (Suc i) (arr_v a))"
  let ?v = "?w @ drop (arr_num a - 1) (arr_v a)"
  have "array_remove a i = Some (a\<lparr>arr_v := ?v, arr_num := arr_num a - 1\<rparr>)"
    using le assms(2) u by (simp add: array_remove_def move_cells_def)
  moreover have "length ?w = arr_num a - 1" using le by simp
  then have "take (arr_num a - 1) ?v = ?w" by (metis append_eq_conv_conj)
  moreover have "?w = take i (elems a) @ drop (Suc i) (elems a)"
    using le by (simp add: elems_def drop_take)
  moreover have "length ?v = arr_max a" using le assms(1) by (simp add: arr_inv_def)
  ultimately show ?thesis using le assms(1) by (auto simp: elems_def arr_inv_def)
qed

interpretation arr: pointer_array elems arr_inv "2 ^ 29" array_add array_get array_remove
proof unfold_locales
  fix a :: "'a array" and m x i
  assume inv: "arr_inv a"
  show "(\<exists>a'. array_add m a x = Some (0, Some (length (elems a)), a') \<and> arr_inv a' \<and>
      elems a' = elems a @ [x]) \<or> (\<exists>e. e \<noteq> 0 \<and> array_add m a x = Some (e, None, a))"
    if "length (elems a) < 2 ^ 29"
    using array_add_cases [OF inv, of m x] that inv by (auto split: if_splits)
  show "array_get a i = Some (elems a ! i)" if "i < length (elems a)"
    using that inv by (simp add: array_get_def elems_def arr_inv_def)
  show "\<exists>a'. array_remove a i = Some a' \<and> arr_inv a' \<and>
      elems a' = take i (elems a) @ drop (Suc i) (elems a)" if "i < length (elems a)"
    using array_remove_elems [OF inv, of i] that inv by auto
qed

text \<open>\<^verbatim>\<open>array_add\<close> appends its value at the index it reports and keeps the invariant; it returns
  \<^verbatim>\<open>ENOMEM\<close>, leaving the array untouched, exactly when it has to grow and the allocation fails; and the
  capacity never more than doubles what is needed.\<close>

theorem array_add_appends:
  assumes "arr_inv a" "arr_num a < 2 ^ 29"
  shows "if arr_num a = arr_max a \<and> mem = None then array_add mem a x = Some (ENOMEM, None, a)
    else \<exists>a'. array_add mem a x = Some (0, Some (arr_num a), a') \<and> arr_inv a' \<and>
      elems a' = elems a @ [x] \<and> array_get a' (arr_num a) = Some x \<and>
      arr_max a' \<le> max (arr_max a) (max 4 (2 * (arr_num a + 1)))"
proof -
  have "array_get a' (arr_num a) = Some x"
    if "array_add mem a x = Some (0, Some (arr_num a), a')" for a'
    using arr.get_after_add [OF assms(1) _ that] assms by simp
  then show ?thesis using array_add_cases [OF assms, of mem x] by auto
qed

theorem array_add_appends_witness:
  "arr_inv (array_init :: nat array) \<and> arr_num (array_init :: nat array) < 2 ^ 29 \<and>
   (\<exists>a'. array_add (Some (\<lambda>_. 0)) (array_init :: nat array) 7 = Some (0, Some 0, a') \<and> elems a' = [7])"
  using array_add_appends [OF arr_inv_init(1), of "Some (\<lambda>_. 0)" "7::nat"] arr_inv_init
  by (auto simp: array_init_def)

text \<open>\<^verbatim>\<open>array_remove\<close> excises the entry and slides the following ones down by one; in particular
  it undoes an \<^verbatim>\<open>array_add\<close>.  An index outside the array is an assertion failure.\<close>

theorem array_remove_excises:
  assumes "arr_inv a"
  shows "if i < arr_num a
    then \<exists>a'. array_remove a i = Some a' \<and> arr_inv a' \<and> arr_num a' = arr_num a - 1 \<and>
      (\<forall>j<i. array_get a' j = array_get a j) \<and>
      (\<forall>j. i \<le> j \<and> j < arr_num a - 1 \<longrightarrow> array_get a' j = array_get a (Suc j))
    else array_remove a i = None"
proof (cases "i < arr_num a")
  case True
  from array_remove_elems [OF assms True] obtain a' where
    a': "array_remove a i = Some a'" "arr_inv a'" "elems a' = take i (elems a) @ drop (Suc i) (elems a)"
    by blast
  then have "length (elems a') = arr_num a - 1" using assms True by simp
  with a'(2) have num: "arr_num a' = arr_num a - 1" by simp
  have "array_get a' j = array_get a j" if "j < i" for j
    using that a' num assms True by (simp add: arr.get_ok nth_append)
  moreover have "array_get a' j = array_get a (Suc j)" if "i \<le> j" "j < arr_num a - 1" for j
    using that a' num assms True by (simp add: arr.get_ok nth_append)
  ultimately show ?thesis using a'(1,2) num True by auto
next
  case False
  then show ?thesis by (simp add: array_remove_def)
qed

theorem array_remove_excises_witness:
  "arr_inv \<lparr>arr_v = [5, 6, 7, 8 :: nat], arr_num = 3, arr_max = 4\<rparr> \<and>
   (\<exists>a'. array_remove \<lparr>arr_v = [5, 6, 7, 8 :: nat], arr_num = 3, arr_max = 4\<rparr> 0 = Some a' \<and>
      array_get a' 0 = Some 6)"
proof -
  let ?a = "\<lparr>arr_v = [5, 6, 7, 8 :: nat], arr_num = 3, arr_max = 4\<rparr>"
  have inv: "arr_inv ?a" by (auto simp: arr_inv_def cap_ok_def intro!: exI [of _ 2])
  with array_remove_excises [OF inv, of 0] show ?thesis
    by (auto simp: array_get_def)
qed

text \<open>C24: a request for more than \<open>2^31\<close> elements never returns: \<open>newmax*2\<close> wraps to 0 and the
  doubling loop of \<^verbatim>\<open>array_setsize\<close> starts over.\<close>

theorem array_setsize_diverges:
  assumes "arr_inv a" "2 ^ 31 < n"
  shows "array_setsize mem a n = None"
proof -
  have "arr_max a = 0 \<or> (\<exists>k<32. arr_max a = 2 ^ k)"
    using assms(1) by (auto simp: arr_inv_def cap_ok_def intro: exI)
  with grow_result [of n "arr_max a"] assms(2) have "grow n (arr_max a) = None"
    by (cases "grow n (arr_max a)") auto
  moreover have "arr_max a < n"
    using assms cap_ok_le [of "arr_max a"] by (simp add: arr_inv_def)
  ultimately show ?thesis by (simp add: array_setsize_def)
qed

theorem array_setsize_diverges_witness:
  "arr_inv (array_init :: nat array) \<and> array_setsize None (array_init :: nat array) (2 ^ 31 + 1) = None"
  using array_setsize_diverges [OF arr_inv_init(1), of "2 ^ 31 + 1" "None :: (nat \<Rightarrow> nat) option"]
    arr_inv_init(1) by simp

end
