(* ===== verification/Thread_List.thy ===== *)
theory Thread_List
  imports Kern_Prelude
begin

text \<open>
  \<^verbatim>\<open>kern/thread/threadlist.c\<close> and \<^verbatim>\<open>kern/include/threadlist.h\<close>: the doubly linked list of threads
  with two bookend nodes.  The memory is one function per field; the nodes are the bookends of list \<open>l\<close>
  (\<open>Head l\<close>, \<open>Tail l\<close>) and the node embedded in thread \<open>t\<close> (\<open>TNode t\<close>).  A null pointer is \<open>None\<close>, and
  following it makes an operation \<open>None\<close>.  \<^verbatim>\<open>DEBUGASSERT\<close> is compiled to nothing (\<^verbatim>\<open>lib.h\<close>).
\<close>

section \<open>Definitions\<close>

datatype node = Head nat | Tail nat | TNode nat

record tlmem =
  tln_prev :: "node \<Rightarrow> node option"
  tln_next :: "node \<Rightarrow> node option"
  tln_self :: "node \<Rightarrow> nat option"
  tl_count :: "nat \<Rightarrow> nat"

abbreviation set_prev :: "node \<Rightarrow> node option \<Rightarrow> tlmem \<Rightarrow> tlmem" where
  "set_prev n p m \<equiv> m\<lparr>tln_prev := (tln_prev m)(n := p)\<rparr>"

abbreviation set_next :: "node \<Rightarrow> node option \<Rightarrow> tlmem \<Rightarrow> tlmem" where
  "set_next n p m \<equiv> m\<lparr>tln_next := (tln_next m)(n := p)\<rparr>"

abbreviation set_self :: "node \<Rightarrow> nat option \<Rightarrow> tlmem \<Rightarrow> tlmem" where
  "set_self n p m \<equiv> m\<lparr>tln_self := (tln_self m)(n := p)\<rparr>"

abbreviation set_count :: "nat \<Rightarrow> nat \<Rightarrow> tlmem \<Rightarrow> tlmem" where
  "set_count l c m \<equiv> m\<lparr>tl_count := (tl_count m)(l := c)\<rparr>"

definition threadlistnode_init :: "node \<Rightarrow> nat \<Rightarrow> tlmem \<Rightarrow> tlmem" where
  "threadlistnode_init tln t m =
     set_self tln (Some t) (set_prev tln None (set_next tln None m))"

definition threadlistnode_cleanup :: "node \<Rightarrow> tlmem \<Rightarrow> tlmem option" where
  "threadlistnode_cleanup tln m = do {
     KASSERT (tln_next m tln = None);
     KASSERT (tln_prev m tln = None);
     KASSERT (tln_self m tln \<noteq> None);
     Some m
   }"

definition threadlist_init :: "nat \<Rightarrow> tlmem \<Rightarrow> tlmem" where
  "threadlist_init l m =
     set_count l 0
      (set_self (Tail l) None
        (set_self (Head l) None
          (set_prev (Tail l) (Some (Head l))
            (set_next (Tail l) None
              (set_prev (Head l) None
                (set_next (Head l) (Some (Tail l)) m))))))"

definition threadlist_isempty :: "nat \<Rightarrow> tlmem \<Rightarrow> bool" where
  "threadlist_isempty l m \<longleftrightarrow> tl_count m l = 0"

definition threadlist_cleanup :: "nat \<Rightarrow> tlmem \<Rightarrow> tlmem option" where
  "threadlist_cleanup l m = do {
     KASSERT (threadlist_isempty l m);
     KASSERT (tl_count m l = 0);
     Some m
   }"

text \<open>The internal routines, statement by statement.\<close>

definition threadlist_insertafternode :: "node \<Rightarrow> nat \<Rightarrow> tlmem \<Rightarrow> tlmem option" where
  "threadlist_insertafternode onlist t m = do {
     addee \<leftarrow> Some (TNode t);
     m \<leftarrow> Some (set_prev addee (Some onlist) m);
     m \<leftarrow> Some (set_next addee (tln_next m onlist) m);
     p \<leftarrow> tln_prev m addee;
     m \<leftarrow> Some (set_next p (Some addee) m);
     n \<leftarrow> tln_next m addee;
     Some (set_prev n (Some addee) m)
   }"

definition threadlist_insertbeforenode :: "nat \<Rightarrow> node \<Rightarrow> tlmem \<Rightarrow> tlmem option" where
  "threadlist_insertbeforenode t onlist m = do {
     addee \<leftarrow> Some (TNode t);
     m \<leftarrow> Some (set_prev addee (tln_prev m onlist) m);
     m \<leftarrow> Some (set_next addee (Some onlist) m);
     p \<leftarrow> tln_prev m addee;
     m \<leftarrow> Some (set_next p (Some addee) m);
     n \<leftarrow> tln_next m addee;
     Some (set_prev n (Some addee) m)
   }"

definition threadlist_removenode :: "node \<Rightarrow> tlmem \<Rightarrow> tlmem option" where
  "threadlist_removenode tln m = do {
     p \<leftarrow> tln_prev m tln;
     m \<leftarrow> Some (set_next p (tln_next m tln) m);
     n \<leftarrow> tln_next m tln;
     m \<leftarrow> Some (set_prev n (tln_prev m tln) m);
     m \<leftarrow> Some (set_prev tln None m);
     Some (set_next tln None m)
   }"

definition incr_count :: "nat \<Rightarrow> tlmem \<Rightarrow> tlmem" where
  "incr_count l m = set_count l (u32 (tl_count m l + 1)) m"

definition decr_count :: "nat \<Rightarrow> tlmem \<Rightarrow> tlmem" where
  "decr_count l m = set_count l (usub (tl_count m l) 1) m"

definition threadlist_addhead :: "nat \<Rightarrow> nat \<Rightarrow> tlmem \<Rightarrow> tlmem option" where
  "threadlist_addhead l t m = do {
     m \<leftarrow> threadlist_insertafternode (Head l) t m;
     Some (incr_count l m)
   }"

definition threadlist_addtail :: "nat \<Rightarrow> nat \<Rightarrow> tlmem \<Rightarrow> tlmem option" where
  "threadlist_addtail l t m = do {
     m \<leftarrow> threadlist_insertbeforenode t (Tail l) m;
     Some (incr_count l m)
   }"

definition threadlist_remhead :: "nat \<Rightarrow> tlmem \<Rightarrow> (nat option \<times> tlmem) option" where
  "threadlist_remhead l m = do {
     tln \<leftarrow> tln_next m (Head l);
     if tln_next m tln = None then Some (None, m)
     else do {
       m \<leftarrow> threadlist_removenode tln m;
       m \<leftarrow> Some (decr_count l m);
       Some (tln_self m tln, m)
     }
   }"

definition threadlist_remtail :: "nat \<Rightarrow> tlmem \<Rightarrow> (nat option \<times> tlmem) option" where
  "threadlist_remtail l m = do {
     tln \<leftarrow> tln_prev m (Tail l);
     if tln_prev m tln = None then Some (None, m)
     else do {
       m \<leftarrow> threadlist_removenode tln m;
       m \<leftarrow> Some (decr_count l m);
       Some (tln_self m tln, m)
     }
   }"

definition threadlist_insertafter :: "nat \<Rightarrow> nat \<Rightarrow> nat \<Rightarrow> tlmem \<Rightarrow> tlmem option" where
  "threadlist_insertafter l onlist addee m = do {
     m \<leftarrow> threadlist_insertafternode (TNode onlist) addee m;
     Some (incr_count l m)
   }"

definition threadlist_insertbefore :: "nat \<Rightarrow> nat \<Rightarrow> nat \<Rightarrow> tlmem \<Rightarrow> tlmem option" where
  "threadlist_insertbefore l addee onlist m = do {
     m \<leftarrow> threadlist_insertbeforenode addee (TNode onlist) m;
     Some (incr_count l m)
   }"

definition threadlist_remove :: "nat \<Rightarrow> nat \<Rightarrow> tlmem \<Rightarrow> tlmem option" where
  "threadlist_remove l t m = do {
     m \<leftarrow> threadlist_removenode (TNode t) m;
     Some (decr_count l m)
   }"

text \<open>The iteration of \<^verbatim>\<open>THREADLIST_FORALL\<close>: the threads visited so far, and the loop variable, whose
  own node is read before every round.\<close>

partial_function (option) forall_from :: "tlmem \<Rightarrow> nat list \<Rightarrow> nat option \<Rightarrow> nat list option" where
  "forall_from m acc itervar =
     (case itervar of
        None \<Rightarrow> None
      | Some t \<Rightarrow> (case tln_next m (TNode t) of
            None \<Rightarrow> Some acc
          | Some n \<Rightarrow> forall_from m (acc @ [t]) (tln_self m n)))"

definition THREADLIST_FORALL :: "nat \<Rightarrow> tlmem \<Rightarrow> nat list option" where
  "THREADLIST_FORALL l m = do {
     n \<leftarrow> tln_next m (Head l);
     forall_from m [] (tln_self m n)
   }"

section \<open>The sequence a list stands for\<close>

fun chain :: "tlmem \<Rightarrow> node list \<Rightarrow> bool" where
  "chain m (x # y # zs) \<longleftrightarrow> tln_next m x = Some y \<and> tln_prev m y = Some x \<and> chain m (y # zs)"
| "chain m _ \<longleftrightarrow> True"

abbreviation nodes :: "nat \<Rightarrow> nat list \<Rightarrow> node list" where
  "nodes l ts \<equiv> Head l # map TNode ts @ [Tail l]"

definition tl_rep :: "tlmem \<Rightarrow> nat \<Rightarrow> nat list \<Rightarrow> bool" where
  "tl_rep m l ts \<longleftrightarrow> chain m (nodes l ts) \<and> distinct ts \<and> tl_count m l = length ts \<and>
     length ts < 2 ^ 32 \<and> tln_prev m (Head l) = None \<and> tln_next m (Tail l) = None \<and>
     tln_self m (Head l) = None \<and> tln_self m (Tail l) = None \<and>
     (\<forall>t\<in>set ts. tln_self m (TNode t) = Some t)"

text \<open>A thread that is on no list: its node is as \<^verbatim>\<open>threadlistnode_init\<close> leaves it.\<close>

definition tl_off :: "tlmem \<Rightarrow> nat \<Rightarrow> bool" where
  "tl_off m t \<longleftrightarrow> tln_prev m (TNode t) = None \<and> tln_next m (TNode t) = None \<and>
     tln_self m (TNode t) = Some t"

lemma chain_app: "chain m (xs @ a # ys) \<longleftrightarrow> chain m (xs @ [a]) \<and> chain m (a # ys)"
proof (induction xs)
  case (Cons x xs)
  then show ?case by (cases xs) auto
qed simp

lemma chain_mid:
  "chain m (xs @ a # b # ys) \<longleftrightarrow>
   chain m (xs @ [a]) \<and> tln_next m a = Some b \<and> tln_prev m b = Some a \<and> chain m (b # ys)"
  by (subst chain_app) simp

lemma chain_cong:
  assumes "\<And>x. x \<in> set (butlast xs) \<Longrightarrow> tln_next m' x = tln_next m x"
    and "\<And>x. x \<in> set (tl xs) \<Longrightarrow> tln_prev m' x = tln_prev m x"
  shows "chain m' xs = chain m xs"
  using assms by (induction m xs rule: chain.induct) (auto split: if_splits)

section \<open>Splicing a node in and out\<close>

definition splice :: "node \<Rightarrow> node \<Rightarrow> node \<Rightarrow> tlmem \<Rightarrow> tlmem" where
  "splice a n b m = set_prev b (Some n) (set_next a (Some n) (set_next n (Some b) (set_prev n (Some a) m)))"

definition unsplice :: "node \<Rightarrow> node \<Rightarrow> node \<Rightarrow> tlmem \<Rightarrow> tlmem" where
  "unsplice a n b m = set_next n None (set_prev n None (set_prev b (Some a) (set_next a (Some b) m)))"

lemma splice_fields [simp]:
  "tln_self (splice a n b m) = tln_self m" "tl_count (splice a n b m) = tl_count m"
  "tln_self (unsplice a n b m) = tln_self m" "tl_count (unsplice a n b m) = tl_count m"
  "tln_next (splice a n b m) = (tln_next m)(n := Some b, a := Some n)"
  "tln_prev (splice a n b m) = (tln_prev m)(n := Some a, b := Some n)"
  "tln_next (unsplice a n b m) = (tln_next m)(a := Some b, n := None)"
  "tln_prev (unsplice a n b m) = (tln_prev m)(b := Some a, n := None)"
  by (simp_all add: splice_def unsplice_def)

lemma insertafternode_splice:
  "tln_next m a = Some b \<Longrightarrow> a \<noteq> TNode t \<Longrightarrow>
   threadlist_insertafternode a t m = Some (splice a (TNode t) b m)"
  by (simp add: threadlist_insertafternode_def splice_def fun_upd_twist)

lemma insertbeforenode_splice:
  "tln_prev m b = Some a \<Longrightarrow> a \<noteq> TNode t \<Longrightarrow> b \<noteq> TNode t \<Longrightarrow>
   threadlist_insertbeforenode t b m = Some (splice a (TNode t) b m)"
  by (simp add: threadlist_insertbeforenode_def splice_def fun_upd_twist)

lemma removenode_unsplice:
  "tln_prev m n = Some a \<Longrightarrow> tln_next m n = Some b \<Longrightarrow> a \<noteq> n \<Longrightarrow> b \<noteq> n \<Longrightarrow>
   threadlist_removenode n m = Some (unsplice a n b m)"
  by (simp add: threadlist_removenode_def unsplice_def)

lemma in_set_tl_snoc: "x \<in> set (tl (xs @ [a])) \<Longrightarrow> x \<in> set xs \<or> x = a"
  by (cases xs) auto

lemma chain_splice:
  assumes "chain m (xs @ a # b # ys)" "distinct (xs @ a # b # ys)" "n \<notin> set (xs @ a # b # ys)"
  shows "chain (splice a n b m) (xs @ a # n # b # ys)"
proof -
  have "chain (splice a n b m) (xs @ [a]) = chain m (xs @ [a])"
    using assms by (intro chain_cong) (auto dest!: in_set_tl_snoc)
  moreover have "chain (splice a n b m) (b # ys) = chain m (b # ys)"
    using assms by (intro chain_cong) (auto dest: in_set_butlastD split: if_splits)
  moreover have "chain m (xs @ [a])" "chain m (b # ys)"
    using assms(1) by (simp_all add: chain_mid)
  ultimately show ?thesis using assms(2,3) by (auto simp: chain_mid)
qed

lemma chain_unsplice:
  assumes "chain m (xs @ a # n # b # ys)" "distinct (xs @ a # n # b # ys)"
  shows "chain (unsplice a n b m) (xs @ a # b # ys)"
proof -
  have "chain (unsplice a n b m) (xs @ [a]) = chain m (xs @ [a])"
    using assms by (intro chain_cong) (auto dest!: in_set_tl_snoc)
  moreover have "chain (unsplice a n b m) (b # ys) = chain m (b # ys)"
    using assms by (intro chain_cong) (auto dest: in_set_butlastD split: if_splits)
  moreover have "chain m (xs @ [a])" "chain m (b # ys)"
    using assms(1) by (simp_all add: chain_mid)
  ultimately show ?thesis using assms(2) by (auto simp: chain_mid)
qed

text \<open>The neighbours of a position in a represented list.\<close>

lemma nodes_split: "nodes l (us @ vs) = (Head l # map TNode us) @ map TNode vs @ [Tail l]"
  by simp

definition left_of :: "nat \<Rightarrow> nat list \<Rightarrow> node" where
  "left_of l us = (if us = [] then Head l else TNode (last us))"

definition right_of :: "nat \<Rightarrow> nat list \<Rightarrow> node" where
  "right_of l vs = (if vs = [] then Tail l else TNode (hd vs))"

lemma nodes_gap:
  "\<exists>xs ys. nodes l (us @ vs) = xs @ left_of l us # right_of l vs # ys \<and>
     (\<forall>ts. nodes l (us @ ts @ vs) = xs @ left_of l us # map TNode ts @ right_of l vs # ys)"
proof (intro exI conjI allI)
  let ?xs = "butlast (Head l # map TNode us)" and ?ys = "tl (map TNode vs @ [Tail l])"
  have l: "Head l # map TNode us = ?xs @ [left_of l us]"
    by (cases us rule: rev_cases) (auto simp: left_of_def butlast_append)
  have r: "map TNode vs @ [Tail l] = right_of l vs # ?ys"
    by (cases vs) (auto simp: right_of_def)
  show "nodes l (us @ vs) = ?xs @ left_of l us # right_of l vs # ?ys"
    using l r by (metis append.assoc append_Cons append_Nil nodes_split)
  show "nodes l (us @ ts @ vs) = ?xs @ left_of l us # map TNode ts @ right_of l vs # ?ys" for ts
  proof -
    have "nodes l (us @ ts @ vs) = (Head l # map TNode us) @ map TNode ts @ (map TNode vs @ [Tail l])"
      by simp
    also have "\<dots> = (?xs @ [left_of l us]) @ map TNode ts @ (right_of l vs # ?ys)"
      using l r by presburger
    finally show ?thesis by simp
  qed
qed

lemma distinct_nodes [simp]: "distinct (nodes l ts) \<longleftrightarrow> distinct ts"
  by (auto simp: distinct_map inj_on_def)

lemma TNode_in_nodes [simp]: "TNode t \<in> set (nodes l ts) \<longleftrightarrow> t \<in> set ts"
  by auto

lemma tl_rep_gap:
  assumes "tl_rep m l (us @ vs)"
  shows "tln_next m (left_of l us) = Some (right_of l vs)"
    and "tln_prev m (right_of l vs) = Some (left_of l us)"
proof -
  obtain xs ys where "nodes l (us @ vs) = xs @ left_of l us # right_of l vs # ys"
    using nodes_gap [of l us vs] by blast
  moreover have "chain m (nodes l (us @ vs))" using assms unfolding tl_rep_def by blast
  ultimately have "chain m (xs @ left_of l us # right_of l vs # ys)" by (simp only:)
  then show "tln_next m (left_of l us) = Some (right_of l vs)"
    and "tln_prev m (right_of l vs) = Some (left_of l us)"
    by (simp_all add: chain_mid)
qed

lemma tl_rep_splice:
  assumes "tl_rep m l (us @ vs)" "t \<notin> set (us @ vs)" "tln_self m (TNode t) = Some t"
    "length (us @ vs) + 1 < 2 ^ 32"
  shows "tl_rep (incr_count l (splice (left_of l us) (TNode t) (right_of l vs) m)) l (us @ t # vs)"
proof -
  let ?m = "splice (left_of l us) (TNode t) (right_of l vs) m"
  obtain xs ys where n1: "nodes l (us @ vs) = xs @ left_of l us # right_of l vs # ys"
    and n2s: "\<forall>ts. nodes l (us @ ts @ vs) = xs @ left_of l us # map TNode ts @ right_of l vs # ys"
    using nodes_gap [of l us vs] by blast
  from n2s have n2: "nodes l (us @ [t] @ vs) = xs @ left_of l us # TNode t # right_of l vs # ys"
    by (metis append_Cons append_Nil list.simps(8,9))
  have c: "chain m (nodes l (us @ vs))" and "distinct (us @ vs)"
    using assms(1) unfolding tl_rep_def by blast+
  then have d: "distinct (nodes l (us @ vs))" by (simp only: distinct_nodes)
  have f: "TNode t \<notin> set (nodes l (us @ vs))" using assms(2) by (simp only: TNode_in_nodes not_False_eq_True)
  have "chain ?m (nodes l (us @ [t] @ vs))"
    unfolding n2
  proof (rule chain_splice)
    show "chain m (xs @ left_of l us # right_of l vs # ys)" using c unfolding n1 .
    show "distinct (xs @ left_of l us # right_of l vs # ys)" using d unfolding n1 .
    show "TNode t \<notin> set (xs @ left_of l us # right_of l vs # ys)" using f unfolding n1 .
  qed
  moreover have "chain (incr_count l ?m) zs = chain ?m zs" for zs
    by (rule chain_cong) (simp_all add: incr_count_def)
  ultimately show ?thesis
    using assms by (auto simp: tl_rep_def incr_count_def left_of_def right_of_def)
qed

lemma tl_rep_unsplice:
  assumes "tl_rep m l (us @ t # vs)"
  shows "tl_rep (decr_count l (unsplice (left_of l us) (TNode t) (right_of l vs) m)) l (us @ vs)"
proof -
  let ?m = "unsplice (left_of l us) (TNode t) (right_of l vs) m"
  obtain xs ys where n1: "nodes l (us @ vs) = xs @ left_of l us # right_of l vs # ys"
    and n2s: "\<forall>ts. nodes l (us @ ts @ vs) = xs @ left_of l us # map TNode ts @ right_of l vs # ys"
    using nodes_gap [of l us vs] by blast
  from n2s have n2: "nodes l (us @ [t] @ vs) = xs @ left_of l us # TNode t # right_of l vs # ys"
    by (metis append_Cons append_Nil list.simps(8,9))
  have c: "chain m (nodes l (us @ [t] @ vs))" and "distinct (us @ [t] @ vs)"
    using assms unfolding tl_rep_def by simp_all
  then have d: "distinct (nodes l (us @ [t] @ vs))" by (simp only: distinct_nodes)
  have "chain ?m (nodes l (us @ vs))"
    unfolding n1
  proof (rule chain_unsplice)
    show "chain m (xs @ left_of l us # TNode t # right_of l vs # ys)" using c unfolding n2 .
    show "distinct (xs @ left_of l us # TNode t # right_of l vs # ys)" using d unfolding n2 .
  qed
  moreover have "chain (decr_count l ?m) zs = chain ?m zs" for zs
    by (rule chain_cong) (simp_all add: decr_count_def)
  ultimately show ?thesis
    using assms by (auto simp: tl_rep_def decr_count_def left_of_def right_of_def)
qed

section \<open>Two lists of one memory\<close>

lemma tl_off_notin: "tl_rep m l ts \<Longrightarrow> tl_off m t \<Longrightarrow> t \<notin> set ts"
proof
  assume a: "tl_rep m l ts" "tl_off m t" "t \<in> set ts"
  then obtain us vs where "ts = us @ t # vs" by (meson split_list)
  with a(1) have "tln_prev m (TNode t) = Some (left_of l us)"
    using tl_rep_gap(2) [of m l us "t # vs"] by (simp add: right_of_def)
  with a(2) show False by (simp add: tl_off_def)
qed

lemma tl_rep_prev: "tl_rep m l (us @ t # vs) \<Longrightarrow> tln_prev m (TNode t) = Some (left_of l us)"
  using tl_rep_gap(2) [of m l us "t # vs"] by (simp add: right_of_def)

lemma tl_rep_next: "tl_rep m l (us @ t # vs) \<Longrightarrow> tln_next m (TNode t) = Some (right_of l vs)"
  using tl_rep_gap(1) [of m l "us @ [t]" vs] by (simp add: left_of_def)

text \<open>Following the backward links from a shared thread leads to one head only.\<close>

lemma tl_rep_same_list:
  "tl_rep m l (us @ t # vs) \<Longrightarrow> tl_rep m l' (us' @ t # vs') \<Longrightarrow> l = l'"
proof (induction us arbitrary: t vs us' vs' rule: rev_induct)
  case Nil
  then have "left_of l [] = left_of l' us'" using tl_rep_prev [of m l "[]"] tl_rep_prev by fastforce
  then show ?case by (auto simp: left_of_def split: if_splits)
next
  case (snoc x xs)
  have "left_of l (xs @ [x]) = left_of l' us'" using snoc.prems [THEN tl_rep_prev] by simp
  then obtain ys where "us' = ys @ [x]"
    by (cases us' rule: rev_cases) (auto simp: left_of_def)
  with snoc show ?case by (metis append.assoc append_Cons append_Nil)
qed

lemma tl_rep_disjoint:
  assumes "tl_rep m l ts" "tl_rep m l' us" "l \<noteq> l'"
  shows "set ts \<inter> set us = {}"
proof (rule ccontr)
  assume "set ts \<inter> set us \<noteq> {}"
  then obtain t where "t \<in> set ts" "t \<in> set us" by blast
  then obtain xs ys xs' ys' where "ts = xs @ t # ys" "us = xs' @ t # ys'" by (meson split_list)
  with assms show False using tl_rep_same_list by blast
qed

definition tl_frame :: "nat \<Rightarrow> nat set \<Rightarrow> tlmem \<Rightarrow> tlmem \<Rightarrow> bool" where
  "tl_frame l S m m' \<longleftrightarrow> tln_self m' = tln_self m \<and> (\<forall>l'. l' \<noteq> l \<longrightarrow> tl_count m' l' = tl_count m l') \<and>
     (\<forall>n. n \<noteq> Head l \<and> n \<noteq> Tail l \<and> n \<notin> TNode ` S \<longrightarrow>
        tln_prev m' n = tln_prev m n \<and> tln_next m' n = tln_next m n)"

lemma tl_frame_rep:
  assumes "tl_frame l S m m'" "tl_rep m l' us" "l' \<noteq> l" "set us \<inter> S = {}"
  shows "tl_rep m' l' us"
proof -
  have keep: "n \<in> set (nodes l' us) \<Longrightarrow> tln_prev m' n = tln_prev m n \<and> tln_next m' n = tln_next m n" for n
    using assms by (auto simp: tl_frame_def)
  have "chain m' (nodes l' us) = chain m (nodes l' us)"
    by (rule chain_cong) (meson keep in_set_butlastD list.set_sel(2) list.simps(3))+
  then show ?thesis using assms keep by (auto simp: tl_rep_def tl_frame_def)
qed

lemma tl_frame_off: "tl_frame l S m m' \<Longrightarrow> t \<notin> S \<Longrightarrow> tl_off m t \<Longrightarrow> tl_off m' t"
  by (auto simp: tl_frame_def tl_off_def)

lemma gap_ends:
  "left_of l us = Head l \<or> left_of l us \<in> TNode ` set us"
  "right_of l vs = Tail l \<or> right_of l vs \<in> TNode ` set vs"
  by (auto simp: left_of_def right_of_def)

lemma tl_frame_splice:
  "set us \<union> set vs \<union> {t} \<subseteq> S \<Longrightarrow>
   tl_frame l S m (incr_count l (splice (left_of l us) (TNode t) (right_of l vs) m))"
  using gap_ends(1) [of l us] gap_ends(2) [of l vs] by (auto simp: tl_frame_def incr_count_def)

lemma tl_frame_unsplice:
  "set us \<union> set vs \<union> {t} \<subseteq> S \<Longrightarrow>
   tl_frame l S m (decr_count l (unsplice (left_of l us) (TNode t) (right_of l vs) m))"
  using gap_ends(1) [of l us] gap_ends(2) [of l vs] by (auto simp: tl_frame_def decr_count_def)

text \<open>What an operation does to the rest of the memory: the other lists and the threads on no list stay.\<close>

definition tl_others :: "nat \<Rightarrow> nat \<Rightarrow> tlmem \<Rightarrow> tlmem \<Rightarrow> bool" where
  "tl_others l t m m' \<longleftrightarrow> (\<forall>l' us. l' \<noteq> l \<longrightarrow> tl_rep m l' us \<longrightarrow> tl_rep m' l' us) \<and>
     (\<forall>u. u \<noteq> t \<longrightarrow> tl_off m u \<longrightarrow> tl_off m' u)"

section \<open>The operations on the represented sequence\<close>

lemma tl_insert:
  assumes "tl_rep m l (us @ vs)" "tl_off m t" "length (us @ vs) + 1 < 2 ^ 32"
  defines "m' \<equiv> incr_count l (splice (left_of l us) (TNode t) (right_of l vs) m)"
  shows "tl_rep m' l (us @ t # vs)" "tl_others l t m m'"
    "do { m \<leftarrow> threadlist_insertafternode (left_of l us) t m; Some (incr_count l m) } = Some m'"
    "do { m \<leftarrow> threadlist_insertbeforenode t (right_of l vs) m; Some (incr_count l m) } = Some m'"
proof -
  have t: "t \<notin> set (us @ vs)" "tln_self m (TNode t) = Some t"
    using tl_off_notin [OF assms(1,2)] assms(2) by (simp_all add: tl_off_def)
  show "tl_rep m' l (us @ t # vs)"
    unfolding m'_def by (rule tl_rep_splice) (use assms t in simp_all)
  have fr: "tl_frame l (set us \<union> set vs \<union> {t}) m m'"
    unfolding m'_def by (rule tl_frame_splice) simp
  show "tl_others l t m m'"
    unfolding tl_others_def
  proof (intro conjI allI impI)
    fix l' ws assume l': "l' \<noteq> l" "tl_rep m l' ws"
    have "set ws \<inter> (set us \<union> set vs \<union> {t}) = {}"
      using tl_rep_disjoint [OF assms(1) l'(2)] l' tl_off_notin [OF l'(2) assms(2)] by auto
    then show "tl_rep m' l' ws" using tl_frame_rep fr l' by blast
  next
    fix u assume u: "u \<noteq> t" "tl_off m u"
    then have "u \<notin> set us \<union> set vs \<union> {t}" using tl_off_notin [OF assms(1) u(2)] by simp
    then show "tl_off m' u" using tl_frame_off fr u by blast
  qed
  have "left_of l us \<noteq> TNode t" "right_of l vs \<noteq> TNode t"
    using t(1) by (auto simp: left_of_def right_of_def last_in_set)
  then show "do { m \<leftarrow> threadlist_insertafternode (left_of l us) t m; Some (incr_count l m) } = Some m'"
    "do { m \<leftarrow> threadlist_insertbeforenode t (right_of l vs) m; Some (incr_count l m) } = Some m'"
    using tl_rep_gap [OF assms(1)]
    by (simp_all add: insertafternode_splice insertbeforenode_splice m'_def)
qed

lemma tl_delete:
  assumes "tl_rep m l (us @ t # vs)"
  defines "m' \<equiv> decr_count l (unsplice (left_of l us) (TNode t) (right_of l vs) m)"
  shows "tl_rep m' l (us @ vs)" "tl_off m' t" "tl_others l t m m'"
    "do { m \<leftarrow> threadlist_removenode (TNode t) m; Some (decr_count l m) } = Some m'"
proof -
  show "tl_rep m' l (us @ vs)" unfolding m'_def by (rule tl_rep_unsplice [OF assms(1)])
  have t: "t \<notin> set (us @ vs)" "tln_self m (TNode t) = Some t"
    using assms(1) by (auto simp: tl_rep_def)
  then have ne: "left_of l us \<noteq> TNode t" "right_of l vs \<noteq> TNode t"
    by (auto simp: left_of_def right_of_def)
  then show "tl_off m' t" using t by (simp add: tl_off_def m'_def decr_count_def)
  have fr: "tl_frame l (set us \<union> set vs \<union> {t}) m m'"
    unfolding m'_def by (rule tl_frame_unsplice) simp
  show "tl_others l t m m'"
    unfolding tl_others_def
  proof (intro conjI allI impI)
    fix l' ws assume l': "l' \<noteq> l" "tl_rep m l' ws"
    have "set ws \<inter> (set us \<union> set vs \<union> {t}) = {}"
      using tl_rep_disjoint [OF assms(1) l'(2)] l' by auto
    then show "tl_rep m' l' ws" using tl_frame_rep fr l' by blast
  next
    fix u assume u: "u \<noteq> t" "tl_off m u"
    then have "u \<notin> set us \<union> set vs \<union> {t}" using tl_off_notin [OF assms(1) u(2)] by simp
    then show "tl_off m' u" using tl_frame_off fr u by blast
  qed
  show "do { m \<leftarrow> threadlist_removenode (TNode t) m; Some (decr_count l m) } = Some m'"
    using tl_rep_prev [OF assms(1)] tl_rep_next [OF assms(1)] ne
    by (simp add: removenode_unsplice m'_def)
qed

lemma addtail_ok:
  assumes "tl_rep m l ts" "tl_off m t" "length ts + 1 < 2 ^ 32"
  shows "\<exists>m'. threadlist_addtail l t m = Some m' \<and> tl_rep m' l (ts @ [t]) \<and> tl_others l t m m'"
  using tl_insert [of m l ts "[]" t] assms by (simp add: threadlist_addtail_def right_of_def)

lemma addhead_ok:
  assumes "tl_rep m l ts" "tl_off m t" "length ts + 1 < 2 ^ 32"
  shows "\<exists>m'. threadlist_addhead l t m = Some m' \<and> tl_rep m' l (t # ts) \<and> tl_others l t m m'"
  using tl_insert [of m l "[]" ts t] assms by (simp add: threadlist_addhead_def left_of_def)

lemma remhead_ok:
  assumes "tl_rep m l (t # ts)"
  shows "\<exists>m'. threadlist_remhead l m = Some (Some t, m') \<and> tl_rep m' l ts \<and> tl_off m' t \<and>
           tl_others l t m m'"
proof -
  have "tln_next m (Head l) = Some (TNode t)"
    using tl_rep_gap(1) [of m l "[]" "t # ts"] assms by (simp add: left_of_def right_of_def)
  moreover have "tln_next m (TNode t) \<noteq> None" using tl_rep_next [of m l "[]"] assms by simp
  ultimately show ?thesis
    using tl_delete [of m l "[]" t ts] assms
    by (auto simp: threadlist_remhead_def tl_off_def split: bind_splits)
qed

lemma remtail_ok:
  assumes "tl_rep m l (ts @ [t])"
  shows "\<exists>m'. threadlist_remtail l m = Some (Some t, m') \<and> tl_rep m' l ts \<and> tl_off m' t \<and>
           tl_others l t m m'"
proof -
  have "tln_prev m (Tail l) = Some (TNode t)"
    using tl_rep_gap(2) [of m l "ts @ [t]" "[]"] assms by (simp add: left_of_def right_of_def)
  moreover have "tln_prev m (TNode t) \<noteq> None" using tl_rep_prev [of m l ts] assms by simp
  ultimately show ?thesis
    using tl_delete [of m l ts t "[]"] assms
    by (auto simp: threadlist_remtail_def tl_off_def split: bind_splits)
qed

lemma rem_empty:
  assumes "tl_rep m l []"
  shows "threadlist_remhead l m = Some (None, m)" "threadlist_remtail l m = Some (None, m)"
  using assms by (simp_all add: threadlist_remhead_def threadlist_remtail_def tl_rep_def)

section \<open>The queue interface\<close>

text \<open>The loop of \<^verbatim>\<open>wchan_wakeall\<close> and of every other client that empties one list into another.\<close>

partial_function (option) move_all ::
  "(nat \<Rightarrow> 'm \<Rightarrow> (nat option \<times> 'm) option) \<Rightarrow> (nat \<Rightarrow> nat \<Rightarrow> 'm \<Rightarrow> 'm option) \<Rightarrow> nat \<Rightarrow> nat \<Rightarrow> 'm \<Rightarrow> 'm option"
where
  "move_all remhead addtail src dst m =
     Option.bind (remhead src m) (\<lambda>(target, m).
       case target of
         None \<Rightarrow> Some m
       | Some t \<Rightarrow> Option.bind (addtail dst t m) (move_all remhead addtail src dst))"

locale thread_queue =
  fixes rep :: "'m \<Rightarrow> nat \<Rightarrow> nat list \<Rightarrow> bool"
    and off :: "'m \<Rightarrow> nat \<Rightarrow> bool"
    and others :: "nat \<Rightarrow> nat \<Rightarrow> 'm \<Rightarrow> 'm \<Rightarrow> bool"
    and addtail :: "nat \<Rightarrow> nat \<Rightarrow> 'm \<Rightarrow> 'm option"
    and remhead :: "nat \<Rightarrow> 'm \<Rightarrow> (nat option \<times> 'm) option"
  assumes others_rep: "others l t m m' \<Longrightarrow> rep m l' us \<Longrightarrow> l' \<noteq> l \<Longrightarrow> rep m' l' us"
    and others_off: "others l t m m' \<Longrightarrow> off m u \<Longrightarrow> u \<noteq> t \<Longrightarrow> off m' u"
    and apart: "rep m l ts \<Longrightarrow> off m t \<Longrightarrow> t \<notin> set ts"
    and addtail_law: "rep m l ts \<Longrightarrow> off m t \<Longrightarrow> length ts + 1 < 2 ^ 32 \<Longrightarrow>
      \<exists>m'. addtail l t m = Some m' \<and> rep m' l (ts @ [t]) \<and> others l t m m'"
    and remhead_law: "rep m l (t # ts) \<Longrightarrow>
      \<exists>m'. remhead l m = Some (Some t, m') \<and> rep m' l ts \<and> off m' t \<and> others l t m m'"
    and remhead_empty: "rep m l [] \<Longrightarrow> remhead l m = Some (None, m)"
begin

lemma move_all_ok:
  "rep m src ts \<Longrightarrow> rep m dst us \<Longrightarrow> src \<noteq> dst \<Longrightarrow> length us + length ts < 2 ^ 32 \<Longrightarrow>
   \<exists>m'. move_all remhead addtail src dst m = Some m' \<and> rep m' src [] \<and> rep m' dst (us @ ts) \<and>
     (\<forall>l ws. l \<noteq> src \<longrightarrow> l \<noteq> dst \<longrightarrow> rep m l ws \<longrightarrow> rep m' l ws) \<and> (\<forall>u. off m u \<longrightarrow> off m' u)"
proof (induction ts arbitrary: m us)
  case Nil
  then show ?case by (subst move_all.simps) (simp add: remhead_empty)
next
  case (Cons t ts)
  obtain m1 where m1: "remhead src m = Some (Some t, m1)" "rep m1 src ts" "off m1 t" "others src t m m1"
    using remhead_law Cons.prems(1) by blast
  have d1: "rep m1 dst us" using others_rep m1(4) Cons.prems(2,3) by metis
  obtain m2 where m2: "addtail dst t m1 = Some m2" "rep m2 dst (us @ [t])" "others dst t m1 m2"
    using addtail_law [OF d1 m1(3)] Cons.prems(4) by auto
  have s2: "rep m2 src ts" using others_rep m2(3) m1(2) Cons.prems(3) by metis
  obtain m' where m': "move_all remhead addtail src dst m2 = Some m'" "rep m' src []"
    "rep m' dst ((us @ [t]) @ ts)"
    "\<forall>l ws. l \<noteq> src \<longrightarrow> l \<noteq> dst \<longrightarrow> rep m2 l ws \<longrightarrow> rep m' l ws" "\<forall>u. off m2 u \<longrightarrow> off m' u"
    using Cons.IH [OF s2 m2(2) Cons.prems(3)] Cons.prems(4) by auto
  have "off m u \<Longrightarrow> u \<noteq> t" for u using apart [OF Cons.prems(1)] by auto
  then have "off m u \<Longrightarrow> off m' u" for u using m'(5) others_off m1(4) m2(3) by metis
  moreover have "l \<noteq> src \<Longrightarrow> l \<noteq> dst \<Longrightarrow> rep m l ws \<Longrightarrow> rep m' l ws" for l ws
    using m'(4) others_rep m1(4) m2(3) by metis
  moreover have "move_all remhead addtail src dst m = Some m'"
    by (subst move_all.simps) (simp add: m1(1) m2(1) m'(1))
  ultimately show ?case using m' by auto
qed

end

interpretation tq: thread_queue tl_rep tl_off tl_others threadlist_addtail threadlist_remhead
proof unfold_locales
  show "tl_others l t m m' \<Longrightarrow> tl_rep m l' us \<Longrightarrow> l' \<noteq> l \<Longrightarrow> tl_rep m' l' us" for l t m m' l' us
    by (simp add: tl_others_def)
  show "tl_others l t m m' \<Longrightarrow> tl_off m u \<Longrightarrow> u \<noteq> t \<Longrightarrow> tl_off m' u" for l t m m' u
    by (simp add: tl_others_def)
qed (fact tl_off_notin addtail_ok remhead_ok rem_empty(1))+

lemma forall_from_tail:
  "tl_rep m l (us @ t # vs) \<Longrightarrow> forall_from m acc (Some t) = None"
proof (induction vs arbitrary: us t acc)
  case Nil
  then have "tln_next m (TNode t) = Some (Tail l)" "tln_self m (Tail l) = None"
    using tl_rep_next [of m l us t "[]"] by (simp_all add: right_of_def tl_rep_def)
  then show ?case by (simp add: forall_from.simps)
next
  case (Cons x vs)
  then have "tln_next m (TNode t) = Some (TNode x)" "tln_self m (TNode x) = Some x"
    using tl_rep_next [of m l us t "x # vs"] by (simp_all add: right_of_def tl_rep_def)
  then show ?case using Cons.IH [of "us @ [t]" x] Cons.prems by (simp add: forall_from.simps [of m acc])
qed

text \<open>A memory of fresh threads and lists, and one holding the list 7, 8, for the concrete runs below.\<close>

definition fresh_mem :: tlmem where
  "fresh_mem = threadlist_init 0 (threadlist_init 1
     \<lparr>tln_prev = (\<lambda>_. None), tln_next = (\<lambda>_. None),
      tln_self = (\<lambda>n. case n of TNode t \<Rightarrow> Some t | _ \<Rightarrow> None), tl_count = (\<lambda>_. 0)\<rparr>)"

definition mem_7_8 :: tlmem where
  "mem_7_8 = the (threadlist_addtail 0 8 (the (threadlist_addtail 0 7 fresh_mem)))"

lemmas list_ops = threadlist_addtail_def threadlist_insertbeforenode_def incr_count_def u32_def

lemma fresh_mem_rep: "tl_rep fresh_mem 0 []" "tl_off fresh_mem 5" "tl_off fresh_mem 7"
  by (simp_all add: fresh_mem_def tl_rep_def tl_off_def threadlist_init_def)

lemma mem_7_8_rep: "tl_rep mem_7_8 0 [7, 8]" "tl_off mem_7_8 5" "tl_rep mem_7_8 1 []"
  by (simp_all add: mem_7_8_def fresh_mem_def threadlist_init_def list_ops tl_rep_def tl_off_def)

section \<open>Properties\<close>

text \<open>C21: \<^verbatim>\<open>threadlist_addhead\<close> and \<^verbatim>\<open>threadlist_addtail\<close> never fault on a thread that is on no list; they put
  it first (last) in the sequence the list stands for, count it, and leave every other list and every other
  unlisted thread as they were.\<close>

theorem threadlist_add_correct:
  assumes "tl_rep m l ts" "tl_off m t" "length ts + 1 < 2 ^ 32"
  shows "(\<exists>m'. threadlist_addhead l t m = Some m' \<and> tl_rep m' l (t # ts) \<and> tl_others l t m m') \<and>
    (\<exists>m'. threadlist_addtail l t m = Some m' \<and> tl_rep m' l (ts @ [t]) \<and> tl_others l t m m')"
  using addhead_ok [OF assms] addtail_ok [OF assms] by simp

theorem threadlist_add_correct_witness:
  "(\<exists>m'. threadlist_addhead 0 5 mem_7_8 = Some m' \<and> tl_rep m' 0 [5, 7, 8] \<and> tl_rep m' 1 []) \<and>
   (\<exists>m'. threadlist_addtail 0 5 mem_7_8 = Some m' \<and> tl_rep m' 0 [7, 8, 5] \<and> tl_rep m' 1 [])"
  using threadlist_add_correct [OF mem_7_8_rep(1,2)] mem_7_8_rep(3)
  by (fastforce simp: tl_others_def)

text \<open>C22: \<^verbatim>\<open>threadlist_remhead\<close> and \<^verbatim>\<open>threadlist_remtail\<close> return null exactly on the empty list, which they leave
  alone; otherwise they return the first (last) thread, which is then on no list, and keep the rest of the list in
  its order and every other list as it was.\<close>

theorem threadlist_rem_correct:
  assumes "tl_rep m l ts"
  shows "(\<exists>r m'. threadlist_remhead l m = Some (r, m') \<and>
      (if ts = [] then r = None \<and> m' = m
       else r = Some (hd ts) \<and> tl_rep m' l (tl ts) \<and> tl_off m' (hd ts) \<and> tl_others l (hd ts) m m')) \<and>
    (\<exists>r m'. threadlist_remtail l m = Some (r, m') \<and>
      (if ts = [] then r = None \<and> m' = m
       else r = Some (last ts) \<and> tl_rep m' l (butlast ts) \<and> tl_off m' (last ts) \<and> tl_others l (last ts) m m'))"
    (is "?A \<and> ?B")
proof
  show ?A using assms remhead_ok [of m l "hd ts" "tl ts"] rem_empty(1) by (cases ts) auto
  show ?B using assms remtail_ok [of m l "butlast ts" "last ts"] rem_empty(2)
    by (cases ts rule: rev_cases) auto
qed

theorem threadlist_rem_correct_witness:
  "(\<exists>m'. threadlist_remhead 0 mem_7_8 = Some (Some 7, m') \<and> tl_rep m' 0 [8] \<and> tl_off m' 7) \<and>
   (\<exists>m'. threadlist_remtail 0 mem_7_8 = Some (Some 8, m') \<and> tl_rep m' 0 [7] \<and> tl_off m' 8)"
  using threadlist_rem_correct [OF mem_7_8_rep(1)] by auto

text \<open>\<^verbatim>\<open>threadlist_insertafter\<close>, \<^verbatim>\<open>threadlist_insertbefore\<close> and \<^verbatim>\<open>threadlist_remove\<close> act at the place of the
  given listed thread: the new thread follows (precedes) it, or it is taken out and may be put on a list again.\<close>

theorem threadlist_middle_correct:
  assumes "tl_rep m l (us @ t # vs)" "tl_off m s" "length us + length vs + 2 < 2 ^ 32"
  shows "(\<exists>m'. threadlist_insertafter l t s m = Some m' \<and> tl_rep m' l (us @ t # s # vs) \<and> tl_others l s m m') \<and>
    (\<exists>m'. threadlist_insertbefore l s t m = Some m' \<and> tl_rep m' l (us @ s # t # vs) \<and> tl_others l s m m') \<and>
    (\<exists>m'. threadlist_remove l t m = Some m' \<and> tl_rep m' l (us @ vs) \<and> tl_off m' t \<and> tl_others l t m m')"
  using assms tl_insert [of m l "us @ [t]" vs s] tl_insert [of m l us "t # vs" s] tl_delete [of m l us t vs]
  by (simp add: threadlist_insertafter_def threadlist_insertbefore_def threadlist_remove_def
      left_of_def right_of_def)

theorem threadlist_middle_correct_witness:
  "(\<exists>m'. threadlist_insertafter 0 7 5 mem_7_8 = Some m' \<and> tl_rep m' 0 [7, 5, 8]) \<and>
   (\<exists>m'. threadlist_insertbefore 0 5 7 mem_7_8 = Some m' \<and> tl_rep m' 0 [5, 7, 8]) \<and>
   (\<exists>m'. threadlist_remove 0 7 mem_7_8 = Some m' \<and> tl_rep m' 0 [8] \<and> tl_off m' 7)"
  using threadlist_middle_correct [of mem_7_8 0 "[]" 7 "[8]" 5] mem_7_8_rep by auto

text \<open>\<^verbatim>\<open>THREADLIST_FORALL\<close> faults on every well-formed list: its loop reads the thread of the tail bookend, which
  is null, before it tests for the end.\<close>

theorem threadlist_forall_faults:
  assumes "tl_rep m l ts"
  shows "THREADLIST_FORALL l m = None"
proof (cases ts)
  case Nil
  then have "tln_next m (Head l) = Some (Tail l)" "tln_self m (Tail l) = None"
    using assms by (simp_all add: tl_rep_def)
  then show ?thesis by (simp add: THREADLIST_FORALL_def forall_from.simps)
next
  case (Cons t us)
  then have "tln_next m (Head l) = Some (TNode t)" "tln_self m (TNode t) = Some t"
    using assms by (simp_all add: tl_rep_def)
  then show ?thesis using forall_from_tail [of m l "[]" t us] assms Cons by (simp add: THREADLIST_FORALL_def)
qed

theorem threadlist_forall_faults_witness: "THREADLIST_FORALL 0 mem_7_8 = None"
  by (rule threadlist_forall_faults [OF mem_7_8_rep(1)])

end
