(* ===== verification/Spinlock.thy ===== *)
theory Spinlock
  imports Kern_Prelude
begin

text \<open>
  \<^verbatim>\<open>kern/thread/spl.c\<close>, \<^verbatim>\<open>kern/thread/spinlock.c\<close> and the MIPS part \<^verbatim>\<open>machine/spinlock.h\<close>: the interrupt
  priority level of a thread and the spinlocks built on it.  The current CPU is an argument, \<open>None\<close> before
  \<^verbatim>\<open>curcpu\<close> is set up.  The first part translates the functions as one CPU runs them; the second lets any
  number of CPUs run \<^verbatim>\<open>spinlock_acquire\<close> and \<^verbatim>\<open>spinlock_release\<close> on one lock, interleaved between their accesses
  to it.
\<close>

section \<open>Interrupt priority levels\<close>

text \<open>The fields of the current thread, and whether its CPU takes interrupts.\<close>

record spl =
  t_iplhigh_count :: int
  t_curspl :: int
  irq :: bool

abbreviation (input) IPL_NONE :: int where "IPL_NONE \<equiv> 0"
abbreviation (input) IPL_HIGH :: int where "IPL_HIGH \<equiv> 1"

definition splraise :: "nat option \<Rightarrow> int \<Rightarrow> int \<Rightarrow> spl \<Rightarrow> spl option" where
  "splraise cpu oldspl newspl s = do {
     KASSERT (oldspl = IPL_NONE);
     KASSERT (newspl = IPL_HIGH);
     if cpu = None then Some s
     else do {
       s \<leftarrow> Some (if t_iplhigh_count s = 0 then s\<lparr>irq := False\<rparr> else s);
       Some (s\<lparr>t_iplhigh_count := t_iplhigh_count s + 1\<rparr>)
     }
   }"

definition spllower :: "nat option \<Rightarrow> int \<Rightarrow> int \<Rightarrow> spl \<Rightarrow> spl option" where
  "spllower cpu oldspl newspl s = do {
     KASSERT (oldspl = IPL_HIGH);
     KASSERT (newspl = IPL_NONE);
     if cpu = None then Some s
     else do {
       s \<leftarrow> Some (s\<lparr>t_iplhigh_count := t_iplhigh_count s - 1\<rparr>);
       Some (if t_iplhigh_count s = 0 then s\<lparr>irq := True\<rparr> else s)
     }
   }"

definition splx :: "nat option \<Rightarrow> int \<Rightarrow> spl \<Rightarrow> (int \<times> spl) option" where
  "splx cpu n s =
     (if t_curspl s < n then do {
        s \<leftarrow> splraise cpu (t_curspl s) n s;
        ret \<leftarrow> Some (t_curspl s);
        Some (ret, s\<lparr>t_curspl := n\<rparr>)
      }
      else if t_curspl s > n then do {
        ret \<leftarrow> Some (t_curspl s);
        s \<leftarrow> Some (s\<lparr>t_curspl := n\<rparr>);
        s \<leftarrow> spllower cpu ret n s;
        Some (ret, s)
      }
      else Some (n, s))"

definition spl0 :: "nat option \<Rightarrow> spl \<Rightarrow> (int \<times> spl) option" where
  "spl0 cpu s = splx cpu IPL_NONE s"

definition splhigh :: "nat option \<Rightarrow> spl \<Rightarrow> (int \<times> spl) option" where
  "splhigh cpu s = splx cpu IPL_HIGH s"

section \<open>Spinlocks, as one CPU runs them\<close>

record spinlock =
  lk_lock :: nat
  lk_holder :: "nat option"

definition spinlock_data_set :: "nat \<Rightarrow> spinlock \<Rightarrow> spinlock" where
  "spinlock_data_set val lk = lk\<lparr>lk_lock := val\<rparr>"

definition spinlock_data_get :: "spinlock \<Rightarrow> nat" where
  "spinlock_data_get lk = lk_lock lk"

text \<open>The store-conditional may fail; its outcome is an argument.\<close>

definition spinlock_data_testandset :: "bool \<Rightarrow> spinlock \<Rightarrow> nat \<times> spinlock" where
  "spinlock_data_testandset sc lk =
     (let x = lk_lock lk in if \<not> sc then (1, lk) else (x, lk\<lparr>lk_lock := 1\<rparr>))"

definition spinlock_init :: "spinlock \<Rightarrow> spinlock" where
  "spinlock_init lk = (spinlock_data_set 0 lk)\<lparr>lk_holder := None\<rparr>"

definition spinlock_cleanup :: "spinlock \<Rightarrow> spinlock option" where
  "spinlock_cleanup lk = do {
     KASSERT (lk_holder lk = None);
     KASSERT (spinlock_data_get lk = 0);
     Some lk
   }"

text \<open>The waiting loop, when the first \<open>k\<close> store-conditionals fail.  A lock another CPU holds makes it spin
  for as long as the lock is held; run on its own it then never returns, which is \<open>None\<close>.\<close>

partial_function (option) spin_loop :: "nat \<Rightarrow> spinlock \<Rightarrow> spinlock option" where
  "spin_loop k lk =
     (if spinlock_data_get lk \<noteq> 0 then spin_loop k lk
      else let (x, lk') = spinlock_data_testandset (k = 0) lk in
        if x \<noteq> 0 then spin_loop (k - 1) lk' else Some lk')"

text \<open>The test for self-deadlock that comes before the loop.\<close>

definition acquire_check :: "nat option \<Rightarrow> spinlock \<Rightarrow> unit option" where
  "acquire_check cpu lk = KASSERT (cpu = None \<or> lk_holder lk \<noteq> cpu)"

definition spinlock_acquire :: "nat \<Rightarrow> nat option \<Rightarrow> spinlock \<Rightarrow> spl \<Rightarrow> (spinlock \<times> spl) option" where
  "spinlock_acquire k cpu lk s = do {
     s \<leftarrow> splraise cpu IPL_NONE IPL_HIGH s;
     _ \<leftarrow> acquire_check cpu lk;
     lk \<leftarrow> spin_loop k lk;
     Some (lk\<lparr>lk_holder := cpu\<rparr>, s)
   }"

definition release_check :: "nat option \<Rightarrow> spinlock \<Rightarrow> unit option" where
  "release_check cpu lk = KASSERT (cpu = None \<or> lk_holder lk = cpu)"

definition spinlock_release :: "nat option \<Rightarrow> spinlock \<Rightarrow> spl \<Rightarrow> (spinlock \<times> spl) option" where
  "spinlock_release cpu lk s = do {
     _ \<leftarrow> release_check cpu lk;
     lk \<leftarrow> Some (lk\<lparr>lk_holder := None\<rparr>);
     lk \<leftarrow> Some (spinlock_data_set 0 lk);
     s \<leftarrow> spllower cpu IPL_HIGH IPL_NONE s;
     Some (lk, s)
   }"

definition spinlock_do_i_hold :: "nat option \<Rightarrow> spinlock \<Rightarrow> bool" where
  "spinlock_do_i_hold cpu lk = (if cpu = None then True else lk_holder lk = cpu)"

section \<open>Spinlocks, as several CPUs run them\<close>

text \<open>Where a CPU is: outside; in the loop before the read of the lock word; between that read and the
  test-and-set; after the test-and-set that got the lock and before \<^verbatim>\<open>lk_holder\<close> is set; holding; and in
  \<^verbatim>\<open>spinlock_release\<close>, with \<^verbatim>\<open>lk_holder\<close> already cleared.\<close>

datatype spin_pc = Outside | Spinning | SawFree | Won | Inside | Clearing

record spin_sys =
  the_lock :: spinlock
  pc :: "nat \<Rightarrow> spin_pc"
  spls :: "nat \<Rightarrow> spl"

inductive spin_step :: "spin_sys \<Rightarrow> spin_sys \<Rightarrow> bool" where
  enter: "pc s c = Outside \<Longrightarrow> splraise (Some c) IPL_NONE IPL_HIGH (spls s c) = Some q \<Longrightarrow>
    acquire_check (Some c) (the_lock s) = Some () \<Longrightarrow>
    spin_step s (s\<lparr>pc := (pc s)(c := Spinning), spls := (spls s)(c := q)\<rparr>)"
| test: "pc s c = Spinning \<Longrightarrow>
    spin_step s (s\<lparr>pc := (pc s)(c := if spinlock_data_get (the_lock s) \<noteq> 0 then Spinning else SawFree)\<rparr>)"
| tas: "pc s c = SawFree \<Longrightarrow> spinlock_data_testandset sc (the_lock s) = (x, lk) \<Longrightarrow>
    spin_step s (s\<lparr>the_lock := lk, pc := (pc s)(c := if x \<noteq> 0 then Spinning else Won)\<rparr>)"
| own: "pc s c = Won \<Longrightarrow>
    spin_step s (s\<lparr>the_lock := (the_lock s)\<lparr>lk_holder := Some c\<rparr>, pc := (pc s)(c := Inside)\<rparr>)"
| clear: "pc s c = Inside \<Longrightarrow> release_check (Some c) (the_lock s) = Some () \<Longrightarrow>
    spin_step s (s\<lparr>the_lock := (the_lock s)\<lparr>lk_holder := None\<rparr>, pc := (pc s)(c := Clearing)\<rparr>)"
| store: "pc s c = Clearing \<Longrightarrow> spllower (Some c) IPL_HIGH IPL_NONE (spls s c) = Some q \<Longrightarrow>
    spin_step s (s\<lparr>the_lock := spinlock_data_set 0 (the_lock s), pc := (pc s)(c := Outside),
      spls := (spls s)(c := q)\<rparr>)"

definition spin_init :: spin_sys where
  "spin_init = \<lparr>the_lock = \<lparr>lk_lock = 0, lk_holder = None\<rparr>, pc = (\<lambda>_. Outside),
     spls = (\<lambda>_. \<lparr>t_iplhigh_count = 0, t_curspl = 0, irq = True\<rparr>)\<rparr>"

section \<open>Lemmas\<close>

lemmas spl_defs = splraise_def spllower_def

lemmas spinlock_defs = spinlock_data_set_def spinlock_data_get_def spinlock_data_testandset_def
  acquire_check_def release_check_def

lemma spin_loop_held:
  assumes "spin_loop k lk = Some lk'"
  shows "lk_lock lk = 0"
  by (rule spin_loop.raw_induct [OF _ assms, of "\<lambda>k lk lk'. lk_lock lk = 0"])
    (auto simp: spinlock_defs split: if_splits)

lemma spin_loop_eq: "spin_loop k lk = (if lk_lock lk = 0 then Some (lk\<lparr>lk_lock := 1\<rparr>) else None)"
proof (cases "lk_lock lk = 0")
  case True
  have "spin_loop k lk = Some (lk\<lparr>lk_lock := 1\<rparr>)"
  proof (induction k)
    case 0
    show ?case by (subst spin_loop.simps) (simp add: spinlock_defs True)
  next
    case (Suc k)
    then show ?case by (subst spin_loop.simps) (simp add: spinlock_defs True)
  qed
  with True show ?thesis by simp
next
  case False
  then show ?thesis using spin_loop_held [of k lk] by (cases "spin_loop k lk") auto
qed

text \<open>The state in which a CPU may take a lock, and the pair of calls around a critical section.\<close>

definition lock_free :: "spinlock \<Rightarrow> bool" where
  "lock_free lk \<longleftrightarrow> lk_lock lk = 0 \<and> lk_holder lk = None"

definition spl_ok :: "spl \<Rightarrow> bool" where
  "spl_ok s \<longleftrightarrow> 0 \<le> t_iplhigh_count s \<and> (irq s \<longleftrightarrow> t_iplhigh_count s = 0)"

definition held_by :: "nat option \<Rightarrow> spinlock \<Rightarrow> spinlock" where
  "held_by cpu lk = lk\<lparr>lk_lock := 1, lk_holder := cpu\<rparr>"

definition raised :: "nat option \<Rightarrow> spl \<Rightarrow> spl" where
  "raised cpu s = (if cpu = None then s
     else s\<lparr>irq := irq s \<and> t_iplhigh_count s \<noteq> 0, t_iplhigh_count := t_iplhigh_count s + 1\<rparr>)"

lemma acquire_free: "lock_free lk \<Longrightarrow> spinlock_acquire k cpu lk s = Some (held_by cpu lk, raised cpu s)"
  by (auto simp: spinlock_acquire_def spl_defs acquire_check_def lock_free_def spin_loop_eq held_by_def raised_def)

lemma release_held:
  "lock_free lk \<Longrightarrow> spl_ok s \<Longrightarrow> spinlock_release cpu (held_by cpu lk) (raised cpu s) = Some (lk, s)"
  by (auto simp: spinlock_release_def spl_defs release_check_def spinlock_data_set_def lock_free_def held_by_def
      raised_def spl_ok_def)

section \<open>The invariant of the interleaved runs\<close>

definition in_cs :: "spin_pc \<Rightarrow> bool" where
  "in_cs p \<longleftrightarrow> p = Won \<or> p = Inside \<or> p = Clearing"

lemma in_cs_simps [simp]:
  "\<not> in_cs Outside" "\<not> in_cs Spinning" "\<not> in_cs SawFree" "in_cs Won" "in_cs Inside" "in_cs Clearing"
  by (simp_all add: in_cs_def)

text \<open>\<open>w\<close> is the CPU that has the lock, if any.\<close>

definition spin_inv :: "nat option \<Rightarrow> spin_sys \<Rightarrow> bool" where
  "spin_inv w s \<longleftrightarrow> (\<forall>c. in_cs (pc s c) \<longleftrightarrow> w = Some c) \<and>
     lk_lock (the_lock s) = (if w = None then 0 else 1) \<and>
     (\<forall>c. lk_holder (the_lock s) = Some c \<longleftrightarrow> pc s c = Inside) \<and>
     (\<forall>c. t_iplhigh_count (spls s c) = (if pc s c = Outside then 0 else 1) \<and>
          (irq (spls s c) \<longleftrightarrow> pc s c = Outside))"

lemma spin_inv_init: "spin_inv None spin_init"
  by (simp add: spin_inv_def spin_init_def in_cs_def)

lemma spin_inv_cs: "spin_inv w s \<Longrightarrow> w = Some c \<longleftrightarrow> in_cs (pc s c)"
  by (simp add: spin_inv_def)

lemma spin_inv_word: "spin_inv w s \<Longrightarrow> lk_lock (the_lock s) = (if w = None then 0 else 1)"
  by (simp add: spin_inv_def)

lemma spin_inv_upd:
  assumes "spin_inv w s" "pc s c = p"
    and "\<And>d. d \<noteq> c \<Longrightarrow> in_cs (pc s d) \<longleftrightarrow> w' = Some d" "in_cs p' \<longleftrightarrow> w' = Some c"
    and "lk_lock lk = (if w' = None then 0 else 1)"
    and "lk_holder lk = (if p' = Inside then Some c else if p = Inside then None else lk_holder (the_lock s))"
    and "t_iplhigh_count q = (if p' = Outside then 0 else 1)" "irq q \<longleftrightarrow> p' = Outside"
    and "p' = Inside \<Longrightarrow> in_cs p"
  shows "spin_inv w' (s\<lparr>the_lock := lk, pc := (pc s)(c := p'), spls := (spls s)(c := q)\<rparr>)"
proof -
  have h: "lk_holder (the_lock s) = Some d \<longleftrightarrow> pc s d = Inside" for d
    using assms(1) by (simp add: spin_inv_def)
  have "lk_holder lk = Some d \<longleftrightarrow> ((pc s)(c := p')) d = Inside" for d
  proof (cases "d = c")
    case True
    then show ?thesis using assms(2,6) h by auto
  next
    case False
    have "\<not> (pc s d = Inside \<and> in_cs p)"
      using False assms(1,2) spin_inv_cs [of w s d] spin_inv_cs [of w s c] by (auto simp: in_cs_def)
    then show ?thesis using False assms(2,6,9) h by (auto simp: in_cs_def)
  qed
  then show ?thesis using assms(1,3-5,7,8) by (simp add: spin_inv_def)
qed

lemma spin_inv_step:
  assumes "spin_inv w s" "spin_step s s'"
  shows "\<exists>w'. spin_inv w' s'"
proof -
  note upd = spin_inv_upd [OF assms(1)]
  have spl: "t_iplhigh_count (spls s c) = (if pc s c = Outside then 0 else 1)"
    "irq (spls s c) \<longleftrightarrow> pc s c = Outside" for c
    using assms(1) by (simp_all add: spin_inv_def)
  have cs: "in_cs (pc s c) \<longleftrightarrow> w = Some c" for c using spin_inv_cs [OF assms(1)] by simp
  have word: "lk_lock (the_lock s) = (if w = None then 0 else 1)" by (rule spin_inv_word [OF assms(1)])
  show ?thesis
    using assms(2)
  proof cases
    case (enter c q)
    have wc: "w \<noteq> Some c" using cs [of c] enter(2) by auto
    have "spin_inv w (s\<lparr>the_lock := the_lock s,
        pc := (pc s)(c := Spinning), spls := (spls s)(c := q)\<rparr>)"
      by (rule upd [OF enter(2)])
        (use enter wc spl [of c] in \<open>auto simp: cs word spinlock_defs splraise_def\<close>)
    with enter(1) show ?thesis by auto
  next
    case (test c)
    have wc: "w \<noteq> Some c" using cs [of c] test(2) by auto
    define p where "p = (if spinlock_data_get (the_lock s) \<noteq> 0 then Spinning else SawFree)"
    then have p: "\<not> in_cs p" "p \<noteq> Inside" "p \<noteq> Outside" by simp_all
    have "spin_inv w (s\<lparr>the_lock := the_lock s, pc := (pc s)(c := p), spls := (spls s)(c := spls s c)\<rparr>)"
      by (rule upd [OF test(2)]) (use test wc p spl [of c] in \<open>auto simp: cs word\<close>)
    with test(1) p_def show ?thesis by auto
  next
    case (tas c sc x lk)
    have wc: "w \<noteq> Some c" using cs [of c] tas(2) by auto
    have "if x \<noteq> 0 then lk_lock lk = lk_lock (the_lock s) else w = None \<and> lk_lock lk = 1"
      "lk_holder lk = lk_holder (the_lock s)"
      using tas(3) word by (auto simp: spinlock_data_testandset_def Let_def split: if_splits)
    note lk = this
    have "\<exists>w'. spin_inv w' (s\<lparr>the_lock := lk,
        pc := (pc s)(c := if x \<noteq> 0 then Spinning else Won), spls := (spls s)(c := spls s c)\<rparr>)"
    proof (cases "x = 0")
      case True
      have "spin_inv (Some c) (s\<lparr>the_lock := lk, pc := (pc s)(c := Won), spls := (spls s)(c := spls s c)\<rparr>)"
        by (rule upd [OF tas(2)]) (use tas True lk spl [of c] in \<open>auto simp: cs\<close>)
      with True show ?thesis by auto
    next
      case False
      have "spin_inv w (s\<lparr>the_lock := lk, pc := (pc s)(c := Spinning), spls := (spls s)(c := spls s c)\<rparr>)"
        by (rule upd [OF tas(2)]) (use tas False lk wc spl [of c] in \<open>auto simp: cs word\<close>)
      with False show ?thesis by auto
    qed
    with tas(1) show ?thesis by auto
  next
    case (own c)
    have wc: "w = Some c" using cs [of c] own(2) by auto
    have "spin_inv w (s\<lparr>the_lock := (the_lock s)\<lparr>lk_holder := Some c\<rparr>,
        pc := (pc s)(c := Inside), spls := (spls s)(c := spls s c)\<rparr>)"
      by (rule upd [OF own(2)])
        (use own wc spl [of c] in \<open>auto simp: cs word spinlock_defs \<close>)
    with own(1) show ?thesis by auto
  next
    case (clear c)
    have wc: "w = Some c" using cs [of c] clear(2) by auto
    have "spin_inv w (s\<lparr>the_lock := (the_lock s)\<lparr>lk_holder := None\<rparr>,
        pc := (pc s)(c := Clearing), spls := (spls s)(c := spls s c)\<rparr>)"
      by (rule upd [OF clear(2)])
        (use clear wc spl [of c] in \<open>auto simp: cs word spinlock_defs \<close>)
    with clear(1) show ?thesis by auto
  next
    case (store c q)
    have wc: "w = Some c" using cs [of c] store(2) by auto
    have "spin_inv None (s\<lparr>the_lock := spinlock_data_set 0 (the_lock s),
        pc := (pc s)(c := Outside), spls := (spls s)(c := q)\<rparr>)"
      by (rule upd [OF store(2)])
        (use store wc spl [of c] in \<open>auto simp: cs word spinlock_defs spllower_def\<close>)
    with store(1) show ?thesis by auto
  qed
qed

lemma spin_inv_reachable: "spin_step\<^sup>*\<^sup>* spin_init s \<Longrightarrow> \<exists>w. spin_inv w s"
proof (induction rule: rtranclp_induct)
  case base
  show ?case using spin_inv_init by blast
next
  case (step s s')
  then obtain w where "spin_inv w s" by blast
  then show ?case using step(2) by (rule spin_inv_step)
qed

section \<open>Properties\<close>

text \<open>C15: whatever the interleaving and whichever store-conditionals fail, at most one CPU is between winning
  the lock and giving it up; the lock word is 1 exactly while there is one; \<^verbatim>\<open>lk_holder\<close> names the CPU inside;
  the assertion of \<^verbatim>\<open>spinlock_release\<close> and the self-deadlock test of \<^verbatim>\<open>spinlock_acquire\<close> never fire; and a CPU
  takes no interrupt from the moment it starts to acquire until it has released.\<close>

theorem spinlock_mutual_exclusion:
  assumes "spin_step\<^sup>*\<^sup>* spin_init s"
  shows "(\<forall>c d. in_cs (pc s c) \<and> in_cs (pc s d) \<longrightarrow> c = d) \<and>
    (lk_lock (the_lock s) = 1 \<longleftrightarrow> (\<exists>c. in_cs (pc s c))) \<and>
    (\<forall>c. pc s c = Inside \<longrightarrow> release_check (Some c) (the_lock s) = Some ()) \<and>
    (\<forall>c. pc s c = Outside \<longrightarrow> acquire_check (Some c) (the_lock s) = Some ()) \<and>
    (\<forall>c. irq (spls s c) \<longleftrightarrow> pc s c = Outside)"
proof -
  from spin_inv_reachable [OF assms] obtain w where inv: "spin_inv w s" ..
  from inv have one: "\<forall>c d. in_cs (pc s c) \<and> in_cs (pc s d) \<longrightarrow> c = d"
    unfolding spin_inv_def by (metis option.inject)
  from inv have w1: "lk_lock (the_lock s) = 1 \<longleftrightarrow> (\<exists>c. in_cs (pc s c))"
    unfolding spin_inv_def by (cases w) auto
  from inv have "lk_holder (the_lock s) = Some c \<longleftrightarrow> pc s c = Inside" for c
    unfolding spin_inv_def by blast
  then have "\<forall>c. pc s c = Inside \<longrightarrow> release_check (Some c) (the_lock s) = Some ()"
    "\<forall>c. pc s c = Outside \<longrightarrow> acquire_check (Some c) (the_lock s) = Some ()"
    by (simp_all add: release_check_def acquire_check_def)
  moreover from inv have "\<forall>c. irq (spls s c) \<longleftrightarrow> pc s c = Outside"
    unfolding spin_inv_def by blast
  ultimately show ?thesis using one w1 by blast
qed

theorem spinlock_mutual_exclusion_witness:
  "\<exists>s. spin_step\<^sup>*\<^sup>* spin_init s \<and> pc s 3 = SawFree \<and> acquire_check (Some 0) (the_lock s) = Some ()"
proof -
  let ?s1 = "spin_init\<lparr>pc := (pc spin_init)(3 := Spinning), spls := (spls spin_init)(3 :=
      \<lparr>t_iplhigh_count = 1, t_curspl = 0, irq = False\<rparr>)\<rparr>"
  let ?s2 = "?s1\<lparr>pc := (pc ?s1)(3 := if spinlock_data_get (the_lock ?s1) \<noteq> 0 then Spinning else SawFree)\<rparr>"
  have 1: "spin_step spin_init ?s1"
    by (rule spin_step.enter) (simp_all add: spin_init_def splraise_def acquire_check_def)
  have 2: "spin_step ?s1 ?s2" by (rule spin_step.test) simp
  have r: "spin_step\<^sup>*\<^sup>* spin_init ?s2"
    by (rule rtranclp_two [where r = spin_step, OF 1 2])
  have "pc ?s2 0 = Outside" "pc ?s2 3 = SawFree" by (simp_all add: spin_init_def spinlock_data_get_def)
  with r spinlock_mutual_exclusion [OF r] show ?thesis by blast
qed

datatype spl_call = Raise | Lower | Splx bool

fun spl_run :: "spl_call list \<Rightarrow> spl \<Rightarrow> spl option" where
  "spl_run [] s = Some s"
| "spl_run (Raise # xs) s = Option.bind (splraise (Some 0) IPL_NONE IPL_HIGH s) (spl_run xs)"
| "spl_run (Lower # xs) s = Option.bind (spllower (Some 0) IPL_HIGH IPL_NONE s) (spl_run xs)"
| "spl_run (Splx high # xs) s =
     Option.bind (splx (Some 0) (if high then IPL_HIGH else IPL_NONE) s) (\<lambda>(_, s). spl_run xs s)"

text \<open>The raises outstanding after the calls, \<open>None\<close> when one is lowered too often; and the last level set.\<close>

fun outstanding :: "nat \<Rightarrow> spl_call list \<Rightarrow> nat option" where
  "outstanding n [] = Some n"
| "outstanding n (Raise # xs) = outstanding (Suc n) xs"
| "outstanding n (Lower # xs) = (if n = 0 then None else outstanding (n - 1) xs)"
| "outstanding n (Splx _ # xs) = outstanding n xs"

fun last_level :: "bool \<Rightarrow> spl_call list \<Rightarrow> bool" where
  "last_level b [] = b"
| "last_level b (Splx high # xs) = last_level high xs"
| "last_level b (_ # xs) = last_level b xs"

definition spl_state :: "nat \<Rightarrow> bool \<Rightarrow> spl" where
  "spl_state n high = \<lparr>t_iplhigh_count = int n + of_bool high, t_curspl = of_bool high, irq = (n = 0 \<and> \<not> high)\<rparr>"

lemma spl_run_state:
  "outstanding n xs = Some k \<Longrightarrow> spl_run xs (spl_state n b) = Some (spl_state k (last_level b xs))"
proof (induction n xs arbitrary: b rule: outstanding.induct)
  case (2 n xs)
  have "splraise (Some 0) IPL_NONE IPL_HIGH (spl_state n b) = Some (spl_state (Suc n) b)"
    by (simp add: splraise_def spl_state_def)
  then show ?case using 2 by simp
next
  case (3 n xs)
  then obtain j where j: "n = Suc j" by (cases n) auto
  have "spllower (Some 0) IPL_HIGH IPL_NONE (spl_state (Suc j) b) = Some (spl_state j b)"
    by (simp add: spllower_def spl_state_def)
  then show ?case using 3 j by simp
next
  case (4 n high xs)
  have "\<exists>r. splx (Some 0) (if high then IPL_HIGH else IPL_NONE) (spl_state n b) = Some (r, spl_state n high)"
    by (cases high; cases b) (auto simp: splx_def spl_defs spl_state_def)
  then show ?case using 4 by auto
qed simp_all

text \<open>C28: spinlocks and \<^verbatim>\<open>splx\<close> raise the interrupt level independently: after any sequence of raises, lowers and
  \<^verbatim>\<open>splx\<close> calls in which no level is lowered that was not raised, no call has failed and interrupts are off exactly while
  some raise is outstanding or \<^verbatim>\<open>splx\<close> last set the high level.\<close>

theorem spl_nesting:
  assumes "outstanding 0 xs = Some k"
  shows "\<exists>s. spl_run xs \<lparr>t_iplhigh_count = 0, t_curspl = IPL_NONE, irq = True\<rparr> = Some s \<and>
    (irq s \<longleftrightarrow> k = 0 \<and> \<not> last_level False xs) \<and> t_iplhigh_count s = int k + of_bool (last_level False xs)"
  using spl_run_state [OF assms, of False] by (simp add: spl_state_def)

theorem spl_nesting_witness:
  "\<exists>s. spl_run [Raise, Splx True, Raise, Splx False, Lower, Lower]
     \<lparr>t_iplhigh_count = 0, t_curspl = IPL_NONE, irq = True\<rparr> = Some s \<and> irq s"
  using spl_nesting [of "[Raise, Splx True, Raise, Splx False, Lower, Lower]" 0] by auto

end
