(* ===== verification/Coremap.thy ===== *)
theory Coremap
  imports Spinlock Slot_Allocator
begin

text \<open>
  \<^verbatim>\<open>kern/arch/mips/vm/ram.c\<close>, \<^verbatim>\<open>kern/vm/coremap.c\<close> and the page allocator of \<^verbatim>\<open>kern/vm/vm.c\<close>: physical memory from
  boot to \<^verbatim>\<open>alloc_kpages\<close>.  Physical addresses are \<open>nat\<close> with the 32-bit wrap-around written out.  The array
  \<^verbatim>\<open>coremap\<close> is a list with the entries its memory has room for; only the first \<^verbatim>\<open>cm_entries\<close> are initialised, the
  rest is whatever the RAM held.
\<close>

section \<open>Physical memory at boot\<close>

record ram =
  firstpaddr :: nat
  lastpaddr :: nat

abbreviation (input) PAGE_SIZE :: nat where "PAGE_SIZE \<equiv> 4096"
abbreviation (input) MIPS_KSEG0 :: nat where "MIPS_KSEG0 \<equiv> 0x80000000"

text \<open>\<^verbatim>\<open>PAGE_FRAME\<close> masks the offset within a page off.\<close>

definition page_frame :: "nat \<Rightarrow> nat" where
  "page_frame a = a - a mod PAGE_SIZE"

definition PADDR_TO_KVADDR :: "nat \<Rightarrow> nat" where
  "PADDR_TO_KVADDR paddr = u32 (paddr + MIPS_KSEG0)"

definition KVADDR_TO_PADDR :: "nat \<Rightarrow> nat" where
  "KVADDR_TO_PADDR vaddr = usub vaddr MIPS_KSEG0"

text \<open>\<open>ramsize\<close> is what \<^verbatim>\<open>mainbus_ramsize\<close> returns, \<open>firstfree\<close> the variable \<^verbatim>\<open>start.S\<close> sets.\<close>

definition ram_bootstrap :: "nat \<Rightarrow> nat \<Rightarrow> ram" where
  "ram_bootstrap ramsize firstfree =
     (let ramsize = (if ramsize > 508*1024*1024 then 508*1024*1024 else ramsize)
      in \<lparr>firstpaddr = usub firstfree MIPS_KSEG0, lastpaddr = ramsize\<rparr>)"

definition ram_stealmem :: "nat \<Rightarrow> ram \<Rightarrow> nat \<times> ram" where
  "ram_stealmem npages r =
     (let size = u32 (npages * PAGE_SIZE) in
      if u32 (firstpaddr r + size) > lastpaddr r then (0, r)
      else (firstpaddr r, r\<lparr>firstpaddr := u32 (firstpaddr r + size)\<rparr>))"

definition ram_getsize :: "ram \<Rightarrow> (nat \<times> nat) \<times> ram" where
  "ram_getsize r = ((firstpaddr r, lastpaddr r), \<lparr>firstpaddr = 0, lastpaddr = 0\<rparr>)"

section \<open>The coremap\<close>

record cm_entry =
  chunk_cnt :: nat
  is_kern_page :: bool
  is_allocated :: bool

record cmap =
  coremap :: "cm_entry list"
  cm_entries :: nat
  cm_lastentry :: nat
  freespace :: nat

abbreviation free_entry :: cm_entry where
  "free_entry \<equiv> \<lparr>chunk_cnt = 0, is_kern_page = False, is_allocated = False\<rparr>"

text \<open>\<^verbatim>\<open>multiple\<close> is a power of two in every call; masking with its negation rounds down.\<close>

definition roundUp :: "nat \<Rightarrow> nat \<Rightarrow> nat" where
  "roundUp numToRound multiple =
     unat ((of_nat numToRound + of_nat multiple - 1) AND NOT (of_nat multiple - 1) :: u32)"

fun init_coremap :: "nat \<Rightarrow> nat \<Rightarrow> cm_entry list \<Rightarrow> cm_entry list option" where
  "init_coremap 0 i cm = Some cm"
| "init_coremap (Suc left) i cm = do { cm \<leftarrow> wr cm i free_entry; init_coremap left (i + 1) cm }"

text \<open>\<open>sizeof(struct cm_entry)\<close> is 4: the three bit fields share one word.  \<open>junk\<close> is what the stolen memory held.\<close>

definition coremap_bootstrap :: "(nat \<Rightarrow> cm_entry) \<Rightarrow> ram \<Rightarrow> (nat \<times> cmap \<times> ram) option" where
  "coremap_bootstrap junk r = do {
     ((first, last), r) \<leftarrow> Some (ram_getsize r);
     total_pages \<leftarrow> Some (usub last first div PAGE_SIZE);
     coremap_size \<leftarrow> Some (u32 (total_pages * 4));
     coremap_size \<leftarrow> Some (roundUp coremap_size PAGE_SIZE);
     first \<leftarrow> Some (u32 (first + coremap_size));
     first \<leftarrow> Some (if first mod PAGE_SIZE \<noteq> 0 then u32 (page_frame first + PAGE_SIZE) else first);
     n \<leftarrow> Some (usub (last div PAGE_SIZE) (first div PAGE_SIZE));
     cm \<leftarrow> init_coremap n 0 (map junk [0..<coremap_size div 4]);
     Some (first, \<lparr>coremap = cm, cm_entries = n, cm_lastentry = 0, freespace = first\<rparr>, r)
   }"

definition getindex :: "nat \<Rightarrow> cmap \<Rightarrow> nat" where
  "getindex paddr m = usub paddr (freespace m) div PAGE_SIZE"

definition indextopaddr :: "nat \<Rightarrow> cmap \<Rightarrow> nat" where
  "indextopaddr index m = u32 (index * PAGE_SIZE + freespace m)"

fun add_loop :: "nat \<Rightarrow> nat \<Rightarrow> int \<Rightarrow> bool \<Rightarrow> cm_entry list \<Rightarrow> cm_entry list option" where
  "add_loop 0 index npages iskern cm = Some cm"
| "add_loop (Suc left) index npages iskern cm = do {
     cm \<leftarrow> wr cm index \<lparr>chunk_cnt = nat (npages mod 2 ^ 17), is_kern_page = iskern, is_allocated = True\<rparr>;
     add_loop left (index + 1) npages iskern cm
   }"

definition addtocoremap :: "nat \<Rightarrow> int \<Rightarrow> bool \<Rightarrow> cmap \<Rightarrow> cmap option" where
  "addtocoremap paddr npages iskern m = do {
     cm \<leftarrow> add_loop (nat npages) (getindex paddr m) npages iskern (coremap m);
     Some (m\<lparr>coremap := cm\<rparr>)
   }"

text \<open>The loop reads \<^verbatim>\<open>chunk_cnt\<close> of the entry it has moved on to, as the source does.\<close>

function remove_loop :: "nat \<Rightarrow> nat \<Rightarrow> cm_entry list \<Rightarrow> cm_entry list option" where
  "remove_loop i index cm = do {
     e \<leftarrow> rd cm index;
     if i < chunk_cnt e then remove_loop (i + 1) (index + 1) (cm[index := free_entry]) else Some cm
   }"
  by auto
termination by (relation "measure (\<lambda>(i, index, cm). length cm - index)") (auto simp: rd_def split: if_splits)

definition removefromcoremap :: "nat \<Rightarrow> cmap \<Rightarrow> cmap option" where
  "removefromcoremap paddr m = do {
     cm \<leftarrow> remove_loop 0 (getindex paddr m) (coremap m);
     Some (m\<lparr>coremap := cm\<rparr>)
   }"

function getpaddr_from :: "nat \<Rightarrow> nat \<Rightarrow> int \<Rightarrow> cmap \<Rightarrow> nat option" where
  "getpaddr_from i count npages m =
     (if i < cm_entries m then do {
        e \<leftarrow> rd (coremap m) i;
        if \<not> is_allocated e then
          (if int (count + 1) = npages then Some (indextopaddr (i + 1 - (count + 1)) m)
           else getpaddr_from (i + 1) (count + 1) npages m)
        else getpaddr_from (i + 1) 0 npages m
      }
      else Some 0)"
  by auto
termination by (relation "measure (\<lambda>(i, count, npages, m). cm_entries m - i)") auto

definition getpaddr :: "int \<Rightarrow> cmap \<Rightarrow> nat option" where
  "getpaddr npages m = getpaddr_from 0 0 npages m"

section \<open>The page allocator\<close>

record pmem =
  cm :: cmap
  coremap_slock :: spinlock
  cur_spl :: spl

definition vm_bootstrap :: "(nat \<Rightarrow> cm_entry) \<Rightarrow> ram \<Rightarrow> spl \<Rightarrow> (nat \<times> pmem \<times> ram) option" where
  "vm_bootstrap junk r s = do {
     (firstpaddr, m, r) \<leftarrow> coremap_bootstrap junk r;
     Some (firstpaddr, \<lparr>cm = m, coremap_slock = \<lparr>lk_lock = 0, lk_holder = None\<rparr>, cur_spl = s\<rparr>, r)
   }"

definition cm_acquire :: "nat option \<Rightarrow> pmem \<Rightarrow> pmem option" where
  "cm_acquire cpu p = do {
     (lk, s) \<leftarrow> spinlock_acquire 0 cpu (coremap_slock p) (cur_spl p);
     Some (p\<lparr>coremap_slock := lk, cur_spl := s\<rparr>)
   }"

definition cm_release :: "nat option \<Rightarrow> pmem \<Rightarrow> pmem option" where
  "cm_release cpu p = do {
     (lk, s) \<leftarrow> spinlock_release cpu (coremap_slock p) (cur_spl p);
     Some (p\<lparr>coremap_slock := lk, cur_spl := s\<rparr>)
   }"

definition alloc_kpages :: "nat option \<Rightarrow> int \<Rightarrow> pmem \<Rightarrow> (nat \<times> pmem) option" where
  "alloc_kpages cpu npages p = do {
     p \<leftarrow> cm_acquire cpu p;
     paddr \<leftarrow> getpaddr npages (cm p);
     if paddr = 0 \<or> npages = 0 then do {
       p \<leftarrow> cm_release cpu p;
       Some (0, p)
     }
     else do {
       m \<leftarrow> addtocoremap paddr npages True (cm p);
       p \<leftarrow> cm_release cpu (p\<lparr>cm := m\<rparr>);
       Some (PADDR_TO_KVADDR paddr, p)
     }
   }"

text \<open>The body of the loop of \<^verbatim>\<open>page_alloc\<close> up to the release of the lock; \<^verbatim>\<open>as_prepare_load\<close>, \<^verbatim>\<open>as_copy\<close> and
  \<^verbatim>\<open>vm_fault\<close> take their pages with the same statements.  0 is the failure.\<close>

definition get_user_page :: "nat option \<Rightarrow> pmem \<Rightarrow> (nat \<times> pmem) option" where
  "get_user_page cpu p = do {
     p \<leftarrow> cm_acquire cpu p;
     paddr \<leftarrow> getpaddr 1 (cm p);
     if paddr = 0 then do {
       p \<leftarrow> cm_release cpu p;
       Some (0, p)
     }
     else do {
       m \<leftarrow> addtocoremap paddr 1 False (cm p);
       p \<leftarrow> cm_release cpu (p\<lparr>cm := m\<rparr>);
       Some (paddr, p)
     }
   }"

definition page_free :: "nat option \<Rightarrow> nat \<Rightarrow> pmem \<Rightarrow> pmem option" where
  "page_free cpu paddr p = do {
     p \<leftarrow> cm_acquire cpu p;
     m \<leftarrow> removefromcoremap paddr (cm p);
     cm_release cpu (p\<lparr>cm := m\<rparr>)
   }"

definition free_kpages :: "nat option \<Rightarrow> nat \<Rightarrow> pmem \<Rightarrow> pmem option" where
  "free_kpages cpu vaddr p = do {
     p \<leftarrow> cm_acquire cpu p;
     m \<leftarrow> removefromcoremap (KVADDR_TO_PADDR vaddr) (cm p);
     cm_release cpu (p\<lparr>cm := m\<rparr>)
   }"

section \<open>The chunks the coremap stands for\<close>

datatype seg = Hole | Chunk nat bool

fun seg_entries :: "seg \<Rightarrow> cm_entry list" where
  "seg_entries Hole = [free_entry]"
| "seg_entries (Chunk n k) = replicate n \<lparr>chunk_cnt = n, is_kern_page = k, is_allocated = True\<rparr>"

definition layout :: "seg list \<Rightarrow> cm_entry list" where
  "layout segs = concat (map seg_entries segs)"

lemma layout_simps [simp]:
  "layout [] = []" "layout (x # xs) = seg_entries x @ layout xs" "layout (xs @ ys) = layout xs @ layout ys"
  "layout (replicate n Hole) = replicate n free_entry"
proof -
  show "layout (replicate n Hole) = replicate n free_entry" by (induction n) (simp_all add: layout_def)
qed (simp_all add: layout_def)

text \<open>The addresses of the managed pages fit below the RAM limit of \<^verbatim>\<open>ram_bootstrap\<close>.\<close>

definition cm_ok :: "cmap \<Rightarrow> bool" where
  "cm_ok m \<longleftrightarrow> cm_entries m \<le> length (coremap m) \<and> 0 < freespace m \<and> PAGE_SIZE dvd freespace m \<and>
     freespace m + cm_entries m * PAGE_SIZE \<le> 508*1024*1024"

definition seg_ok :: "seg \<Rightarrow> bool" where
  "seg_ok x \<longleftrightarrow> (case x of Hole \<Rightarrow> True | Chunk n k \<Rightarrow> 0 < n)"

lemma seg_ok_simps [simp]: "seg_ok Hole" "seg_ok (Chunk n k) \<longleftrightarrow> 0 < n"
  by (simp_all add: seg_ok_def)

definition cm_rep :: "cmap \<Rightarrow> seg list \<Rightarrow> bool" where
  "cm_rep m segs \<longleftrightarrow> cm_ok m \<and> take (cm_entries m) (coremap m) = layout segs \<and> (\<forall>x\<in>set segs. seg_ok x)"

lemma cm_rep_length: "cm_rep m segs \<Longrightarrow> length (layout segs) = cm_entries m"
  unfolding cm_rep_def cm_ok_def by (metis length_take min.absorb2)

lemma cm_rep_split: "cm_rep m segs \<Longrightarrow> coremap m = layout segs @ drop (cm_entries m) (coremap m)"
  unfolding cm_rep_def by (metis append_take_drop_id)

lemma cm_repI:
  assumes "cm_ok m" "coremap m' = layout segs @ drop (cm_entries m) (coremap m)"
    "length (layout segs) = cm_entries m" "\<forall>x\<in>set segs. seg_ok x"
    "cm_entries m' = cm_entries m" "freespace m' = freespace m"
  shows "cm_rep m' segs"
  using assms by (simp add: cm_rep_def cm_ok_def)

definition page_addr :: "cmap \<Rightarrow> nat \<Rightarrow> nat" where
  "page_addr m i = freespace m + i * PAGE_SIZE"

lemma indextopaddr_page: "cm_ok m \<Longrightarrow> i \<le> cm_entries m \<Longrightarrow> indextopaddr i m = page_addr m i"
  by (simp add: indextopaddr_def page_addr_def cm_ok_def)

lemma page_addr_pos: "cm_ok m \<Longrightarrow> 0 < page_addr m i"
  by (simp add: page_addr_def cm_ok_def)

lemma page_addr_inj: "page_addr m i = page_addr m j \<longleftrightarrow> i = j"
  by (simp add: page_addr_def)

lemma getindex_page: "cm_ok m \<Longrightarrow> i \<le> cm_entries m \<Longrightarrow> getindex (page_addr m i) m = i"
  by (simp add: getindex_def page_addr_def cm_ok_def)

section \<open>First fit\<close>

definition fits :: "cmap \<Rightarrow> nat \<Rightarrow> nat \<Rightarrow> bool" where
  "fits m n j \<longleftrightarrow> j + n \<le> cm_entries m \<and> (\<forall>k<n. \<not> is_allocated (coremap m ! (j + k)))"

lemma getpaddr_from_spec:
  assumes "cm_entries m \<le> length (coremap m)" "count \<le> i" "i \<le> cm_entries m" "count < n"
    "\<forall>k. i - count \<le> k \<and> k < i \<longrightarrow> \<not> is_allocated (coremap m ! k)" "\<forall>j<i - count. \<not> fits m n j"
  shows "(\<exists>j. fits m n j \<and> (\<forall>j'<j. \<not> fits m n j') \<and>
            getpaddr_from i count (int n) m = Some (indextopaddr j m)) \<or>
         ((\<forall>j. \<not> fits m n j) \<and> getpaddr_from i count (int n) m = Some 0)"
  using assms
proof (induction i count "int n" m rule: getpaddr_from.induct)
  case (1 i count m)
  note [simp del] = getpaddr_from.simps
  show ?case
  proof (cases "i < cm_entries m")
    case False
    have "\<not> fits m n j" for j
    proof (cases "j < i - count")
      case True
      then show ?thesis using "1.prems"(6) by blast
    next
      case F: False
      then have "cm_entries m < j + n" using False "1.prems"(2,3,4) by linarith
      then show ?thesis by (simp add: fits_def)
    qed
    with False show ?thesis by (simp add: getpaddr_from.simps [of i])
  next
    case i: True
    then have rd: "rd (coremap m) i = Some (coremap m ! i)" using "1.prems"(1) by simp
    show ?thesis
    proof (cases "is_allocated (coremap m ! i)")
      case True
      have "\<not> fits m n j" if "j < i + 1" for j
      proof (cases "j < i - count")
        case False
        with that "1.prems"(2,4) have "i - j < n" "j + (i - j) = i" by simp_all
        then show ?thesis using True unfolding fits_def by metis
      qed (use "1.prems"(6) in blast)
      moreover have "getpaddr_from i count (int n) m = getpaddr_from (i + 1) 0 (int n) m"
        using i rd True by (simp add: getpaddr_from.simps [of i])
      moreover have "\<forall>k. i + 1 - 0 \<le> k \<and> k < i + 1 \<longrightarrow> \<not> is_allocated (coremap m ! k)" by auto
      ultimately show ?thesis
        using "1.hyps"(2) [OF i rd _ "1.prems"(1)] True "1.prems"(4) i by simp
    next
      case free: False
      have run: "\<forall>k. i - count \<le> k \<and> k < i + 1 \<longrightarrow> \<not> is_allocated (coremap m ! k)"
        using "1.prems"(5) free less_Suc_eq by auto
      show ?thesis
      proof (cases "count + 1 = n")
        case True
        let ?j = "i + 1 - (count + 1)"
        have "\<not> is_allocated (coremap m ! (?j + k))" if "k < n" for k
        proof -
          have "i - count \<le> ?j + k" "?j + k < i + 1" using that "1.prems"(2) True by linarith+
          then show ?thesis using run by blast
        qed
        moreover have "?j + n \<le> cm_entries m" using i "1.prems"(2) True by simp
        ultimately have "fits m n ?j" unfolding fits_def by blast
        moreover have "getpaddr_from i count (int n) m = Some (indextopaddr ?j m)"
          using i rd free True by (simp add: getpaddr_from.simps [of i])
        ultimately show ?thesis using "1.prems"(6) by (intro disjI1 exI [of _ ?j]) simp
      next
        case False
        then have "getpaddr_from i count (int n) m = getpaddr_from (i + 1) (count + 1) (int n) m"
          using i rd free by (simp add: getpaddr_from.simps [of i])
        then show ?thesis
          using "1.hyps"(1) [OF i rd] free False "1.prems" run i by auto
      qed
    qed
  qed
qed

lemma getpaddr_spec:
  assumes "cm_entries m \<le> length (coremap m)" "0 < n"
  shows "(\<exists>j. fits m n j \<and> (\<forall>j'<j. \<not> fits m n j') \<and> getpaddr (int n) m = Some (indextopaddr j m)) \<or>
         ((\<forall>j. \<not> fits m n j) \<and> getpaddr (int n) m = Some 0)"
  unfolding getpaddr_def by (rule getpaddr_from_spec) (use assms in simp_all)

text \<open>Nothing fits a request for no page, or for a negative number of them.\<close>

lemma getpaddr_from_nonpos:
  "cm_entries m \<le> length (coremap m) \<Longrightarrow> npages \<le> 0 \<Longrightarrow> getpaddr_from i count npages m = Some 0"
proof (induction i count npages m rule: getpaddr_from.induct)
  case (1 i count npages m)
  note [simp del] = getpaddr_from.simps
  show ?case
  proof (cases "i < cm_entries m")
    case True
    then have rd: "rd (coremap m) i = Some (coremap m ! i)" using "1.prems"(1) by simp
    show ?thesis
      using "1.IH"(1) [OF True rd] "1.IH"(2) [OF True rd] "1.prems" True rd
      by (auto simp: getpaddr_from.simps [of i])
  qed (simp add: getpaddr_from.simps)
qed

text \<open>A run of free entries is a run of holes.\<close>

lemma holes_prefix:
  "n \<le> length (layout segs) \<Longrightarrow> \<forall>k<n. \<not> is_allocated (layout segs ! k) \<Longrightarrow> \<forall>x\<in>set segs. seg_ok x \<Longrightarrow>
   \<exists>vs. segs = replicate n Hole @ vs"
proof (induction n arbitrary: segs)
  case (Suc n)
  then obtain x xs where segs: "segs = x # xs" by (cases segs) auto
  have x: "x = Hole"
  proof (cases x)
    case (Chunk p k)
    with Suc.prems(2,3) segs show ?thesis by (auto simp: nth_append dest: spec [of _ 0])
  qed
  have "\<not> is_allocated (layout xs ! k)" if "k < n" for k
    using Suc.prems(2) segs x that by (auto dest: spec [of _ "Suc k"])
  then obtain vs where "xs = replicate n Hole @ vs"
    using Suc.IH [of xs] Suc.prems segs x by auto
  with segs x show ?case by simp
qed simp

lemma holes_at:
  "0 < n \<Longrightarrow> j + n \<le> length (layout segs) \<Longrightarrow> \<forall>k<n. \<not> is_allocated (layout segs ! (j + k)) \<Longrightarrow>
   \<forall>x\<in>set segs. seg_ok x \<Longrightarrow>
   \<exists>us vs. segs = us @ replicate n Hole @ vs \<and> length (layout us) = j"
proof (induction segs arbitrary: j)
  case (Cons x xs)
  let ?l = "length (seg_entries x)"
  show ?case
  proof (cases "j = 0")
    case True
    then obtain vs where "x # xs = replicate n Hole @ vs" using holes_prefix [of n "x # xs"] Cons.prems by auto
    then show ?thesis using True by (intro exI [of _ "[]"] exI [of _ vs]) simp
  next
    case False
    have "\<not> is_allocated (layout (x # xs) ! j)" using Cons.prems(1,3) by (metis add_0_right)
    then have l: "?l \<le> j" using False by (cases x) (auto simp: nth_append split: if_splits)
    have "\<forall>k<n. \<not> is_allocated (layout xs ! (j - ?l + k))"
      using Cons.prems(3) l by (simp add: nth_append)
    moreover have "j - ?l + n \<le> length (layout xs)" using Cons.prems(2) l by simp
    ultimately obtain us vs where "xs = us @ replicate n Hole @ vs" "length (layout us) = j - ?l"
      using Cons.IH [of "j - ?l"] Cons.prems(1,4) by auto
    then show ?thesis using l by (intro exI [of _ "x # us"] exI [of _ vs]) simp
  qed
qed simp

lemma fits_holes:
  assumes "cm_rep m segs" "0 < n" "fits m n j"
  shows "\<exists>us vs. segs = us @ replicate n Hole @ vs \<and> length (layout us) = j"
proof (rule holes_at)
  have l: "length (layout segs) = cm_entries m" by (rule cm_rep_length [OF assms(1)])
  show "j + n \<le> length (layout segs)" using assms(3) l by (simp add: fits_def)
  have "layout segs ! (j + k) = coremap m ! (j + k)" if "k < n" for k
  proof -
    have "j + k < cm_entries m" using assms(3) that by (simp add: fits_def)
    then have "take (cm_entries m) (coremap m) ! (j + k) = coremap m ! (j + k)" by (rule nth_take)
    then show ?thesis using assms(1) by (simp only: cm_rep_def)
  qed
  then show "\<forall>k<n. \<not> is_allocated (layout segs ! (j + k))" using assms(3) by (simp add: fits_def)
qed (use assms in \<open>auto simp: cm_rep_def\<close>)

section \<open>Marking and unmarking runs of entries\<close>

lemma add_loop_run:
  "index + k \<le> length xs \<Longrightarrow> add_loop k index np b xs =
   Some (take index xs @ replicate k \<lparr>chunk_cnt = nat (np mod 2 ^ 17), is_kern_page = b, is_allocated = True\<rparr> @
         drop (index + k) xs)"
proof (induction k arbitrary: index xs)
  case (Suc k)
  then show ?case by (simp add: take_Suc_conv_app_nth)
qed simp

lemma remove_loop_run:
  "i + k = n \<Longrightarrow> remove_loop i (length xs) (xs @ replicate k \<lparr>chunk_cnt = n, is_kern_page = b, is_allocated = True\<rparr> @ ys)
   = remove_loop n (length xs + k) (xs @ replicate k free_entry @ ys)"
proof (induction k arbitrary: i xs)
  case (Suc k)
  let ?e = "\<lparr>chunk_cnt = n, is_kern_page = b, is_allocated = True\<rparr>"
  have "remove_loop i (length xs) (xs @ replicate (Suc k) ?e @ ys) =
      remove_loop (i + 1) (length (xs @ [free_entry])) ((xs @ [free_entry]) @ replicate k ?e @ ys)"
    using Suc.prems by (subst remove_loop.simps) (simp del: remove_loop.simps)
  also have "\<dots> = remove_loop n (length (xs @ [free_entry]) + k) ((xs @ [free_entry]) @ replicate k free_entry @ ys)"
    by (rule Suc.IH) (use Suc.prems in simp)
  finally show ?case by (simp del: remove_loop.simps)
qed (simp del: remove_loop.simps)

lemma remove_loop_stop:
  "j < length xs \<Longrightarrow> chunk_cnt (xs ! j) \<le> i \<Longrightarrow> remove_loop i j xs = Some xs"
  by (subst remove_loop.simps) simp

lemma holes_fit:
  assumes "cm_rep m (us @ replicate n Hole @ vs)"
  shows "fits m n (length (layout us))"
proof -
  have l: "length (layout us) + n + length (layout vs) = cm_entries m"
    using cm_rep_length [OF assms] by simp
  have "coremap m ! (length (layout us) + k) = free_entry" if "k < n" for k
    by (subst cm_rep_split [OF assms]) (use that in \<open>simp add: nth_append\<close>)
  with l show ?thesis by (simp add: fits_def)
qed

text \<open>What marking and unmarking leaves alone.\<close>

definition same_tail :: "cmap \<Rightarrow> cmap \<Rightarrow> bool" where
  "same_tail m m' \<longleftrightarrow> cm_entries m' = cm_entries m \<and> freespace m' = freespace m \<and>
     drop (cm_entries m) (coremap m') = drop (cm_entries m) (coremap m)"

lemma addtocoremap_holes:
  assumes "cm_rep m (us @ replicate n Hole @ vs)" "0 < n"
  shows "\<exists>m'. addtocoremap (page_addr m (length (layout us))) (int n) k m = Some m' \<and>
    cm_rep m' (us @ Chunk n k # vs) \<and> same_tail m m'"
proof -
  let ?cm = "layout (us @ Chunk n k # vs) @ drop (cm_entries m) (coremap m)"
  have ok: "cm_ok m" using assms(1) by (simp add: cm_rep_def)
  have l: "length (layout us) + n + length (layout vs) = cm_entries m"
    using cm_rep_length [OF assms(1)] by simp
  have "n < 2 ^ 17" using l ok by (simp add: cm_ok_def)
  then have n: "nat (int n mod 2 ^ 17) = n" by simp
  have cm: "coremap m = layout us @ replicate n free_entry @ layout vs @ drop (cm_entries m) (coremap m)"
    using cm_rep_split [OF assms(1)] by simp
  have "take (length (layout us)) (coremap m) = layout us"
    "drop (length (layout us) + n) (coremap m) = layout vs @ drop (cm_entries m) (coremap m)"
    by (subst cm; simp)+
  then have "add_loop n (length (layout us)) (int n) k (coremap m) = Some ?cm"
    using add_loop_run [of "length (layout us)" n "coremap m" "int n" k] l ok n by (simp add: cm_ok_def)
  then have "addtocoremap (page_addr m (length (layout us))) (int n) k m = Some (m\<lparr>coremap := ?cm\<rparr>)"
    using getindex_page [OF ok, of "length (layout us)"] l by (simp add: addtocoremap_def)
  moreover have "cm_rep (m\<lparr>coremap := ?cm\<rparr>) (us @ Chunk n k # vs)"
    by (rule cm_repI [OF ok]) (use assms l in \<open>auto simp: cm_rep_def\<close>)
  moreover have "same_tail m (m\<lparr>coremap := ?cm\<rparr>)" using l by (simp add: same_tail_def)
  ultimately show ?thesis by blast
qed

text \<open>Freeing a chunk: the loop frees its pages and then goes by the count of the entry that follows.\<close>

lemma removefromcoremap_start:
  assumes "cm_rep m (us @ Chunk n k # vs)"
  shows "removefromcoremap (page_addr m (length (layout us))) m =
    map_option (\<lambda>xs. m\<lparr>coremap := xs\<rparr>) (remove_loop n (length (layout us) + n)
      (layout us @ replicate n free_entry @ layout vs @ drop (cm_entries m) (coremap m)))"
proof -
  have ok: "cm_ok m" using assms by (simp add: cm_rep_def)
  have "length (layout us) \<le> cm_entries m" using cm_rep_length [OF assms] by simp
  then have "getindex (page_addr m (length (layout us))) m = length (layout us)" by (rule getindex_page [OF ok])
  moreover have "remove_loop 0 (length (layout us)) (coremap m) = remove_loop n (length (layout us) + n)
      (layout us @ replicate n free_entry @ layout vs @ drop (cm_entries m) (coremap m))"
    using remove_loop_run [of 0 n n "layout us" k "layout vs @ drop (cm_entries m) (coremap m)"]
      cm_rep_split [OF assms] by (simp del: remove_loop.simps)
  ultimately show ?thesis
    by (simp add: removefromcoremap_def map_conv_bind_option comp_def del: remove_loop.simps)
qed

text \<open>The count in the entry after the chunk that starts at page \<open>j\<close> and has \<open>n\<close> pages.\<close>

definition next_cnt :: "cmap \<Rightarrow> nat \<Rightarrow> nat option" where
  "next_cnt m j = map_option chunk_cnt (rd (coremap m) j)"

lemma removefromcoremap_chunk:
  assumes "cm_rep m (us @ Chunk n k # vs)" "next_cnt m (length (layout us) + n) = Some c" "c \<le> n"
  shows "\<exists>m'. removefromcoremap (page_addr m (length (layout us))) m = Some m' \<and>
    cm_rep m' (us @ replicate n Hole @ vs) \<and> same_tail m m'"
proof -
  let ?tail = "layout vs @ drop (cm_entries m) (coremap m)"
  let ?cm = "layout us @ replicate n free_entry @ ?tail"
  have ok: "cm_ok m" using assms by (simp add: cm_rep_def)
  have cm: "coremap m = (layout us @ seg_entries (Chunk n k)) @ ?tail" using cm_rep_split [OF assms(1)] by simp
  have j: "length (layout us) + n < length (coremap m)" "chunk_cnt (coremap m ! (length (layout us) + n)) = c"
    using assms(2) by (auto simp: next_cnt_def rd_def split: if_splits)
  have "length ?cm = length (coremap m)" by (subst (2) cm) simp
  moreover have "coremap m ! (length (layout us) + n) = ?tail ! 0" by (subst cm) (simp add: nth_append)
  then have "?cm ! (length (layout us) + n) = coremap m ! (length (layout us) + n)" by (simp add: nth_append)
  ultimately have "remove_loop n (length (layout us) + n) ?cm = Some ?cm"
    using j assms(3) by (intro remove_loop_stop) auto
  then have "removefromcoremap (page_addr m (length (layout us))) m = Some (m\<lparr>coremap := ?cm\<rparr>)"
    using removefromcoremap_start [OF assms(1)] by simp
  moreover have "cm_rep (m\<lparr>coremap := ?cm\<rparr>) (us @ replicate n Hole @ vs)"
    by (rule cm_repI [OF ok]) (use assms cm_rep_length [OF assms(1)] in \<open>auto simp: cm_rep_def\<close>)
  moreover have "same_tail m (m\<lparr>coremap := ?cm\<rparr>)"
    using cm_rep_length [OF assms(1)] by (auto simp: same_tail_def)
  ultimately show ?thesis by blast
qed

section \<open>Booting\<close>

lemma and_not_mask_word: "(w :: u32) AND NOT (mask k) = push_bit k (drop_bit k w)"
  by (rule bit_word_eqI) (auto simp: bit_simps)

lemma unat_u32 [simp]: "unat (w :: u32) < 2 ^ 32"
  using unsigned_less [where 'b = 32, of w] by (simp del: unsigned_less)

lemma unat_page_down: "unat ((w :: u32) AND NOT (mask 12)) = unat w div 4096 * 4096"
proof -
  have "unat (push_bit 12 (drop_bit 12 w)) = take_bit 32 (unat w div 4096 * 4096)"
    unfolding unsigned_push_bit_eq unsigned_drop_bit_eq
    using unat_u32 [of w] by (simp add: push_bit_eq_mult drop_bit_eq_div take_bit_nat_eq_self)
  also have "\<dots> = unat w div 4096 * 4096"
  proof -
    have "unat w div 4096 * 4096 \<le> unat w" by simp
    also have "\<dots> < 2 ^ 32" using unat_u32 [of w] by simp
    finally show ?thesis by (simp add: take_bit_nat_eq_self)
  qed
  finally show ?thesis by (simp add: and_not_mask_word)
qed

lemma roundUp_page:
  assumes "x + 4095 < 2 ^ 32"
  shows "roundUp x PAGE_SIZE = (x + 4095) div 4096 * 4096"
proof -
  have m: "of_nat PAGE_SIZE - 1 = (mask 12 :: u32)" by (simp add: mask_eq_exp_minus_1)
  have "of_nat x + of_nat PAGE_SIZE - 1 = (of_nat (x + 4095) :: u32)" by simp
  moreover have "unat (of_nat (x + 4095) :: u32) = x + 4095" using assms by (subst unat_of_nat) simp
  ultimately show ?thesis unfolding roundUp_def m by (simp only: unat_page_down)
qed

lemma init_coremap_run:
  "i + n \<le> length xs \<Longrightarrow> init_coremap n i xs = Some (take i xs @ replicate n free_entry @ drop (i + n) xs)"
proof (induction n arbitrary: i xs)
  case (Suc n)
  then show ?case by (simp add: take_Suc_conv_app_nth)
qed simp

text \<open>The pages the coremap itself takes, for \<open>t\<close> pages of free memory.\<close>

definition cm_pages :: "nat \<Rightarrow> nat" where
  "cm_pages t = (4 * t + 4095) div 4096"

lemma cm_pages_bounds:
  assumes "0 < t"
  shows "1 \<le> cm_pages t" "cm_pages t \<le> t" "t \<le> 1024 * cm_pages t"
proof -
  show "1 \<le> cm_pages t" using assms by (simp add: cm_pages_def less_eq_div_iff_mult_less_eq)
  have "4 * t + 4095 < (t + 1) * 4096" using assms by simp
  then have "cm_pages t < t + 1" unfolding cm_pages_def by (rule less_mult_imp_div_less)
  then show "cm_pages t \<le> t" by simp
  have "4 * t + 4095 < 4096 * cm_pages t + 4096"
    unfolding cm_pages_def using dividend_less_times_div [of 4096 "4 * t + 4095"] by simp
  then show "t \<le> 1024 * cm_pages t" by simp
qed

lemma coremap_bootstrap_eq:
  assumes first: "PAGE_SIZE dvd firstpaddr r" and lo: "firstpaddr r + PAGE_SIZE \<le> lastpaddr r"
    and hi: "lastpaddr r \<le> 508*1024*1024"
  defines "t \<equiv> (lastpaddr r - firstpaddr r) div PAGE_SIZE"
  shows "coremap_bootstrap junk r = Some (firstpaddr r + cm_pages t * PAGE_SIZE,
    \<lparr>coremap = replicate (t - cm_pages t) free_entry @ map junk [t - cm_pages t..<1024 * cm_pages t],
     cm_entries = t - cm_pages t, cm_lastentry = 0, freespace = firstpaddr r + cm_pages t * PAGE_SIZE\<rparr>,
    \<lparr>firstpaddr = 0, lastpaddr = 0\<rparr>)"
proof -
  obtain f where f: "firstpaddr r = PAGE_SIZE * f" using first by (rule dvdE)
  have t0: "0 < t" unfolding t_def using lo by (simp add: div_greater_zero_iff)
  note b = cm_pages_bounds [OF t0]
  have tl: "t * PAGE_SIZE \<le> lastpaddr r - firstpaddr r" unfolding t_def by simp
  have fit: "PAGE_SIZE * f + cm_pages t * PAGE_SIZE \<le> lastpaddr r"
    using tl b(2) f lo by (simp add: algebra_simps)
  have last: "lastpaddr r div PAGE_SIZE = f + t"
  proof -
    have "lastpaddr r = (lastpaddr r - firstpaddr r) + PAGE_SIZE * f" using f lo by simp
    then have "lastpaddr r div PAGE_SIZE = ((lastpaddr r - firstpaddr r) + PAGE_SIZE * f) div PAGE_SIZE" by simp
    also have "\<dots> = f + t" unfolding t_def by (subst div_mult_self2) simp_all
    finally show ?thesis .
  qed
  have sz: "roundUp (u32 (t * 4)) PAGE_SIZE = cm_pages t * PAGE_SIZE"
  proof -
    have "t * 4 + 4095 < 2 ^ 32" using tl hi by simp
    then show ?thesis by (simp add: roundUp_page cm_pages_def mult.commute [of t])
  qed
  have idx: "(firstpaddr r + cm_pages t * PAGE_SIZE) div PAGE_SIZE = f + cm_pages t"
    "(firstpaddr r + cm_pages t * PAGE_SIZE) mod PAGE_SIZE = 0" using f by simp_all
  have n: "usub (f + t) (f + cm_pages t) = t - cm_pages t"
    using b tl hi f lo by (subst usub_le) simp_all
  have init: "init_coremap (t - cm_pages t) 0 (map junk [0..<cm_pages t * PAGE_SIZE div 4]) =
      Some (replicate (t - cm_pages t) free_entry @ map junk [t - cm_pages t..<1024 * cm_pages t])"
    using b init_coremap_run [of 0 "t - cm_pages t" "map junk [0..<1024 * cm_pages t]"]
    by (simp add: drop_map mult.commute)
  have tp: "usub (lastpaddr r) (firstpaddr r) div PAGE_SIZE = t"
    using lo hi by (simp add: t_def)
  have fst: "u32 (firstpaddr r + cm_pages t * PAGE_SIZE) = firstpaddr r + cm_pages t * PAGE_SIZE"
    using fit f hi by (intro u32_id) simp
  show ?thesis
    by (simp only: coremap_bootstrap_def ram_getsize_def Option.bind.simps prod.case tp sz fst idx last n init
        simp_thms if_False)
qed

section \<open>Single pages as an allocator of slots\<close>

definition singles :: "seg list \<Rightarrow> bool" where
  "singles segs \<longleftrightarrow> (\<forall>x\<in>set segs. x = Hole \<or> (\<exists>k. x = Chunk 1 k))"

definition used_pages :: "cmap \<Rightarrow> nat set" where
  "used_pages m = {i. i < cm_entries m \<and> is_allocated (coremap m ! i)}"

definition singles_inv :: "cmap \<Rightarrow> bool" where
  "singles_inv m \<longleftrightarrow> (\<exists>segs. cm_rep m segs \<and> singles segs) \<and> (\<exists>c\<le>1. next_cnt m (cm_entries m) = Some c)"

text \<open>Taking one page, as \<^verbatim>\<open>page_alloc\<close> and \<^verbatim>\<open>alloc_kpages\<close> do between their lock operations.\<close>

definition take_page :: "bool \<Rightarrow> cmap \<Rightarrow> (nat option \<times> cmap) option" where
  "take_page iskern m = do {
     paddr \<leftarrow> getpaddr 1 m;
     if paddr = 0 then Some (None, m)
     else do { m' \<leftarrow> addtocoremap paddr 1 iskern m; Some (Some (getindex paddr m), m') }
   }"

lemma singles_Cons: "singles (x # xs) \<longleftrightarrow> (x = Hole \<or> (\<exists>k. x = Chunk 1 k)) \<and> singles xs"
  by (auto simp: singles_def)

lemma layout_singles: "singles segs \<Longrightarrow> length (layout segs) = length segs"
  by (induction segs) (auto simp: singles_Cons)

lemma layout_singles_nth:
  "singles segs \<Longrightarrow> i < length segs \<Longrightarrow> layout segs ! i = hd (seg_entries (segs ! i))"
proof (induction segs arbitrary: i)
  case (Cons x xs)
  then show ?case by (cases i) (auto simp: singles_Cons)
qed simp

lemma used_pages_rep:
  assumes "cm_rep m segs"
  shows "used_pages m = {i. i < length (layout segs) \<and> is_allocated (layout segs ! i)}"
proof -
  have "coremap m ! i = layout segs ! i" if "i < cm_entries m" for i
    using nth_take [OF that, of "coremap m"] assms by (simp add: cm_rep_def)
  then show ?thesis using cm_rep_length [OF assms] by (auto simp: used_pages_def)
qed

lemma used_pages_upd:
  assumes "cm_rep m (us @ x # vs)" "cm_rep m' (us @ y # vs)" "singles [x]" "singles [y]"
  shows "i \<noteq> length (layout us) \<Longrightarrow> i \<in> used_pages m' \<longleftrightarrow> i \<in> used_pages m"
    and "length (layout us) \<in> used_pages m \<longleftrightarrow> x \<noteq> Hole"
proof -
  obtain a b where a: "seg_entries x = [a]" "seg_entries y = [b]" "is_allocated a \<longleftrightarrow> x \<noteq> Hole"
    using assms(3,4) by (auto simp: singles_def)
  show "i \<in> used_pages m' \<longleftrightarrow> i \<in> used_pages m" if "i \<noteq> length (layout us)"
    using a that unfolding used_pages_rep [OF assms(1)] used_pages_rep [OF assms(2)]
    by (auto simp: nth_append nth_Cons split: nat.splits)
  show "length (layout us) \<in> used_pages m \<longleftrightarrow> x \<noteq> Hole"
    using a unfolding used_pages_rep [OF assms(1)] by (simp add: nth_append)
qed

lemma next_cnt_tail:
  "same_tail m m' \<Longrightarrow> next_cnt m (cm_entries m) = Some c \<Longrightarrow> next_cnt m' (cm_entries m') = Some c"
proof -
  assume t: "same_tail m m'" and c: "next_cnt m (cm_entries m) = Some c"
  then have "rd (drop (cm_entries m) (coremap m)) 0 = rd (drop (cm_entries m) (coremap m')) 0"
    by (simp add: same_tail_def)
  then have "rd (coremap m) (cm_entries m) = rd (coremap m') (cm_entries m)"
    by (auto simp: rd_def split: if_splits)
  then show ?thesis using t c by (simp add: next_cnt_def same_tail_def)
qed

lemma take_page_cases:
  assumes "cm_rep m segs"
  obtains (full) "take_page iskern m = Some (None, m)" "Hole \<notin> set segs" "getpaddr 1 m = Some 0"
  | (got) us vs m' where "segs = us @ Hole # vs" "take_page iskern m = Some (Some (length (layout us)), m')"
      "cm_rep m' (us @ Chunk 1 iskern # vs)" "same_tail m m'" "Hole \<notin> set us"
      "getpaddr 1 m = Some (page_addr m (length (layout us)))"
proof -
  have ok: "cm_ok m" using assms by (simp add: cm_rep_def)
  then have len: "cm_entries m \<le> length (coremap m)" by (simp add: cm_ok_def)
  from getpaddr_spec [OF len, of 1] consider
    (f) j where "fits m 1 j" "\<forall>j'<j. \<not> fits m 1 j'" "getpaddr 1 m = Some (indextopaddr j m)"
    | (n) "\<forall>j. \<not> fits m 1 j" "getpaddr 1 m = Some 0" by auto
  then show thesis
  proof cases
    case n
    have "Hole \<notin> set segs"
    proof
      assume "Hole \<in> set segs"
      then obtain us vs where "segs = us @ replicate 1 Hole @ vs" by (auto dest: split_list)
      with n(1) holes_fit assms show False by blast
    qed
    with n(2) show ?thesis by (intro full) (simp_all add: take_page_def)
  next
    case f
    obtain us vs where segs: "segs = us @ replicate 1 Hole @ vs" "length (layout us) = j"
      using fits_holes [OF assms _ f(1)] by auto
    have "Hole \<notin> set us"
    proof
      assume "Hole \<in> set us"
      then obtain us1 us2 where "us = us1 @ Hole # us2" by (auto dest: split_list)
      then have "fits m 1 (length (layout us1))" "length (layout us1) < j"
        using holes_fit [of m us1 1 "us2 @ replicate 1 Hole @ vs"] assms segs by auto
      with f(2) show False by blast
    qed
    moreover obtain m' where m': "addtocoremap (page_addr m j) (int 1) iskern m = Some m'"
        "cm_rep m' (us @ Chunk 1 iskern # vs)" "same_tail m m'"
      using addtocoremap_holes [of m us 1 vs iskern] assms segs by auto
    moreover have "j \<le> cm_entries m" using f(1) by (simp add: fits_def)
    then have "indextopaddr j m = page_addr m j" "getindex (page_addr m j) m = j" "page_addr m j \<noteq> 0"
      using ok by (simp_all add: indextopaddr_page getindex_page) (simp add: page_addr_def cm_ok_def)
    ultimately show ?thesis using f(3) segs by (intro got [of us vs m']) (simp_all add: take_page_def)
  qed
qed

lemma singles_one [simp]: "singles [Hole]" "singles [Chunk 1 k]"
  by (simp_all add: singles_def)

lemma singles_app: "singles (us @ vs) \<longleftrightarrow> singles us \<and> singles vs"
  by (auto simp: singles_def)

lemma used_single:
  assumes "cm_rep m segs" "singles segs" "i \<in> used_pages m"
  shows "\<exists>us k vs. segs = us @ Chunk 1 k # vs \<and> length (layout us) = i"
proof -
  have i: "i < length segs" "is_allocated (layout segs ! i)"
    using assms(3) layout_singles [OF assms(2)] by (simp_all add: used_pages_rep [OF assms(1)])
  then have "segs ! i \<noteq> Hole" using layout_singles_nth [OF assms(2)] by auto
  then obtain k where k: "segs ! i = Chunk 1 k" using assms(2) i by (auto simp: singles_def)
  have "segs = take i segs @ Chunk 1 k # drop (Suc i) segs" using i k by (metis id_take_nth_drop)
  moreover have "singles (take i segs)" using assms(2) by (auto simp: singles_def dest: in_set_takeD)
  then have "length (layout (take i segs)) = i" using layout_singles i by simp
  ultimately show ?thesis by blast
qed

lemma next_cnt_single:
  assumes "cm_rep m (us @ Chunk 1 k # vs)" "singles vs" "\<exists>c\<le>1. next_cnt m (cm_entries m) = Some c"
  shows "\<exists>c\<le>1. next_cnt m (length (layout us) + 1) = Some c"
proof (cases vs)
  case Nil
  then show ?thesis using assms(3) cm_rep_length [OF assms(1)] by simp
next
  case (Cons x xs)
  then obtain e where e: "seg_entries x = [e]" "chunk_cnt e \<le> 1"
    using assms(2) by (auto simp: singles_def)
  have "rd (coremap m) (length (layout us) + 1) = Some e"
    by (subst cm_rep_split [OF assms(1)]) (simp add: rd_def nth_append Cons e)
  then show ?thesis using e by (auto simp: next_cnt_def)
qed

interpretation pages: slot_allocator used_pages "\<lambda>m. {..<cm_entries m}" singles_inv "take_page iskern"
  "\<lambda>i m. removefromcoremap (page_addr m i) m" for iskern
proof unfold_locales
  fix m assume inv: "singles_inv m"
  then obtain segs where rep: "cm_rep m segs" "singles segs" and g: "\<exists>c\<le>1. next_cnt m (cm_entries m) = Some c"
    unfolding singles_inv_def by blast
  show "finite {..<cm_entries m}" by simp
  show sub: "used_pages m \<subseteq> {..<cm_entries m}" by (auto simp: used_pages_def)
  show "\<exists>r m'. take_page iskern m = Some (r, m')" using rep(1) by (cases rule: take_page_cases [where iskern = iskern]) auto
  show "i \<in> {..<cm_entries m} - used_pages m \<and> used_pages m' = insert i (used_pages m) \<and>
      {..<cm_entries m'} = {..<cm_entries m} \<and> singles_inv m'"
    if t: "take_page iskern m = Some (Some i, m')" for i m'
    using rep(1)
  proof (cases rule: take_page_cases [where iskern = iskern])
    case full
    with t show ?thesis by simp
  next
    case (got us vs m1)
    with t have i: "i = length (layout us)" and m': "m1 = m'" by simp_all
    have s: "singles [Hole]" "singles [Chunk 1 iskern]" by (rule singles_one)+
    have r: "cm_rep m (us @ Hole # vs)" using rep(1) got(1) by simp
    note u = used_pages_upd [OF r got(3) s] used_pages_upd(2) [OF got(3) r s(2,1)]
    have "x \<in> used_pages m' \<longleftrightarrow> x = i \<or> x \<in> used_pages m" for x
      using u(1) [of x] u(3) i m' by (cases "x = i") auto
    then have "used_pages m' = insert i (used_pages m)" by blast
    moreover have "i \<notin> used_pages m" using u(2) i by simp
    moreover have "i < cm_entries m" using i cm_rep_length [OF rep(1)] got(1) by simp
    moreover have "singles (us @ Chunk 1 iskern # vs)" using rep(2) got(1) by (auto simp: singles_def)
    then have "singles_inv m'"
      using got(3,4) m' g next_cnt_tail unfolding singles_inv_def by blast
    ultimately show ?thesis using got(4) m' by (simp add: same_tail_def)
  qed
  show "m' = m \<and> used_pages m = {..<cm_entries m}" if t: "take_page iskern m = Some (None, m')" for m'
    using rep(1)
  proof (cases rule: take_page_cases [where iskern = iskern])
    case full
    have "i \<in> used_pages m" if "i < cm_entries m" for i
    proof -
      have i: "i < length segs" using that cm_rep_length [OF rep(1)] layout_singles [OF rep(2)] by simp
      then obtain k where "segs ! i = Chunk 1 k" using rep(2) full(2) by (metis nth_mem singles_def)
      then show ?thesis
        using i layout_singles [OF rep(2)] layout_singles_nth [OF rep(2) i] by (simp add: used_pages_rep [OF rep(1)])
    qed
    with full t sub show ?thesis by auto
  next
    case got
    with t show ?thesis by simp
  qed
  show "\<exists>m'. removefromcoremap (page_addr m i) m = Some m' \<and> used_pages m' = used_pages m - {i} \<and>
      {..<cm_entries m'} = {..<cm_entries m} \<and> singles_inv m'" if i: "i \<in> used_pages m" for i
  proof -
    obtain us k vs where segs: "segs = us @ Chunk 1 k # vs" "length (layout us) = i"
      using used_single [OF rep i] by blast
    have r: "cm_rep m (us @ Chunk 1 k # vs)" and sv: "singles vs" "singles us"
      using rep segs by (simp_all add: singles_def)
    obtain c where c: "c \<le> 1" "next_cnt m (length (layout us) + 1) = Some c"
      using next_cnt_single [OF r sv(1) g] by blast
    obtain m' where m': "removefromcoremap (page_addr m i) m = Some m'" "cm_rep m' (us @ Hole # vs)" "same_tail m m'"
      using removefromcoremap_chunk [OF r c(2,1)] segs(2) by auto
    have s: "singles [Hole]" "singles [Chunk 1 k]" by (rule singles_one)+
    note u = used_pages_upd(1) [OF r m'(2) s(2,1)] used_pages_upd(2) [OF m'(2) r s]
    have "x \<in> used_pages m' \<longleftrightarrow> x \<noteq> i \<and> x \<in> used_pages m" for x
      using u(1) [of x] u(2) segs(2) by (cases "x = i") auto
    then have "used_pages m' = used_pages m - {i}" by blast
    moreover have "singles (us @ Hole # vs)" using sv by (auto simp: singles_def)
    then have "singles_inv m'" using m'(2,3) g next_cnt_tail unfolding singles_inv_def by blast
    ultimately show ?thesis using m' by (simp add: same_tail_def)
  qed
qed

text \<open>The same for the statements themselves.\<close>

lemma one_page:
  assumes "singles_inv m"
  obtains (full) "getpaddr 1 m = Some 0" "used_pages m = {..<cm_entries m}"
  | (got) j m' where "getpaddr 1 m = Some (page_addr m j)" "page_addr m j \<noteq> 0"
      "addtocoremap (page_addr m j) 1 iskern m = Some m'" "j < cm_entries m" "j \<notin> used_pages m"
      "used_pages m' = insert j (used_pages m)" "singles_inv m'" "cm_entries m' = cm_entries m" "freespace m' = freespace m"
proof -
  obtain segs where rep: "cm_rep m segs" using assms unfolding singles_inv_def by blast
  show thesis
    using rep
  proof (cases rule: take_page_cases [where iskern = iskern])
    case full
    then show ?thesis using pages.alloc_None [OF assms full(1)] that(1) by blast
  next
    case (got us vs m')
    let ?j = "length (layout us)"
    have nz: "page_addr m ?j \<noteq> 0"
      using page_addr_pos [of m] rep by (simp add: cm_rep_def)
    then have "addtocoremap (page_addr m ?j) 1 iskern m = Some m'"
      using got(2,6) by (auto simp: take_page_def split: bind_splits)
    then show ?thesis
      using that(2) [of ?j m'] pages.alloc_Some [OF assms got(2)] got(4,6) nz by (simp add: same_tail_def)
  qed
qed

lemma removefromcoremap_keeps:
  "removefromcoremap a m = Some m' \<Longrightarrow> freespace m' = freespace m \<and> cm_entries m' = cm_entries m"
  by (auto simp: removefromcoremap_def outcome_simps)

section \<open>Under the lock\<close>

definition pm_ok :: "pmem \<Rightarrow> bool" where
  "pm_ok p \<longleftrightarrow> lock_free (coremap_slock p) \<and> spl_ok (cur_spl p)"

definition locked :: "nat option \<Rightarrow> pmem \<Rightarrow> pmem" where
  "locked cpu p = p\<lparr>coremap_slock := held_by cpu (coremap_slock p), cur_spl := raised cpu (cur_spl p)\<rparr>"

lemma cm_lock_unlock [simp]:
  "pm_ok p \<Longrightarrow> cm_acquire cpu p = Some (locked cpu p)"
  "pm_ok p \<Longrightarrow> cm_release cpu ((locked cpu p)\<lparr>cm := m\<rparr>) = Some (p\<lparr>cm := m\<rparr>)"
  "pm_ok p \<Longrightarrow> cm_release cpu (locked cpu p) = Some p"
  by (simp_all add: pm_ok_def cm_acquire_def cm_release_def locked_def acquire_free release_held)

lemma cm_locked [simp]: "cm (locked cpu p) = cm p"
  by (simp add: locked_def)

lemma alloc_kpages_eq:
  assumes "pm_ok p" "getpaddr npages (cm p) = Some a"
  shows "alloc_kpages cpu npages p =
    (if a = 0 \<or> npages = 0 then Some (0, p)
     else map_option (\<lambda>m. (PADDR_TO_KVADDR a, p\<lparr>cm := m\<rparr>)) (addtocoremap a npages True (cm p)))"
  using assms by (simp add: alloc_kpages_def map_conv_bind_option comp_def)

lemma page_free_eq:
  "pm_ok p \<Longrightarrow> page_free cpu a p = map_option (\<lambda>m. p\<lparr>cm := m\<rparr>) (removefromcoremap a (cm p))"
  by (simp add: page_free_def map_conv_bind_option comp_def)

lemma free_kpages_eq:
  "pm_ok p \<Longrightarrow> free_kpages cpu v p = map_option (\<lambda>m. p\<lparr>cm := m\<rparr>) (removefromcoremap (KVADDR_TO_PADDR v) (cm p))"
  by (simp add: free_kpages_def map_conv_bind_option comp_def)

lemma page_addr_bounds:
  assumes "cm_rep m (us @ vs)"
  shows "0 < page_addr m (length (layout us))" "page_addr m (length (layout us)) \<le> 508*1024*1024"
  using assms cm_rep_length [OF assms] by (auto simp: page_addr_def cm_rep_def cm_ok_def)

lemma kvaddr_page:
  assumes "cm_rep m (us @ vs)"
  shows "PADDR_TO_KVADDR (page_addr m (length (layout us))) = page_addr m (length (layout us)) + MIPS_KSEG0"
    "KVADDR_TO_PADDR (page_addr m (length (layout us)) + MIPS_KSEG0) = page_addr m (length (layout us))"
  using page_addr_bounds [OF assms] by (simp_all add: PADDR_TO_KVADDR_def KVADDR_TO_PADDR_def)

section \<open>Properties\<close>

text \<open>A coremap of six pages holding a one-page user chunk and a three-page kernel chunk, for concrete runs.\<close>

definition cm_example :: cmap where
  "cm_example = \<lparr>coremap = layout [Chunk 1 False, Chunk 3 True, Hole, Hole] @ [free_entry],
     cm_entries = 6, cm_lastentry = 0, freespace = 40960\<rparr>"

definition pm_example :: pmem where
  "pm_example = \<lparr>cm = cm_example, coremap_slock = \<lparr>lk_lock = 0, lk_holder = None\<rparr>,
     cur_spl = \<lparr>t_iplhigh_count = 0, t_curspl = 0, irq = True\<rparr>\<rparr>"

lemma pm_example_ok:
  "pm_ok pm_example" "cm_rep (cm pm_example) [Chunk 1 False, Chunk 3 True, Hole, Hole]"
  "next_cnt (cm pm_example) 4 = Some 0"
proof -
  have c3: "seg_entries (Chunk 3 True) = [e, e, e]"
    if "e = \<lparr>chunk_cnt = 3, is_kern_page = True, is_allocated = True\<rparr>" for e
    using that by (simp add: numeral_3_eq_3)
  show "pm_ok pm_example" by (simp add: pm_example_def pm_ok_def lock_free_def spl_ok_def)
  show "cm_rep (cm pm_example) [Chunk 1 False, Chunk 3 True, Hole, Hole]"
    by (simp add: pm_example_def cm_example_def cm_rep_def cm_ok_def c3 del: seg_entries.simps(2))
      (simp add: dvd_def)
  show "next_cnt (cm pm_example) 4 = Some 0"
    by (simp add: pm_example_def cm_example_def next_cnt_def rd_def nth_append)
qed



text \<open>C5: \<^verbatim>\<open>alloc_kpages\<close> hands out the lowest run of \<open>npages\<close> free pages and marks exactly that run as one
  kernel chunk, leaving every other chunk alone; it returns 0 and changes nothing when no run is long enough or the
  request is not positive.  The lock is released and the interrupt level restored on both paths.\<close>

theorem alloc_kpages_first_fit:
  fixes npages :: int
  assumes "pm_ok p" "cm_rep (cm p) segs"
  defines "run \<equiv> \<lambda>us vs. segs = us @ replicate (nat npages) Hole @ vs"
  shows "if 0 < npages \<and> (\<exists>us vs. run us vs)
    then \<exists>us vs m'. run us vs \<and>
      (\<forall>us' vs'. run us' vs' \<longrightarrow> length (layout us) \<le> length (layout us')) \<and>
      alloc_kpages cpu npages p = Some (page_addr (cm p) (length (layout us)) + MIPS_KSEG0, p\<lparr>cm := m'\<rparr>) \<and>
      cm_rep m' (us @ Chunk (nat npages) True # vs) \<and> same_tail (cm p) m'
    else alloc_kpages cpu npages p = Some (0, p)"
proof -
  let ?m = "cm p" and ?n = "nat npages"
  have ok: "cm_ok ?m" and len: "cm_entries ?m \<le> length (coremap ?m)"
    using assms(2) by (simp_all add: cm_rep_def cm_ok_def)
  show ?thesis
  proof (cases "0 < npages")
    case False
    then have "getpaddr npages ?m = Some 0" unfolding getpaddr_def by (intro getpaddr_from_nonpos [OF len]) simp
    then show ?thesis using False alloc_kpages_eq [OF assms(1)] by simp
  next
    case True
    then have n: "int ?n = npages" "0 < ?n" by simp_all
    from getpaddr_spec [OF len n(2)] consider
      (f) j where "fits ?m ?n j" "\<forall>j'<j. \<not> fits ?m ?n j'" "getpaddr npages ?m = Some (indextopaddr j ?m)"
      | (none) "\<forall>j. \<not> fits ?m ?n j" "getpaddr npages ?m = Some 0" unfolding n(1) by auto
    then show ?thesis
    proof cases
      case none
      then have "\<not> (\<exists>us vs. run us vs)" using holes_fit assms(2) unfolding run_def by blast
      then show ?thesis using none(2) alloc_kpages_eq [OF assms(1)] by simp
    next
      case f
      obtain us vs where segs: "segs = us @ replicate ?n Hole @ vs" "length (layout us) = j"
        using fits_holes [OF assms(2) n(2) f(1)] by blast
      have r: "cm_rep ?m (us @ replicate ?n Hole @ vs)" using assms(2) segs by simp
      obtain m' where m': "addtocoremap (page_addr ?m j) npages True ?m = Some m'"
          "cm_rep m' (us @ Chunk ?n True # vs)" "same_tail ?m m'"
        using addtocoremap_holes [OF r n(2), of True] segs(2) n(1) by auto
      have "indextopaddr j ?m = page_addr ?m j"
        using f(1) by (intro indextopaddr_page [OF ok]) (simp add: fits_def)
      then have "alloc_kpages cpu npages p = Some (page_addr ?m j + MIPS_KSEG0, p\<lparr>cm := m'\<rparr>)"
        using alloc_kpages_eq [OF assms(1) f(3)] m'(1) page_addr_bounds(1) [OF r] kvaddr_page(1) [OF r] segs(2) True
        by simp
      moreover have "length (layout us) \<le> length (layout us')" if "run us' vs'" for us' vs'
        using f(2) holes_fit [of ?m us' ?n vs'] that assms(2) segs(2) unfolding run_def by (metis not_less)
      moreover have "run us vs" using segs(1) by (simp add: run_def)
      ultimately show ?thesis using True m'(2,3) segs(2) by auto
    qed
  qed
qed

theorem alloc_kpages_first_fit_witness:
  "\<exists>m'. alloc_kpages (Some 0) 2 pm_example = Some (page_addr cm_example 4 + MIPS_KSEG0, pm_example\<lparr>cm := m'\<rparr>) \<and>
    cm_rep m' [Chunk 1 False, Chunk 3 True, Chunk 2 True]"
proof -
  let ?segs = "[Chunk 1 False, Chunk 3 True, Hole, Hole]"
  have ex: "\<exists>us vs. ?segs = us @ replicate (nat 2) Hole @ vs"
    by (intro exI [of _ "[Chunk 1 False, Chunk 3 True]"] exI [of _ "[]"]) (simp add: numeral_2_eq_2)
  obtain us vs m' where *: "?segs = us @ replicate (nat 2) Hole @ vs"
      "alloc_kpages (Some 0) 2 pm_example = Some (page_addr (cm pm_example) (length (layout us)) + MIPS_KSEG0, pm_example\<lparr>cm := m'\<rparr>)"
      "cm_rep m' (us @ Chunk (nat 2) True # vs)"
    using alloc_kpages_first_fit [OF pm_example_ok(1,2), of 2 "Some 0"] ex by auto
  have "us = [Chunk 1 False, Chunk 3 True] \<and> vs = []"
    using *(1) by (cases us; cases "tl us"; cases "tl (tl us)"; cases "tl (tl (tl us))") (auto simp: numeral_2_eq_2)
  then show ?thesis using * by (simp add: pm_example_def)
qed

text \<open>C25: \<^verbatim>\<open>free_kpages\<close> and \<^verbatim>\<open>page_free\<close> turn the chunk at their address into free pages and touch nothing else,
  provided the entry that follows the chunk does not carry a larger count than the chunk.\<close>

theorem free_pages_exact:
  assumes "pm_ok p" "cm_rep (cm p) (us @ Chunk n k # vs)"
    "next_cnt (cm p) (length (layout us) + n) = Some c" "c \<le> n"
  shows "\<exists>m'. cm_rep m' (us @ replicate n Hole @ vs) \<and> same_tail (cm p) m' \<and>
    page_free cpu (page_addr (cm p) (length (layout us))) p = Some (p\<lparr>cm := m'\<rparr>) \<and>
    free_kpages cpu (page_addr (cm p) (length (layout us)) + MIPS_KSEG0) p = Some (p\<lparr>cm := m'\<rparr>)"
  using removefromcoremap_chunk [OF assms(2-4)] kvaddr_page(2) [OF assms(2)]
  by (auto simp: page_free_eq [OF assms(1)] free_kpages_eq [OF assms(1)])

theorem free_pages_exact_witness:
  "\<exists>m'. cm_rep m' [Chunk 1 False, Hole, Hole, Hole, Hole, Hole] \<and>
    free_kpages None (page_addr cm_example 1 + MIPS_KSEG0) pm_example = Some (pm_example\<lparr>cm := m'\<rparr>)"
proof -
  have r: "cm_rep (cm pm_example) ([Chunk 1 False] @ Chunk 3 True # [Hole, Hole])" using pm_example_ok(2) by simp
  have n: "next_cnt (cm pm_example) (length (layout [Chunk 1 False]) + 3) = Some 0" using pm_example_ok(3) by simp
  have h: "[Chunk 1 False] @ replicate 3 Hole @ [Hole, Hole] = [Chunk 1 False, Hole, Hole, Hole, Hole, Hole]"
    by (simp add: numeral_3_eq_3)
  have "cm pm_example = cm_example" by (simp add: pm_example_def)
  with free_pages_exact [OF pm_example_ok(1) r n, of None] show ?thesis unfolding h by auto
qed

text \<open>C26: when the chunk that follows is larger, freeing takes part of it along: of a neighbour with \<open>q\<close> pages the first
  \<open>q - n\<close> are marked free although their owner still has them, so that a later allocation can hand them out again.\<close>

theorem free_takes_neighbour:
  assumes "pm_ok p" "cm_rep (cm p) (us @ Chunk n k # Chunk q k' # vs)" "n < q"
  shows "\<exists>m'. page_free cpu (page_addr (cm p) (length (layout us))) p = Some (p\<lparr>cm := m'\<rparr>) \<and>
    take (cm_entries (cm p)) (coremap m') =
      layout us @ replicate q free_entry @ replicate n \<lparr>chunk_cnt = q, is_kern_page = k', is_allocated = True\<rparr> @ layout vs"
proof -
  let ?e = "\<lparr>chunk_cnt = q, is_kern_page = k', is_allocated = True\<rparr>"
  let ?t = "layout vs @ drop (cm_entries (cm p)) (coremap (cm p))"
  have n: "0 < n" using assms(2) by (simp add: cm_rep_def)
  have q: "replicate q ?e = replicate (q - n) ?e @ replicate n ?e" "replicate q free_entry = replicate n free_entry @ replicate (q - n) free_entry"
    using assms(3) by (simp_all flip: replicate_add)
  have "remove_loop n (length (layout us) + n) (layout us @ replicate n free_entry @ layout (Chunk q k' # vs) @ drop (cm_entries (cm p)) (coremap (cm p)))
      = remove_loop q (length (layout us @ replicate n free_entry) + (q - n))
          ((layout us @ replicate n free_entry) @ replicate (q - n) free_entry @ replicate n ?e @ ?t)"
    using remove_loop_run [of n "q - n" q "layout us @ replicate n free_entry" k' "replicate n ?e @ ?t"] assms(3)
    by (simp add: q(1) del: remove_loop.simps)
  also have "\<dots> = Some (layout us @ replicate q free_entry @ replicate n ?e @ ?t)"
    using n by (subst remove_loop_stop) (auto simp: nth_append q(2))
  finally have "removefromcoremap (page_addr (cm p) (length (layout us))) (cm p) =
      Some ((cm p)\<lparr>coremap := layout us @ replicate q free_entry @ replicate n ?e @ ?t\<rparr>)"
    using removefromcoremap_start [OF assms(2)] by simp
  moreover have "length (layout us) + q + n + length (layout vs) = cm_entries (cm p)"
    using cm_rep_length [OF assms(2)] by simp
  ultimately show ?thesis by (auto simp: page_free_eq [OF assms(1)])
qed

theorem free_takes_neighbour_witness:
  "\<exists>m'. page_free (Some 0) (page_addr cm_example 0) pm_example = Some (pm_example\<lparr>cm := m'\<rparr>) \<and>
    \<not> is_allocated (coremap m' ! 1) \<and> \<not> is_allocated (coremap m' ! 2)"
proof -
  obtain m' where m': "page_free (Some 0) (page_addr cm_example 0) pm_example = Some (pm_example\<lparr>cm := m'\<rparr>)"
      "take 6 (coremap m') = replicate 3 free_entry @ [\<lparr>chunk_cnt = 3, is_kern_page = True, is_allocated = True\<rparr>, free_entry, free_entry]"
    using free_takes_neighbour [OF pm_example_ok(1), of "[]" 1 False 3 True "[Hole, Hole]" "Some 0"] pm_example_ok(2)
    by (auto simp: pm_example_def cm_example_def)
  have "coremap m' ! 1 = take 6 (coremap m') ! 1" "coremap m' ! 2 = take 6 (coremap m') ! 2" by simp_all
  then show ?thesis using m' by (auto simp: nth_append)
qed

text \<open>While only single pages are in use, asking for \<open>n\<close> pages hands out distinct free pages and stops short only
  when every page is taken; each of them can then be returned.\<close>

theorem user_pages_distinct:
  assumes "singles_inv m"
  shows "\<exists>xs m'. alloc_n (take_page False) n m = Some (xs, m') \<and> singles_inv m' \<and> distinct xs \<and>
    set xs \<subseteq> {..<cm_entries m} - used_pages m \<and> used_pages m' = used_pages m \<union> set xs \<and>
    (length xs < n \<longrightarrow> used_pages m' = {..<cm_entries m}) \<and>
    (\<forall>i\<in>set xs. \<exists>m''. removefromcoremap (page_addr m' i) m' = Some m'' \<and> used_pages m'' = used_pages m' - {i})"
proof -
  obtain xs m' where *: "alloc_n (take_page False) n m = Some (xs, m')" "singles_inv m'" "distinct xs"
      "set xs \<subseteq> {..<cm_entries m} - used_pages m" "used_pages m' = used_pages m \<union> set xs"
      "length xs < n \<longrightarrow> used_pages m' = {..<cm_entries m}"
    using pages.alloc_n_ok [OF assms, of False n] by blast
  then have "\<exists>m''. removefromcoremap (page_addr m' i) m' = Some m'' \<and> used_pages m'' = used_pages m' - {i}"
    if "i \<in> set xs" for i
    using pages.free_used [OF *(2), of i] that by blast
  with * show ?thesis by blast
qed

definition cm_empty3 :: cmap where
  "cm_empty3 = \<lparr>coremap = replicate 4 free_entry, cm_entries = 3, cm_lastentry = 0, freespace = 4096\<rparr>"

lemma cm_empty3_ok: "singles_inv cm_empty3" "used_pages cm_empty3 = {}"
proof -
  have "take 3 (replicate 4 free_entry) = layout [Hole, Hole, Hole]" by (simp add: numeral_eq_Suc)
  then have "cm_rep cm_empty3 [Hole, Hole, Hole]" by (simp add: cm_rep_def cm_ok_def cm_empty3_def)
  moreover have "next_cnt cm_empty3 (cm_entries cm_empty3) = Some 0"
    by (simp add: next_cnt_def cm_empty3_def rd_def)
  ultimately show "singles_inv cm_empty3" unfolding singles_inv_def by (force simp: singles_def)
  show "used_pages cm_empty3 = {}" by (auto simp: used_pages_def cm_empty3_def)
qed

theorem user_pages_distinct_witness:
  "\<exists>xs m'. alloc_n (take_page False) 5 cm_empty3 = Some (xs, m') \<and> distinct xs \<and> set xs \<subseteq> {..<3}"
  using user_pages_distinct [OF cm_empty3_ok(1), of 5] by (auto simp: cm_empty3_def)

end
