(* ===== verification/Tlb_Ipi.thy ===== *)
theory Tlb_Ipi
  imports Spinlock
begin

text \<open>
  The translation lookaside buffer and the interprocessor interrupts that keep the buffers of all CPUs consistent:
  \<^verbatim>\<open>vm_tlbshootdown_all\<close>, \<^verbatim>\<open>vm_tlbshootdown\<close> and \<^verbatim>\<open>as_activate\<close> of \<^verbatim>\<open>kern/vm/addrspace.c\<close>, and the IPI section of
  \<^verbatim>\<open>kern/thread/thread.c\<close>.  The CPUs are the array \<^verbatim>\<open>allcpus\<close>; an operation runs on CPU \<open>curcpu\<close>.  The line that
  \<^verbatim>\<open>mainbus_send_ipi\<close> raises on the target is a field of the CPU.
\<close>

section \<open>State\<close>

type_synonym tlb_entry = "u32 \<times> u32"

record cpu =
  c_tlb :: "tlb_entry list"
  c_isidle :: bool
  c_runqueue_lock :: spinlock
  c_ipi_pending :: u32
  c_shootdown :: "(nat \<times> nat) list"
  c_numshootdown :: int
  c_ipi_lock :: spinlock
  c_ipi_line :: bool

record mp =
  allcpus :: "cpu list"
  curcpu :: nat
  cpu_spl :: spl

abbreviation (input) NUM_TLB :: nat where "NUM_TLB \<equiv> 64"
abbreviation (input) TLBSHOOTDOWN_MAX :: int where "TLBSHOOTDOWN_MAX \<equiv> 16"
abbreviation (input) TLBSHOOTDOWN_ALL :: int where "TLBSHOOTDOWN_ALL \<equiv> - 1"
abbreviation (input) IPI_PANIC :: nat where "IPI_PANIC \<equiv> 0"
abbreviation (input) IPI_OFFLINE :: nat where "IPI_OFFLINE \<equiv> 1"
abbreviation (input) IPI_UNIDLE :: nat where "IPI_UNIDLE \<equiv> 2"
abbreviation (input) IPI_TLBSHOOTDOWN :: nat where "IPI_TLBSHOOTDOWN \<equiv> 3"

definition TLBLO_VALID :: u32 where "TLBLO_VALID = 0x200"
definition TLBLO_DIRTY :: u32 where "TLBLO_DIRTY = 0x400"

definition TLBHI_INVALID :: "nat \<Rightarrow> u32" where
  "TLBHI_INVALID entryno = push_bit 12 (0x80000 + of_nat entryno)"

definition TLBLO_INVALID :: u32 where
  "TLBLO_INVALID = 0"

section \<open>The buffer of the current CPU\<close>

definition get_cpu :: "nat \<Rightarrow> mp \<Rightarrow> cpu option" where
  "get_cpu i m = rd (allcpus m) i"

definition put_cpu :: "nat \<Rightarrow> cpu \<Rightarrow> mp \<Rightarrow> mp" where
  "put_cpu i c m = m\<lparr>allcpus := (allcpus m)[i := c]\<rparr>"

definition tlb_write :: "u32 \<Rightarrow> u32 \<Rightarrow> nat \<Rightarrow> mp \<Rightarrow> mp option" where
  "tlb_write ehi elo i m = do {
     c \<leftarrow> get_cpu (curcpu m) m;
     t \<leftarrow> wr (c_tlb c) i (ehi, elo);
     Some (put_cpu (curcpu m) (c\<lparr>c_tlb := t\<rparr>) m)
   }"

definition tlb_read :: "nat \<Rightarrow> mp \<Rightarrow> tlb_entry option" where
  "tlb_read i m = do { c \<leftarrow> get_cpu (curcpu m) m; rd (c_tlb c) i }"

text \<open>\<open>slot\<close> is the entry the processor picks.\<close>

definition tlb_random :: "nat \<Rightarrow> u32 \<Rightarrow> u32 \<Rightarrow> mp \<Rightarrow> mp option" where
  "tlb_random slot ehi elo m = tlb_write ehi elo (slot mod NUM_TLB) m"

definition raise_spl :: "mp \<Rightarrow> (int \<times> mp) option" where
  "raise_spl m = do { (r, s) \<leftarrow> splhigh (Some (curcpu m)) (cpu_spl m); Some (r, m\<lparr>cpu_spl := s\<rparr>) }"

definition restore_spl :: "int \<Rightarrow> mp \<Rightarrow> mp option" where
  "restore_spl r m = do { (_, s) \<leftarrow> splx (Some (curcpu m)) r (cpu_spl m); Some (m\<lparr>cpu_spl := s\<rparr>) }"

fun invalidate_from :: "nat \<Rightarrow> nat \<Rightarrow> mp \<Rightarrow> mp option" where
  "invalidate_from 0 i m = Some m"
| "invalidate_from (Suc left) i m = do {
     m \<leftarrow> tlb_write (TLBHI_INVALID i) TLBLO_INVALID i m;
     invalidate_from left (i + 1) m
   }"

definition vm_tlbshootdown_all :: "mp \<Rightarrow> mp option" where
  "vm_tlbshootdown_all m = do {
     (spl, m) \<leftarrow> raise_spl m;
     m \<leftarrow> invalidate_from NUM_TLB 0 m;
     restore_spl spl m
   }"

definition vm_tlbshootdown :: "nat \<times> nat \<Rightarrow> mp \<Rightarrow> mp option" where
  "vm_tlbshootdown ts m = None"

section \<open>Interprocessor interrupts\<close>

definition ipi_lock :: "nat \<Rightarrow> mp \<Rightarrow> mp option" where
  "ipi_lock target m = do {
     c \<leftarrow> get_cpu target m;
     (lk, s) \<leftarrow> spinlock_acquire 0 (Some (curcpu m)) (c_ipi_lock c) (cpu_spl m);
     Some ((put_cpu target (c\<lparr>c_ipi_lock := lk\<rparr>) m)\<lparr>cpu_spl := s\<rparr>)
   }"

definition ipi_unlock :: "nat \<Rightarrow> mp \<Rightarrow> mp option" where
  "ipi_unlock target m = do {
     c \<leftarrow> get_cpu target m;
     (lk, s) \<leftarrow> spinlock_release (Some (curcpu m)) (c_ipi_lock c) (cpu_spl m);
     Some ((put_cpu target (c\<lparr>c_ipi_lock := lk\<rparr>) m)\<lparr>cpu_spl := s\<rparr>)
   }"

definition ipi_send :: "nat \<Rightarrow> nat \<Rightarrow> mp \<Rightarrow> mp option" where
  "ipi_send target code m = do {
     KASSERT (code < 32);
     m \<leftarrow> ipi_lock target m;
     c \<leftarrow> get_cpu target m;
     m \<leftarrow> Some (put_cpu target (c\<lparr>c_ipi_pending := c_ipi_pending c OR push_bit code 1, c_ipi_line := True\<rparr>) m);
     ipi_unlock target m
   }"

fun ipi_broadcast_from :: "nat \<Rightarrow> nat \<Rightarrow> nat \<Rightarrow> mp \<Rightarrow> mp option" where
  "ipi_broadcast_from 0 i code m = Some m"
| "ipi_broadcast_from (Suc left) i code m = do {
     m \<leftarrow> (if i \<noteq> curcpu m then ipi_send i code m else Some m);
     ipi_broadcast_from left (i + 1) code m
   }"

definition ipi_broadcast :: "nat \<Rightarrow> mp \<Rightarrow> mp option" where
  "ipi_broadcast code m = ipi_broadcast_from (length (allcpus m)) 0 code m"

fun tlb_broadcast_from :: "nat \<Rightarrow> nat \<Rightarrow> mp \<Rightarrow> mp option" where
  "tlb_broadcast_from 0 i m = Some m"
| "tlb_broadcast_from (Suc left) i m = do {
     m \<leftarrow> (if i \<noteq> curcpu m then do {
             c \<leftarrow> get_cpu i m;
             m \<leftarrow> Some (put_cpu i (c\<lparr>c_numshootdown := TLBSHOOTDOWN_ALL\<rparr>) m);
             ipi_send i 3 m
           }
           else Some m);
     tlb_broadcast_from left (i + 1) m
   }"

definition tlb_broadcast :: "mp \<Rightarrow> mp option" where
  "tlb_broadcast m = tlb_broadcast_from (length (allcpus m)) 0 m"

text \<open>A negative index into \<^verbatim>\<open>c_shootdown\<close> is outside the array, as is one from 16 on.\<close>

definition ipi_tlbshootdown :: "nat \<Rightarrow> nat \<times> nat \<Rightarrow> mp \<Rightarrow> mp option" where
  "ipi_tlbshootdown target mapping m = do {
     m \<leftarrow> ipi_lock target m;
     c \<leftarrow> get_cpu target m;
     n \<leftarrow> Some (c_numshootdown c);
     c \<leftarrow> (if n = TLBSHOOTDOWN_MAX then Some (c\<lparr>c_numshootdown := TLBSHOOTDOWN_ALL\<rparr>)
           else do {
             KASSERT (0 \<le> n);
             q \<leftarrow> wr (c_shootdown c) (nat n) mapping;
             Some (c\<lparr>c_shootdown := q, c_numshootdown := n + 1\<rparr>)
           });
     m \<leftarrow> Some (put_cpu target (c\<lparr>c_ipi_pending := c_ipi_pending c OR push_bit IPI_TLBSHOOTDOWN 1, c_ipi_line := True\<rparr>) m);
     ipi_unlock target m
   }"

fun shootdown_each :: "(nat \<times> nat) list \<Rightarrow> mp \<Rightarrow> mp option" where
  "shootdown_each [] m = Some m"
| "shootdown_each (ts # q) m = do { m \<leftarrow> vm_tlbshootdown ts m; shootdown_each q m }"

text \<open>\<^verbatim>\<open>cpu_halt\<close> does not return.  The loop over the queue reads \<open>c_numshootdown\<close> entries of it.\<close>

definition interprocessor_interrupt :: "mp \<Rightarrow> mp option" where
  "interprocessor_interrupt m = do {
     me \<leftarrow> Some (curcpu m);
     m \<leftarrow> ipi_lock me m;
     c \<leftarrow> get_cpu me m;
     bits \<leftarrow> Some (c_ipi_pending c);
     KASSERT (\<not> bit bits IPI_PANIC);
     KASSERT (\<not> bit bits IPI_OFFLINE);
     m \<leftarrow> (if bit bits IPI_TLBSHOOTDOWN then do {
             m \<leftarrow> (if c_numshootdown c = TLBSHOOTDOWN_ALL then vm_tlbshootdown_all m
                   else do {
                     KASSERT (nat (c_numshootdown c) \<le> length (c_shootdown c));
                     shootdown_each (take (nat (c_numshootdown c)) (c_shootdown c)) m
                   });
             c \<leftarrow> get_cpu me m;
             Some (put_cpu me (c\<lparr>c_numshootdown := 0\<rparr>) m)
           }
           else Some m);
     c \<leftarrow> get_cpu me m;
     m \<leftarrow> Some (put_cpu me (c\<lparr>c_ipi_pending := 0\<rparr>) m);
     ipi_unlock me m
   }"

definition as_activate :: "mp \<Rightarrow> mp option" where
  "as_activate m = do {
     (spl, m) \<leftarrow> raise_spl m;
     m \<leftarrow> invalidate_from NUM_TLB 0 m;
     m \<leftarrow> tlb_broadcast m;
     restore_spl spl m
   }"

section \<open>Lemmas\<close>

definition spl_good :: "spl \<Rightarrow> bool" where
  "spl_good s \<longleftrightarrow> spl_ok s \<and> (t_curspl s = 0 \<or> t_curspl s = 1 \<and> 0 < t_iplhigh_count s)"

definition hi :: "spl \<Rightarrow> spl" where
  "hi s = (if t_curspl s = 1 then s
     else s\<lparr>t_iplhigh_count := t_iplhigh_count s + 1, t_curspl := 1, irq := False\<rparr>)"

lemma hi_good [simp]: "spl_good s \<Longrightarrow> spl_good (hi s)"
  by (auto simp: spl_good_def spl_ok_def hi_def)

lemma spl_good_ok [simp]: "spl_good s \<Longrightarrow> spl_ok s"
  by (simp add: spl_good_def)

lemma raise_spl_eq:
  "spl_good (cpu_spl m) \<Longrightarrow> raise_spl m = Some (t_curspl (cpu_spl m), m\<lparr>cpu_spl := hi (cpu_spl m)\<rparr>)"
  by (auto simp: raise_spl_def splhigh_def splx_def splraise_def spl_good_def spl_ok_def hi_def)

lemma restore_spl_eq:
  "spl_good s \<Longrightarrow> cpu_spl m = hi s \<Longrightarrow> restore_spl (t_curspl s) m = Some (m\<lparr>cpu_spl := s\<rparr>)"
  by (auto simp: restore_spl_def splx_def spllower_def spl_good_def spl_ok_def hi_def)

lemma put_cpu_fields [simp]:
  "curcpu (put_cpu i c m) = curcpu m" "cpu_spl (put_cpu i c m) = cpu_spl m"
  "allcpus (put_cpu i c m) = (allcpus m)[i := c]"
  "put_cpu i c (put_cpu i d m) = put_cpu i c m"
  "put_cpu i c (m\<lparr>cpu_spl := s\<rparr>) = (put_cpu i c m)\<lparr>cpu_spl := s\<rparr>"
  by (simp_all add: put_cpu_def)

lemma get_cpu_eq: "i < length (allcpus m) \<Longrightarrow> get_cpu i m = Some (allcpus m ! i)"
  by (simp add: get_cpu_def)

lemma put_cpu_same [simp]: "put_cpu i (allcpus m ! i) m = m"
  by (simp add: put_cpu_def)

definition inv_entry :: "nat \<Rightarrow> tlb_entry" where
  "inv_entry i = (TLBHI_INVALID i, TLBLO_INVALID)"

definition flushed :: "cpu \<Rightarrow> cpu" where
  "flushed c = c\<lparr>c_tlb := map inv_entry [0..<NUM_TLB]\<rparr>"

lemma invalidate_from_eq:
  "curcpu m < length (allcpus m) \<Longrightarrow> i + k \<le> length (c_tlb (allcpus m ! curcpu m)) \<Longrightarrow>
   invalidate_from k i m = Some (put_cpu (curcpu m) ((allcpus m ! curcpu m)\<lparr>c_tlb :=
     take i (c_tlb (allcpus m ! curcpu m)) @ map inv_entry [i..<i + k] @
     drop (i + k) (c_tlb (allcpus m ! curcpu m))\<rparr>) m)"
proof (induction k arbitrary: i m)
  case (Suc k)
  let ?c = "allcpus m ! curcpu m"
  let ?m = "put_cpu (curcpu m) (?c\<lparr>c_tlb := (c_tlb ?c)[i := inv_entry i]\<rparr>) m"
  have "tlb_write (TLBHI_INVALID i) TLBLO_INVALID i m = Some ?m"
    using Suc.prems by (simp add: tlb_write_def get_cpu_eq inv_entry_def)
  moreover have "invalidate_from k (i + 1) ?m = Some (put_cpu (curcpu m) (?c\<lparr>c_tlb :=
      take (i + 1) ((c_tlb ?c)[i := inv_entry i]) @ map inv_entry [i + 1..<i + 1 + k] @
      drop (i + 1 + k) ((c_tlb ?c)[i := inv_entry i])\<rparr>) m)"
    using Suc.IH [of ?m "i + 1"] Suc.prems by simp
  moreover have "take (i + 1) ((c_tlb ?c)[i := inv_entry i]) @ map inv_entry [i + 1..<i + 1 + k] @
      drop (i + 1 + k) ((c_tlb ?c)[i := inv_entry i]) =
      take i (c_tlb ?c) @ map inv_entry [i..<i + Suc k] @ drop (i + Suc k) (c_tlb ?c)"
    using Suc.prems by (simp add: take_Suc_conv_app_nth upt_conv_Cons del: upt_Suc)
  ultimately show ?case by (simp only: invalidate_from.simps Option.bind.simps)
qed simp

definition mp_ok :: "mp \<Rightarrow> bool" where
  "mp_ok m \<longleftrightarrow> curcpu m < length (allcpus m) \<and> spl_good (cpu_spl m) \<and>
     (\<forall>c\<in>set (allcpus m). length (c_tlb c) = NUM_TLB \<and> length (c_shootdown c) = 16 \<and> lock_free (c_ipi_lock c))"

lemma mp_ok_cpu:
  assumes "mp_ok m" "i < length (allcpus m)"
  shows "length (c_tlb (allcpus m ! i)) = NUM_TLB" "length (c_shootdown (allcpus m ! i)) = 16"
    "lock_free (c_ipi_lock (allcpus m ! i))"
  using assms by (auto simp: mp_ok_def)

lemma invalidate_all:
  assumes "curcpu m < length (allcpus m)" "length (c_tlb (allcpus m ! curcpu m)) = NUM_TLB"
  shows "invalidate_from NUM_TLB 0 m = Some (put_cpu (curcpu m) (flushed (allcpus m ! curcpu m)) m)"
  using invalidate_from_eq [of m 0 NUM_TLB] assms by (simp add: flushed_def del: upt_Suc upt_rec_numeral)

lemma vm_tlbshootdown_all_eq:
  assumes "curcpu m < length (allcpus m)" "length (c_tlb (allcpus m ! curcpu m)) = NUM_TLB"
    "spl_good (cpu_spl m)"
  shows "vm_tlbshootdown_all m = Some (put_cpu (curcpu m) (flushed (allcpus m ! curcpu m)) m)"
proof -
  let ?m = "m\<lparr>cpu_spl := hi (cpu_spl m)\<rparr>"
  have "invalidate_from NUM_TLB 0 ?m = Some (put_cpu (curcpu m) (flushed (allcpus m ! curcpu m)) ?m)"
    using invalidate_all [of ?m] assms by simp
  moreover have "restore_spl (t_curspl (cpu_spl m)) (put_cpu (curcpu m) (flushed (allcpus m ! curcpu m)) ?m) =
      Some (put_cpu (curcpu m) (flushed (allcpus m ! curcpu m)) m)"
    by (subst restore_spl_eq [OF assms(3)]) simp_all
  ultimately show ?thesis using raise_spl_eq [OF assms(3)] by (simp add: vm_tlbshootdown_all_def del: put_cpu_fields(5))
qed

text \<open>Work on CPU \<open>t\<close> under its IPI lock, the lock given back at the end.\<close>

lemma under_ipi_lock:
  assumes "t < length (allcpus m)" "lock_free (c_ipi_lock (allcpus m ! t))" "spl_ok (cpu_spl m)"
  defines "c \<equiv> allcpus m ! t" and "me \<equiv> Some (curcpu m)"
  defines "lm \<equiv> (put_cpu t (c\<lparr>c_ipi_lock := held_by me (c_ipi_lock c)\<rparr>) m)\<lparr>cpu_spl := raised me (cpu_spl m)\<rparr>"
  shows "ipi_lock t m = Some lm"
    and "c_ipi_lock d = held_by me (c_ipi_lock c) \<Longrightarrow>
      ipi_unlock t (put_cpu t d lm) = Some (put_cpu t (d\<lparr>c_ipi_lock := c_ipi_lock c\<rparr>) m)"
  using assms(1-3) by (simp_all add: ipi_lock_def ipi_unlock_def get_cpu_eq acquire_free release_held lm_def me_def c_def)

definition notify :: "nat \<Rightarrow> cpu \<Rightarrow> cpu" where
  "notify code c = c\<lparr>c_ipi_pending := c_ipi_pending c OR push_bit code 1, c_ipi_line := True\<rparr>"

lemma locked_cpu:
  "t < length (allcpus m) \<Longrightarrow> get_cpu t ((put_cpu t c m)\<lparr>cpu_spl := s\<rparr>) = Some c"
  by (simp add: get_cpu_def)

lemma ipi_send_eq:
  assumes "t < length (allcpus m)" "lock_free (c_ipi_lock (allcpus m ! t))" "spl_ok (cpu_spl m)" "code < 32"
  shows "ipi_send t code m = Some (put_cpu t (notify code (allcpus m ! t)) m)"
proof -
  note u = under_ipi_lock [OF assms(1-3)]
  show ?thesis
    unfolding ipi_send_def u(1) Option.bind.simps locked_cpu [OF assms(1)]
    by (subst u(2)) (simp_all add: assms(4) notify_def)
qed

definition flush_request :: "cpu \<Rightarrow> cpu" where
  "flush_request c = notify IPI_TLBSHOOTDOWN (c\<lparr>c_numshootdown := TLBSHOOTDOWN_ALL\<rparr>)"

lemma tlb_broadcast_from_eq:
  assumes "mp_ok m" "i + left \<le> length (allcpus m)"
  shows "\<exists>m'. tlb_broadcast_from left i m = Some m' \<and> curcpu m' = curcpu m \<and> cpu_spl m' = cpu_spl m \<and>
    length (allcpus m') = length (allcpus m) \<and>
    (\<forall>j<length (allcpus m). allcpus m' ! j =
       (if i \<le> j \<and> j < i + left \<and> j \<noteq> curcpu m then flush_request (allcpus m ! j) else allcpus m ! j))"
  using assms
proof (induction left arbitrary: i m)
  case (Suc left)
  let ?m1 = "if i \<noteq> curcpu m then put_cpu i (flush_request (allcpus m ! i)) m else m"
  have i: "i < length (allcpus m)" using Suc.prems by simp
  note c = mp_ok_cpu [OF Suc.prems(1) i]
  have "(if i \<noteq> curcpu m then do {
             c \<leftarrow> get_cpu i m;
             m \<leftarrow> Some (put_cpu i (c\<lparr>c_numshootdown := TLBSHOOTDOWN_ALL\<rparr>) m);
             ipi_send i 3 m
           } else Some m) = Some ?m1"
    using i c Suc.prems(1)
    by (simp add: get_cpu_eq) (subst ipi_send_eq; simp add: flush_request_def mp_ok_def)
  moreover have "mp_ok ?m1"
    using Suc.prems(1) c i
    by (auto simp: mp_ok_def flush_request_def notify_def dest!: set_update_subset_insert [THEN subsetD])
  moreover have "i + 1 + left \<le> length (allcpus ?m1)" using Suc.prems(2) by simp
  ultimately obtain m' where m': "tlb_broadcast_from (Suc left) i m = Some m'"
      "curcpu m' = curcpu ?m1" "cpu_spl m' = cpu_spl ?m1" "length (allcpus m') = length (allcpus ?m1)"
      "\<forall>j<length (allcpus ?m1). allcpus m' ! j = (if i + 1 \<le> j \<and> j < i + 1 + left \<and> j \<noteq> curcpu ?m1
          then flush_request (allcpus ?m1 ! j) else allcpus ?m1 ! j)"
    using Suc.IH [of ?m1 "i + 1"] by (simp only: tlb_broadcast_from.simps Option.bind.simps) blast
  have "allcpus m' ! j = (if i \<le> j \<and> j < i + Suc left \<and> j \<noteq> curcpu m
      then flush_request (allcpus m ! j) else allcpus m ! j)" if "j < length (allcpus m)" for j
    using m'(5) that i by (cases "j = i"; cases "i = curcpu m") auto
  with m' show ?case by (intro exI [of _ m']) (simp del: tlb_broadcast_from.simps)
qed auto

text \<open>What the target does with the request.\<close>

lemma interrupt_flushes:
  assumes "mp_ok m" "c_numshootdown (allcpus m ! curcpu m) = TLBSHOOTDOWN_ALL"
    "bit (c_ipi_pending (allcpus m ! curcpu m)) IPI_TLBSHOOTDOWN"
    "\<not> bit (c_ipi_pending (allcpus m ! curcpu m)) IPI_PANIC" "\<not> bit (c_ipi_pending (allcpus m ! curcpu m)) IPI_OFFLINE"
  shows "interprocessor_interrupt m = Some (put_cpu (curcpu m)
    ((flushed (allcpus m ! curcpu m))\<lparr>c_numshootdown := 0, c_ipi_pending := 0\<rparr>) m)"
proof -
  let ?me = "curcpu m" and ?c = "allcpus m ! curcpu m"
  have i: "?me < length (allcpus m)" and g: "spl_good (cpu_spl m)" using assms(1) by (simp_all add: mp_ok_def)
  note c = mp_ok_cpu [OF assms(1) i]
  note u = under_ipi_lock [OF i c(3) spl_good_ok [OF g]]
  let ?lc = "?c\<lparr>c_ipi_lock := held_by (Some ?me) (c_ipi_lock ?c)\<rparr>"
  let ?lm = "(put_cpu ?me ?lc m)\<lparr>cpu_spl := raised (Some ?me) (cpu_spl m)\<rparr>"
  have gr: "spl_good (raised (Some ?me) (cpu_spl m))"
    using g by (auto simp: spl_good_def spl_ok_def raised_def)
  have fl: "vm_tlbshootdown_all ?lm = Some (put_cpu ?me (flushed ?lc) ?lm)"
    using vm_tlbshootdown_all_eq [of ?lm] i c(1) gr by simp
  show ?thesis
    unfolding interprocessor_interrupt_def Option.bind.simps u(1) locked_cpu [OF i]
    using assms(2-5) fl i
    by (simp add: get_cpu_def u(2) flushed_def del: put_cpu_fields(5) upt_Suc upt_rec_numeral)
qed

lemma unat_TLBHI_INVALID:
  assumes "i < 64"
  shows "unat (TLBHI_INVALID i) = (0x80000 + i) * 4096"
proof -
  have "TLBHI_INVALID i = of_nat ((0x80000 + i) * 4096)"
    by (simp add: TLBHI_INVALID_def push_bit_eq_mult)
  then show ?thesis using assms by (simp only: unat_of_nat) simp
qed

lemma TLBHI_INVALID_64:
  "list_all (\<lambda>i. 0x80000000 \<le> TLBHI_INVALID i) [0..<64]" "distinct (map TLBHI_INVALID [0..<64])"
proof -
  show "list_all (\<lambda>i. 0x80000000 \<le> TLBHI_INVALID i) [0..<64]"
    by (auto simp: list_all_iff word_le_nat_alt unat_TLBHI_INVALID)
  have "inj_on TLBHI_INVALID {0..<64}"
    by (rule inj_onI) (metis atLeastLessThan_iff unat_TLBHI_INVALID add_left_cancel mult_right_cancel zero_neq_numeral)
  then show "distinct (map TLBHI_INVALID [0..<64])" by (simp add: distinct_map)
qed

lemma flushed_entries:
  "(\<forall>e\<in>set (c_tlb (flushed c)). snd e AND TLBLO_VALID = 0 \<and> 0x80000000 \<le> fst e) \<and>
   distinct (map fst (c_tlb (flushed c)))"
proof -
  have "fst \<circ> inv_entry = TLBHI_INVALID" by (auto simp: inv_entry_def)
  then show ?thesis
    using TLBHI_INVALID_64 by (simp add: flushed_def inv_entry_def TLBLO_INVALID_def list_all_iff)
qed

definition no_translation :: "cpu \<Rightarrow> bool" where
  "no_translation c \<longleftrightarrow> (\<forall>e\<in>set (c_tlb c). snd e AND TLBLO_VALID = 0 \<and> 0x80000000 \<le> fst e) \<and>
     distinct (map fst (c_tlb c))"

lemma flushed_no_translation [simp]: "no_translation (flushed c)"
  using flushed_entries [of c] by (simp add: no_translation_def)

lemma as_activate_eq:
  assumes "mp_ok m"
  shows "\<exists>m'. as_activate m = Some m' \<and> curcpu m' = curcpu m \<and> cpu_spl m' = cpu_spl m \<and>
    length (allcpus m') = length (allcpus m) \<and>
    (\<forall>j<length (allcpus m). allcpus m' ! j =
       (if j \<noteq> curcpu m then flush_request (allcpus m ! j) else flushed (allcpus m ! j)))"
proof -
  let ?me = "curcpu m"
  have i: "?me < length (allcpus m)" and g: "spl_good (cpu_spl m)" using assms by (simp_all add: mp_ok_def)
  note c = mp_ok_cpu [OF assms i]
  let ?m1 = "m\<lparr>cpu_spl := hi (cpu_spl m)\<rparr>"
  let ?m2 = "put_cpu ?me (flushed (allcpus m ! ?me)) ?m1"
  have 1: "invalidate_from NUM_TLB 0 ?m1 = Some ?m2" using invalidate_all [of ?m1] i c by simp
  have ok2: "mp_ok ?m2"
    using assms c i by (auto simp: mp_ok_def flushed_def dest!: set_update_subset_insert [THEN subsetD])
  obtain m3 where m3: "tlb_broadcast ?m2 = Some m3" "curcpu m3 = ?me" "cpu_spl m3 = hi (cpu_spl m)"
      "length (allcpus m3) = length (allcpus m)"
      "\<forall>j<length (allcpus m). allcpus m3 ! j =
        (if j \<noteq> ?me then flush_request (allcpus ?m2 ! j) else allcpus ?m2 ! j)"
    using tlb_broadcast_from_eq [OF ok2, of 0 "length (allcpus ?m2)"] unfolding tlb_broadcast_def by auto
  have "restore_spl (t_curspl (cpu_spl m)) m3 = Some (m3\<lparr>cpu_spl := cpu_spl m\<rparr>)"
    by (rule restore_spl_eq [OF g m3(3)])
  then have "as_activate m = Some (m3\<lparr>cpu_spl := cpu_spl m\<rparr>)"
    unfolding as_activate_def raise_spl_eq [OF g] Option.bind.simps prod.case 1 m3(1) .
  then show ?thesis using m3 i by auto
qed

section \<open>Properties\<close>

definition cpu0 :: cpu where
  "cpu0 = \<lparr>c_tlb = replicate 64 (0x1000, 0x2600), c_isidle = False, c_runqueue_lock = \<lparr>lk_lock = 0, lk_holder = None\<rparr>,
     c_ipi_pending = 0, c_shootdown = replicate 16 (0, 0), c_numshootdown = 0,
     c_ipi_lock = \<lparr>lk_lock = 0, lk_holder = None\<rparr>, c_ipi_line = False\<rparr>"

definition mp2 :: mp where
  "mp2 = \<lparr>allcpus = [cpu0, cpu0], curcpu = 0, cpu_spl = \<lparr>t_iplhigh_count = 0, t_curspl = 0, irq = True\<rparr>\<rparr>"

lemma mp2_ok: "mp_ok mp2"
  by (simp add: mp_ok_def mp2_def cpu0_def spl_good_def spl_ok_def lock_free_def)

text \<open>C31: \<^verbatim>\<open>as_activate\<close> leaves no usable translation in the buffer of its own CPU, and every other CPU, once it takes
  the interrupt it has been sent, has none either; all entries written are distinct and lie outside user space.\<close>

theorem as_activate_flushes_all:
  assumes "mp_ok m" "\<forall>c\<in>set (allcpus m). \<not> bit (c_ipi_pending c) IPI_PANIC \<and> \<not> bit (c_ipi_pending c) IPI_OFFLINE"
  shows "\<exists>m'. as_activate m = Some m' \<and> mp_ok m' \<and> no_translation (allcpus m' ! curcpu m) \<and>
    (\<forall>j<length (allcpus m). \<forall>s. j \<noteq> curcpu m \<longrightarrow> spl_good s \<longrightarrow>
      c_ipi_line (allcpus m' ! j) \<and>
      (\<exists>m''. interprocessor_interrupt (m'\<lparr>curcpu := j, cpu_spl := s\<rparr>) = Some m'' \<and>
         no_translation (allcpus m'' ! j) \<and> c_ipi_pending (allcpus m'' ! j) = 0))"
proof -
  obtain m' where m': "as_activate m = Some m'" "curcpu m' = curcpu m" "cpu_spl m' = cpu_spl m"
      "length (allcpus m') = length (allcpus m)"
      "\<forall>j<length (allcpus m). allcpus m' ! j =
        (if j \<noteq> curcpu m then flush_request (allcpus m ! j) else flushed (allcpus m ! j))"
    using as_activate_eq [OF assms(1)] by blast
  have cpu_ok: "length (c_tlb (allcpus m' ! j)) = NUM_TLB \<and> length (c_shootdown (allcpus m' ! j)) = 16 \<and>
      lock_free (c_ipi_lock (allcpus m' ! j))" if "j < length (allcpus m)" for j
    using m'(5) that mp_ok_cpu [OF assms(1) that]
    by (cases "j = curcpu m") (simp_all add: flush_request_def notify_def flushed_def)
  have all_ok: "\<forall>c\<in>set (allcpus m'). length (c_tlb c) = NUM_TLB \<and> length (c_shootdown c) = 16 \<and>
      lock_free (c_ipi_lock c)" using cpu_ok m'(4) by (metis in_set_conv_nth)
  have ok': "mp_ok m'" using assms(1) m'(2-4) all_ok by (simp add: mp_ok_def)
  have int: "c_ipi_line (allcpus m' ! j) \<and> (\<exists>m''. interprocessor_interrupt (m'\<lparr>curcpu := j, cpu_spl := s\<rparr>) = Some m'' \<and>
         no_translation (allcpus m'' ! j) \<and> c_ipi_pending (allcpus m'' ! j) = 0)"
    if j: "j < length (allcpus m)" "j \<noteq> curcpu m" and s: "spl_good s" for j s
  proof -
    let ?n = "m'\<lparr>curcpu := j, cpu_spl := s\<rparr>"
    have cj: "allcpus m' ! j = flush_request (allcpus m ! j)" using m'(5) j by simp
    have "mp_ok ?n" using all_ok s j m'(4) by (simp add: mp_ok_def)
    moreover have "\<not> bit (c_ipi_pending (allcpus m ! j)) IPI_PANIC" "\<not> bit (c_ipi_pending (allcpus m ! j)) IPI_OFFLINE"
      using assms(2) j by simp_all
    ultimately have "interprocessor_interrupt ?n = Some (put_cpu j ((flushed (allcpus m' ! j))\<lparr>c_numshootdown := 0, c_ipi_pending := 0\<rparr>) ?n)"
      using interrupt_flushes [of ?n] cj by (simp add: flush_request_def notify_def bit_simps)
    moreover have "no_translation ((flushed c)\<lparr>c_numshootdown := 0, c_ipi_pending := 0\<rparr>)" for c
      using flushed_no_translation [of c] by (simp add: no_translation_def)
    ultimately show ?thesis using j m'(4) cj by (simp add: flush_request_def notify_def)
  qed
  have "no_translation (allcpus m' ! curcpu m)" using m'(5) assms(1) by (simp add: mp_ok_def)
  with m'(1) ok' int show ?thesis by blast
qed

theorem as_activate_flushes_all_witness:
  "\<exists>m'. as_activate mp2 = Some m' \<and> no_translation (allcpus m' ! 0) \<and> c_ipi_line (allcpus m' ! 1)"
proof -
  have "\<forall>c\<in>set (allcpus mp2). \<not> bit (c_ipi_pending c) IPI_PANIC \<and> \<not> bit (c_ipi_pending c) IPI_OFFLINE"
    by (simp add: mp2_def cpu0_def)
  moreover have "spl_good (cpu_spl mp2)" "curcpu mp2 = 0" "length (allcpus mp2) = 2" using mp2_ok by (simp_all add: mp_ok_def mp2_def)
  ultimately show ?thesis using as_activate_flushes_all [OF mp2_ok] by fastforce
qed

text \<open>C32: \<^verbatim>\<open>ipi_tlbshootdown\<close> queues a mapping while there is room and asks for a full flush when the queue is full; but
  when a full flush is already requested it writes in front of the queue.\<close>

theorem ipi_tlbshootdown_outcomes:
  assumes "mp_ok m" "t < length (allcpus m)"
  shows "ipi_tlbshootdown t mapping m =
    (let c = allcpus m ! t; n = c_numshootdown c in
     if n = TLBSHOOTDOWN_MAX then Some (put_cpu t (flush_request c) m)
     else if 0 \<le> n \<and> n < TLBSHOOTDOWN_MAX then Some (put_cpu t (notify IPI_TLBSHOOTDOWN
       (c\<lparr>c_shootdown := (c_shootdown c)[nat n := mapping], c_numshootdown := n + 1\<rparr>)) m)
     else None)"
proof -
  have g: "spl_good (cpu_spl m)" using assms(1) by (simp add: mp_ok_def)
  note c = mp_ok_cpu [OF assms]
  note u = under_ipi_lock [OF assms(2) c(3) spl_good_ok [OF g]]
  have "nat n < 16 \<longleftrightarrow> n < 16" for n :: int by auto
  then show ?thesis
    unfolding ipi_tlbshootdown_def u(1) Option.bind.simps locked_cpu [OF assms(2)]
    using c(2) by (simp add: Let_def u(2) wr_def flush_request_def notify_def del: put_cpu_fields(5))
qed

theorem ipi_tlbshootdown_outcomes_witness:
  "ipi_tlbshootdown 1 (1, 4096) (put_cpu 1 (cpu0\<lparr>c_numshootdown := TLBSHOOTDOWN_ALL\<rparr>) mp2) = None"
proof -
  let ?m = "put_cpu 1 (cpu0\<lparr>c_numshootdown := TLBSHOOTDOWN_ALL\<rparr>) mp2"
  have "mp_ok ?m" "1 < length (allcpus ?m)" "allcpus ?m ! 1 = cpu0\<lparr>c_numshootdown := TLBSHOOTDOWN_ALL\<rparr>"
    using mp2_ok by (simp_all add: mp_ok_def mp2_def cpu0_def)
  then show ?thesis using ipi_tlbshootdown_outcomes [of ?m 1 "(1, 4096)"] by (simp add: Let_def)
qed

end
