(* ===== verification/Addrspace.thy ===== *)
theory Addrspace
  imports Coremap Tlb_Ipi "HOL-Library.Signed_Division"
begin

text \<open>
  \<^verbatim>\<open>kern/vm/addrspace.c\<close> and the rest of \<^verbatim>\<open>kern/vm/vm.c\<close>: address spaces as chains of page tables, the fault handler,
  and \<^verbatim>\<open>sbrk\<close>.  The chain of tables that starts in \<^verbatim>\<open>as->start\<close> is a list; \<^verbatim>\<open>as->end\<close> is the index of the table it points
  to.  A block from \<^verbatim>\<open>kmalloc\<close> holds what the memory held before: \<open>junk a i\<close> is entry \<open>i\<close> of the block at address \<open>a\<close>
  read as a page table.  The address space an operation works on is the one of \<^verbatim>\<open>curthread\<close>.
\<close>

section \<open>State\<close>

record page_entry =
  page_vaddr :: nat
  page_paddr :: nat
  isRead :: bool
  isWrite :: bool
  isExe :: bool
  isShared :: bool

record page_table =
  pt_addr :: nat
  table :: "page_entry list"
  entry_count :: nat

record addrspace =
  as_addr :: nat
  vbreakbase :: nat
  vbreaktop :: nat
  heapNPages :: nat
  vstart :: nat
  tables :: "page_table list"
  endix :: nat
  codeNPages :: nat
  dataNPages :: nat

text \<open>The machine with its TLBs, the coremap with its lock, and the contents of physical memory.\<close>

record vmst =
  vm_mp :: mp
  vm_cm :: cmap
  vm_slock :: spinlock
  vm_bytes :: "nat \<Rightarrow> u8"

abbreviation (input) PTABLE_ARRAY_SIZE :: nat where "PTABLE_ARRAY_SIZE \<equiv> 338"
abbreviation (input) STACK_BASE :: nat where "STACK_BASE \<equiv> 0x7ff00000"
abbreviation (input) USERSTACK :: nat where "USERSTACK \<equiv> 0x80000000"

type_synonym junk = "nat \<Rightarrow> nat \<Rightarrow> page_entry"

section \<open>Memory\<close>

text \<open>An operation of the page allocator, run by the current CPU on the coremap of this state.\<close>

definition run_pm :: "(nat option \<Rightarrow> pmem \<Rightarrow> ('r \<times> pmem) option) \<Rightarrow> vmst \<Rightarrow> ('r \<times> vmst) option" where
  "run_pm f v = do {
     (r, p) \<leftarrow> f (Some (curcpu (vm_mp v))) \<lparr>cm = vm_cm v, coremap_slock = vm_slock v, cur_spl = cpu_spl (vm_mp v)\<rparr>;
     Some (r, v\<lparr>vm_cm := cm p, vm_slock := coremap_slock p, vm_mp := (vm_mp v)\<lparr>cpu_spl := cur_spl p\<rparr>\<rparr>)
   }"

definition get_page :: "vmst \<Rightarrow> (nat \<times> vmst) option" where
  "get_page v = run_pm get_user_page v"

definition free_page :: "nat \<Rightarrow> vmst \<Rightarrow> vmst option" where
  "free_page paddr v = do {
     (_, v) \<leftarrow> run_pm (\<lambda>cpu p. map_option (Pair ()) (page_free cpu paddr p)) v;
     Some v
   }"

text \<open>\<^verbatim>\<open>kmalloc\<close> and \<^verbatim>\<open>kfree\<close> on blocks of at least half a page, which come from \<^verbatim>\<open>alloc_kpages\<close>.\<close>

definition kmalloc_large :: "nat \<Rightarrow> vmst \<Rightarrow> (nat \<times> vmst) option" where
  "kmalloc_large sz v = run_pm (\<lambda>cpu. alloc_kpages cpu (int ((sz + PAGE_SIZE - 1) div PAGE_SIZE))) v"

definition kfree_large :: "nat \<Rightarrow> vmst \<Rightarrow> vmst option" where
  "kfree_large ptr v = do {
     KASSERT (ptr mod PAGE_SIZE = 0);
     (_, v) \<leftarrow> run_pm (\<lambda>cpu p. map_option (Pair ()) (free_kpages cpu ptr p)) v;
     Some v
   }"

definition as_zero_region :: "nat \<Rightarrow> nat \<Rightarrow> vmst \<Rightarrow> vmst" where
  "as_zero_region paddr npages v =
     v\<lparr>vm_bytes := (\<lambda>a. if paddr \<le> a \<and> a < paddr + npages * PAGE_SIZE then 0 else vm_bytes v a)\<rparr>"

definition copy_page :: "nat \<Rightarrow> nat \<Rightarrow> vmst \<Rightarrow> vmst" where
  "copy_page dst src v =
     v\<lparr>vm_bytes := (\<lambda>a. if dst \<le> a \<and> a < dst + PAGE_SIZE then vm_bytes v (src + (a - dst)) else vm_bytes v a)\<rparr>"

section \<open>Page tables\<close>

text \<open>The inner loop of \<^verbatim>\<open>vm_fault\<close> over one table, and the outer one over the chain.\<close>

fun scan_table :: "page_entry list \<Rightarrow> nat \<Rightarrow> page_entry option" where
  "scan_table [] fa = None"
| "scan_table (e # es) fa =
     (if page_paddr e \<noteq> 0 \<and> page_vaddr e = fa then Some e
      else if page_paddr e = 0 then None
      else scan_table es fa)"

fun find_entry :: "page_table list \<Rightarrow> nat \<Rightarrow> page_entry option" where
  "find_entry [] fa = None"
| "find_entry (t # ts) fa = (case scan_table (table t) fa of Some e \<Rightarrow> Some e | None \<Rightarrow> find_entry ts fa)"

definition set_entry :: "nat \<Rightarrow> nat \<Rightarrow> bool \<Rightarrow> bool \<Rightarrow> bool \<Rightarrow> page_entry \<Rightarrow> page_entry" where
  "set_entry va pa r w x e =
     e\<lparr>isExe := x, isRead := r, isWrite := w, page_paddr := pa, page_vaddr := va\<rparr>"

fun add_in_table :: "(page_entry \<Rightarrow> page_entry) \<Rightarrow> page_entry list \<Rightarrow> page_entry list option" where
  "add_in_table f [] = None"
| "add_in_table f (e # es) =
     (if page_paddr e = 0 then Some (f e # es) else map_option ((#) e) (add_in_table f es))"

text \<open>\<^verbatim>\<open>entry_count\<close> is a field of nine bits.\<close>

fun add_in_tables :: "(page_entry \<Rightarrow> page_entry) \<Rightarrow> page_table list \<Rightarrow> page_table list option" where
  "add_in_tables f [] = None"
| "add_in_tables f (t # ts) =
     (case (if entry_count t \<noteq> PTABLE_ARRAY_SIZE then add_in_table f (table t) else None) of
        Some es \<Rightarrow> Some (t\<lparr>table := es, entry_count := (entry_count t + 1) mod 512\<rparr> # ts)
      | None \<Rightarrow> map_option ((#) t) (add_in_tables f ts))"

text \<open>A new table: the first entry set, the others marked free; writing through the null pointer is the end.\<close>

definition new_table :: "junk \<Rightarrow> (page_entry \<Rightarrow> page_entry) \<Rightarrow> nat \<Rightarrow> page_table" where
  "new_table junk f a = \<lparr>pt_addr = a,
     table = f (junk a 0) # map (\<lambda>i. (junk a i)\<lparr>page_paddr := 0\<rparr>) [1..<PTABLE_ARRAY_SIZE], entry_count = 1\<rparr>"

definition addPageEntry ::
  "junk \<Rightarrow> nat \<Rightarrow> nat \<Rightarrow> bool \<Rightarrow> bool \<Rightarrow> bool \<Rightarrow> addrspace \<Rightarrow> vmst \<Rightarrow> (addrspace \<times> vmst) option" where
  "addPageEntry junk va pa r w x as v =
     (case add_in_tables (set_entry va pa r w x) (tables as) of
        Some ts \<Rightarrow> Some (as\<lparr>tables := ts\<rparr>, v)
      | None \<Rightarrow> do {
          (a, v) \<leftarrow> kmalloc_large 4064 v;
          KASSERT (a \<noteq> 0);
          Some (as\<lparr>tables := take (endix as + 1) (tables as) @ [new_table junk (set_entry va pa r w x) a],
                  endix := endix as + 1\<rparr>, v)
        })"

fun remove_in_table :: "nat \<Rightarrow> page_entry list \<Rightarrow> (nat \<times> page_entry list) option" where
  "remove_in_table va [] = None"
| "remove_in_table va (e # es) =
     (if page_vaddr e = va then Some (page_paddr e, e\<lparr>page_paddr := 0\<rparr> # es)
      else map_option (apsnd ((#) e)) (remove_in_table va es))"

fun remove_in_tables :: "nat \<Rightarrow> page_table list \<Rightarrow> (nat \<times> page_table list) option" where
  "remove_in_tables va [] = None"
| "remove_in_tables va (t # ts) =
     (case remove_in_table va (table t) of
        Some (pa, es) \<Rightarrow> Some (pa, t\<lparr>table := es, entry_count := (entry_count t + 511) mod 512\<rparr> # ts)
      | None \<Rightarrow> map_option (apsnd ((#) t)) (remove_in_tables va ts))"

definition removePageEntry :: "nat \<Rightarrow> addrspace \<Rightarrow> nat \<times> addrspace" where
  "removePageEntry va as =
     (case remove_in_tables va (tables as) of
        Some (pa, ts) \<Rightarrow> (pa, as\<lparr>tables := ts\<rparr>)
      | None \<Rightarrow> (0, as))"

section \<open>Creating and destroying\<close>

definition as_create :: "junk \<Rightarrow> vmst \<Rightarrow> (addrspace option \<times> vmst) option" where
  "as_create junk v = do {
     (a, v) \<leftarrow> kmalloc_large 4092 v;
     if a = 0 then Some (None, v)
     else Some (Some \<lparr>as_addr = a, vbreakbase = 0, vbreaktop = 0, heapNPages = 0, vstart = 0,
       tables = [\<lparr>pt_addr = 0, table = map (\<lambda>i. (junk a i)\<lparr>page_paddr := 0\<rparr>) [0..<PTABLE_ARRAY_SIZE], entry_count = 0\<rparr>],
       endix = 0, codeNPages = 0, dataNPages = 0\<rparr>, v)
   }"

fun free_entries :: "page_entry list \<Rightarrow> vmst \<Rightarrow> vmst option" where
  "free_entries [] v = Some v"
| "free_entries (e # es) v =
     (if page_paddr e \<noteq> 0 then do { v \<leftarrow> free_page (page_paddr e) v; free_entries es v } else Some v)"

fun free_all_entries :: "page_table list \<Rightarrow> vmst \<Rightarrow> vmst option" where
  "free_all_entries [] v = Some v"
| "free_all_entries (t # ts) v = do { v \<leftarrow> free_entries (table t) v; free_all_entries ts v }"

fun free_tables :: "page_table list \<Rightarrow> vmst \<Rightarrow> vmst option" where
  "free_tables [] v = Some v"
| "free_tables (t # ts) v = do { v \<leftarrow> kfree_large (pt_addr t) v; free_tables ts v }"

definition as_destroy :: "addrspace \<Rightarrow> vmst \<Rightarrow> vmst option" where
  "as_destroy as v = do {
     v \<leftarrow> free_all_entries (tables as) v;
     v \<leftarrow> free_tables (tl (tables as)) v;
     kfree_large (as_addr as) v
   }"

section \<open>Loading a program\<close>

definition as_define_region :: "addrspace \<Rightarrow> nat \<Rightarrow> nat \<Rightarrow> errno \<times> addrspace" where
  "as_define_region as va sz =
     (let sz = u32 (sz + va mod PAGE_SIZE);
          va = page_frame va;
          sz = page_frame (usub (u32 (sz + PAGE_SIZE)) 1);
          npages = sz div PAGE_SIZE in
      if codeNPages as = 0 then
        (0, as\<lparr>vstart := va, codeNPages := npages, vbreakbase := u32 (npages * PAGE_SIZE + va),
               vbreaktop := u32 (npages * PAGE_SIZE + va)\<rparr>)
      else if dataNPages as = 0 then
        (0, as\<lparr>dataNPages := npages, vbreakbase := u32 (npages * PAGE_SIZE + va),
               vbreaktop := u32 (npages * PAGE_SIZE + va)\<rparr>)
      else (EUNIMP, as))"

text \<open>One of the two loops of \<^verbatim>\<open>as_prepare_load\<close>: \<open>left\<close> pages from number \<open>i\<close> on of the region at \<open>base\<close>.  On failure
  the address space is gone, which is \<open>None\<close> in the second component.\<close>

fun load_pages ::
  "junk \<Rightarrow> nat \<Rightarrow> nat \<Rightarrow> nat \<Rightarrow> addrspace \<Rightarrow> vmst \<Rightarrow> (errno \<times> addrspace option \<times> vmst) option" where
  "load_pages junk base 0 i as v = Some (0, Some as, v)"
| "load_pages junk base (Suc left) i as v = do {
     (paddr, v) \<leftarrow> get_page v;
     if paddr = 0 then do {
       v \<leftarrow> as_destroy as v;
       Some (ENOMEM, None, v)
     }
     else do {
       (as, v) \<leftarrow> addPageEntry junk (u32 (base + PAGE_SIZE * i)) paddr True True False as v;
       load_pages junk base left (i + 1) as (as_zero_region paddr 1 v)
     }
   }"

definition as_prepare_load :: "junk \<Rightarrow> addrspace \<Rightarrow> vmst \<Rightarrow> (errno \<times> addrspace option \<times> vmst) option" where
  "as_prepare_load junk as v = do {
     (err, r, v) \<leftarrow> load_pages junk (vstart as) (codeNPages as) 0 as v;
     case r of
       None \<Rightarrow> Some (err, None, v)
     | Some as \<Rightarrow> load_pages junk (usub (vbreakbase as) (dataNPages as * PAGE_SIZE)) (dataNPages as) 0 as v
   }"

fun protect_table :: "nat \<Rightarrow> nat \<Rightarrow> page_entry list \<Rightarrow> page_entry list" where
  "protect_table codeTop dataTop [] = []"
| "protect_table codeTop dataTop (e # es) =
     (if page_paddr e = 0 then e # es
      else (if page_vaddr e < codeTop then e\<lparr>isExe := True, isRead := True, isWrite := False\<rparr>
            else if page_vaddr e < dataTop then e\<lparr>isExe := False, isRead := True, isWrite := True\<rparr>
            else e) # protect_table codeTop dataTop es)"

definition as_complete_load :: "addrspace \<Rightarrow> errno \<times> addrspace" where
  "as_complete_load as =
     (let codeTop = u32 (vstart as + PAGE_SIZE * codeNPages as); dataTop = vbreakbase as in
      (0, as\<lparr>tables := map (\<lambda>t. t\<lparr>table := protect_table codeTop dataTop (table t)\<rparr>) (tables as)\<rparr>))"

definition as_define_stack :: "addrspace \<Rightarrow> errno \<times> nat" where
  "as_define_stack as = (0, USERSTACK)"

section \<open>Copying\<close>

text \<open>The loop over the entries of one table; \<open>False\<close> when no page was left.\<close>

fun copy_entries ::
  "page_entry list \<Rightarrow> nat \<Rightarrow> page_entry list \<Rightarrow> vmst \<Rightarrow> (bool \<times> page_entry list \<times> vmst) option" where
  "copy_entries [] i new v = Some (True, new, v)"
| "copy_entries (e # es) i new v = do {
     n \<leftarrow> rd new i;
     n \<leftarrow> Some (n\<lparr>page_vaddr := page_vaddr e, isExe := isExe e, isRead := isRead e, isWrite := isWrite e\<rparr>);
     if page_paddr e \<noteq> 0 then do {
       (paddr, v) \<leftarrow> get_page v;
       if paddr = 0 then Some (False, new[i := n], v)
       else copy_entries es (i + 1) (new[i := n\<lparr>page_paddr := paddr\<rparr>]) (copy_page paddr (page_paddr e) v)
     }
     else copy_entries es (i + 1) (new[i := n\<lparr>page_paddr := 0\<rparr>]) v
   }"

definition copy_table :: "page_table \<Rightarrow> page_table \<Rightarrow> vmst \<Rightarrow> (bool \<times> page_table \<times> vmst) option" where
  "copy_table old new v = do {
     (ok, es, v) \<leftarrow> copy_entries (table old) 0 (table new) v;
     Some (ok, new\<lparr>entry_count := entry_count old, table := es\<rparr>, v)
   }"

text \<open>The tables after the first: each is copied into a fresh block, appended to the copy.\<close>

fun copy_tables ::
  "junk \<Rightarrow> page_table list \<Rightarrow> page_table list \<Rightarrow> vmst \<Rightarrow> (bool \<times> page_table list \<times> vmst) option" where
  "copy_tables junk [] new v = Some (True, new, v)"
| "copy_tables junk (t # ts) new v = do {
     (a, v) \<leftarrow> kmalloc_large 4064 v;
     KASSERT (a \<noteq> 0);
     (ok, n, v) \<leftarrow> copy_table t \<lparr>pt_addr = a, table = map (junk a) [0..<PTABLE_ARRAY_SIZE], entry_count = 0\<rparr> v;
     if ok then copy_tables junk ts (new @ [n]) v else Some (False, new @ [n], v)
   }"

definition as_copy :: "junk \<Rightarrow> addrspace \<Rightarrow> vmst \<Rightarrow> (errno \<times> addrspace option \<times> vmst) option" where
  "as_copy junk old v = do {
     (r, v) \<leftarrow> as_create junk v;
     case r of
       None \<Rightarrow> Some (ENOMEM, None, v)
     | Some new \<Rightarrow> do {
         (ok, n, v) \<leftarrow> copy_table (hd (tables old)) (hd (tables new)) v;
         (ok, ts, v) \<leftarrow> (if ok then copy_tables junk (tl (tables old)) [n] v else Some (False, [n], v));
         if ok then Some (0, Some (new\<lparr>tables := ts\<rparr>), v)
         else do { v \<leftarrow> as_destroy (new\<lparr>tables := ts\<rparr>) v; Some (ENOMEM, None, v) }
       }
   }"

section \<open>Faults\<close>

abbreviation (input) VM_FAULT_READ :: int where "VM_FAULT_READ \<equiv> 0"
abbreviation (input) VM_FAULT_WRITE :: int where "VM_FAULT_WRITE \<equiv> 1"
abbreviation (input) VM_FAULT_READONLY :: int where "VM_FAULT_READONLY \<equiv> 2"

text \<open>The first TLB slot without a valid entry.\<close>

fun free_slot :: "nat \<Rightarrow> nat \<Rightarrow> mp \<Rightarrow> nat option option" where
  "free_slot 0 i m = Some None"
| "free_slot (Suc left) i m = do {
     (ehi, elo) \<leftarrow> tlb_read i m;
     if elo AND TLBLO_VALID \<noteq> 0 then free_slot left (i + 1) m else Some (Some i)
   }"

definition load_tlb :: "nat \<Rightarrow> nat \<Rightarrow> nat \<Rightarrow> mp \<Rightarrow> mp option" where
  "load_tlb slot fa paddr m = do {
     (spl, m) \<leftarrow> raise_spl m;
     s \<leftarrow> free_slot NUM_TLB 0 m;
     m \<leftarrow> (case s of
             Some i \<Rightarrow> tlb_write (of_nat fa) (of_nat paddr OR TLBLO_DIRTY OR TLBLO_VALID) i m
           | None \<Rightarrow> tlb_random slot (of_nat fa) (of_nat paddr OR TLBLO_DIRTY OR TLBLO_VALID) m);
     restore_spl spl m
   }"

text \<open>The frame for a fault, or the error: the \<^verbatim>\<open>switch\<close> of \<^verbatim>\<open>vm_fault\<close>.\<close>

definition fault_frame ::
  "junk \<Rightarrow> int \<Rightarrow> nat \<Rightarrow> addrspace \<Rightarrow> vmst \<Rightarrow> ((errno + nat) \<times> addrspace \<times> vmst) option" where
  "fault_frame junk faulttype fa as v =
     (let match = find_entry (tables as) fa in
      if faulttype = VM_FAULT_READONLY then Some (Inl EFAULT, as, v)
      else if faulttype = VM_FAULT_READ then
        (case match of Some e \<Rightarrow> Some (Inr (page_paddr e), as, v) | None \<Rightarrow> Some (Inl EFAULT, as, v))
      else if faulttype = VM_FAULT_WRITE then
        (case match of
           Some e \<Rightarrow> Some (if \<not> isWrite e then Inl EFAULT else Inr (page_paddr e), as, v)
         | None \<Rightarrow>
             if STACK_BASE \<le> fa \<and> fa < USERSTACK then do {
               (paddr, v) \<leftarrow> get_page v;
               if paddr = 0 then Some (Inl ENOMEM, as, v)
               else do {
                 (as, v) \<leftarrow> addPageEntry junk fa paddr True True False as v;
                 Some (Inr paddr, as, as_zero_region paddr 1 v)
               }
             }
             else Some (Inl EFAULT, as, v))
      else Some (Inl EINVAL, as, v))"

definition vm_fault ::
  "junk \<Rightarrow> nat \<Rightarrow> int \<Rightarrow> nat \<Rightarrow> addrspace \<Rightarrow> vmst \<Rightarrow> (errno \<times> addrspace \<times> vmst) option" where
  "vm_fault junk slot faulttype faultaddress as v =
     (let fa = page_frame faultaddress in
      if USERSTACK \<le> fa \<or> fa < vstart as then Some (EFAULT, as, v)
      else do {
        (r, as, v) \<leftarrow> fault_frame junk faulttype fa as v;
        case r of
          Inl err \<Rightarrow> Some (err, as, v)
        | Inr paddr \<Rightarrow> do {
            m \<leftarrow> load_tlb slot fa paddr (vm_mp v);
            Some (0, as, v\<lparr>vm_mp := m\<rparr>)
          }
      })"

section \<open>The heap\<close>

fun page_alloc_loop :: "junk \<Rightarrow> nat \<Rightarrow> nat \<Rightarrow> addrspace \<Rightarrow> vmst \<Rightarrow> (int \<times> addrspace \<times> vmst) option" where
  "page_alloc_loop junk 0 va as v = Some (0, as, v)"
| "page_alloc_loop junk (Suc left) va as v = do {
     (paddr, v) \<leftarrow> get_page v;
     if paddr = 0 then Some (1, as, v)
     else do {
       (as, v) \<leftarrow> addPageEntry junk va paddr True True False as v;
       page_alloc_loop junk left (u32 (va + PAGE_SIZE)) (as\<lparr>heapNPages := u32 (heapNPages as + 1)\<rparr>) v
     }
   }"

definition page_alloc :: "junk \<Rightarrow> int \<Rightarrow> nat \<Rightarrow> addrspace \<Rightarrow> vmst \<Rightarrow> (int \<times> addrspace \<times> vmst) option" where
  "page_alloc junk npages va as v = page_alloc_loop junk (nat npages) va as v"

text \<open>An unsigned value stored in an \<^verbatim>\<open>int\<close>.\<close>

definition s32 :: "nat \<Rightarrow> int" where
  "s32 n = (if n < 2 ^ 31 then int n else int n - 2 ^ 32)"

text \<open>The return value is the error code and, on success, what is stored through \<^verbatim>\<open>retval\<close>.\<close>

definition sys_sbrk :: "junk \<Rightarrow> int \<Rightarrow> addrspace \<Rightarrow> vmst \<Rightarrow> (errno \<times> nat option \<times> addrspace \<times> vmst) option" where
  "sys_sbrk junk amount as v = do {
     vaddr \<leftarrow> Some (vbreaktop as);
     as \<leftarrow> Some (as\<lparr>vbreaktop := nat ((int (vbreaktop as) + amount) mod 2 ^ 32)\<rparr>);
     if vbreaktop as \<ge> STACK_BASE - 4096 then Some (ENOMEM, None, as, v)
     else if vbreaktop as < vbreakbase as then Some (EINVAL, None, as\<lparr>vbreaktop := vaddr\<rparr>, v)
     else do {
       (fail, as, v) \<leftarrow>
         (if usub (vbreaktop as) (vbreakbase as) \<ge> u32 (heapNPages as * PAGE_SIZE) then do {
            npages \<leftarrow> Some (s32 (usub (vbreaktop as) (u32 (vbreakbase as + u32 (heapNPages as * PAGE_SIZE)))));
            npages \<leftarrow> Some (if npages smod int PAGE_SIZE = 0 then npages sdiv int PAGE_SIZE
                            else npages sdiv int PAGE_SIZE + 1);
            temp \<leftarrow> Some (if vaddr mod PAGE_SIZE = 0 then vaddr else u32 (page_frame vaddr + PAGE_SIZE));
            page_alloc junk npages temp as v
          }
          else Some (0, as, v));
       if fail \<noteq> 0 then Some (ENOMEM, None, as, v) else Some (0, Some vaddr, as, v)
     }
   }"

end
