(* ===== verification/Addrspace_Correct.thy ===== *)
theory Addrspace_Correct
  imports Addrspace "HOL-Library.Multiset"
begin

text \<open>
  What the operations of \<^verbatim>\<open>kern/vm/addrspace.c\<close> and \<^verbatim>\<open>kern/vm/vm.c\<close> do, as long as the coremap hands out single pages:
  an address space stands for the list of its page entries in the order they were added, and the frames in use are a set
  of physical addresses.
\<close>

section \<open>Page tables as lists of entries\<close>

definition used :: "page_entry \<Rightarrow> bool" where
  "used e \<longleftrightarrow> page_paddr e \<noteq> 0"

definition tab_used :: "page_table \<Rightarrow> page_entry list" where
  "tab_used t = takeWhile used (table t)"

definition entries :: "addrspace \<Rightarrow> page_entry list" where
  "entries as = concat (map tab_used (tables as))"

definition tab_ok :: "page_table \<Rightarrow> bool" where
  "tab_ok t \<longleftrightarrow> length (table t) = PTABLE_ARRAY_SIZE \<and> (\<forall>e\<in>set (dropWhile used (table t)). \<not> used e) \<and>
     entry_count t = length (tab_used t)"

definition as_ok :: "addrspace \<Rightarrow> bool" where
  "as_ok as \<longleftrightarrow> tables as \<noteq> [] \<and> endix as = length (tables as) - 1 \<and> (\<forall>t\<in>set (tables as). tab_ok t) \<and>
     (\<forall>t\<in>set (butlast (tables as)). entry_count t = PTABLE_ARRAY_SIZE)"

lemma find_app: "find P (xs @ ys) = (case find P xs of None \<Rightarrow> find P ys | Some x \<Rightarrow> Some x)"
  by (induction xs) auto

lemma scan_table_find: "scan_table es fa = find (\<lambda>e. page_vaddr e = fa) (takeWhile used es)"
  by (induction es fa rule: scan_table.induct) (auto simp: used_def)

lemma find_entry_find: "find_entry (tables as) fa = find (\<lambda>e. page_vaddr e = fa) (entries as)"
proof -
  have "find_entry ts fa = find (\<lambda>e. page_vaddr e = fa) (concat (map tab_used ts))" for ts
    by (induction ts) (simp_all add: find_app scan_table_find tab_used_def split: option.split)
  then show ?thesis by (simp add: entries_def)
qed

lemma add_in_table_eq:
  "add_in_table f es = (case dropWhile used es of [] \<Rightarrow> None | e # r \<Rightarrow> Some (takeWhile used es @ f e # r))"
proof (induction es)
  case (Cons e es)
  have "add_in_table f (e # es) = (if \<not> used e then Some (f e # es) else map_option ((#) e) (add_in_table f es))"
    by (simp add: used_def)
  with Cons show ?case
    by (cases "dropWhile used es") (simp_all del: dropWhile_eq_Nil_conv add_in_table.simps)
qed simp

lemma tab_split: "length (tab_used t) + length (dropWhile used (table t)) = length (table t)"
proof -
  have "takeWhile used (table t) @ dropWhile used (table t) = table t" by simp
  then show ?thesis unfolding tab_used_def by (metis length_append)
qed

lemma tab_used_length: "tab_ok t \<Longrightarrow> length (tab_used t) \<le> PTABLE_ARRAY_SIZE"
  using tab_split [of t] by (simp add: tab_ok_def)

lemma tab_full:
  assumes "tab_ok t"
  shows "entry_count t = PTABLE_ARRAY_SIZE \<longleftrightarrow> dropWhile used (table t) = []"
proof -
  have "length (tab_used t) = PTABLE_ARRAY_SIZE \<longleftrightarrow> length (dropWhile used (table t)) = 0"
    using tab_split [of t] assms unfolding tab_ok_def by linarith
  then show ?thesis using assms unfolding tab_ok_def by (simp only: length_0_conv)
qed

text \<open>Adding to a table that has room.\<close>

definition put_in :: "(page_entry \<Rightarrow> page_entry) \<Rightarrow> page_table \<Rightarrow> page_table" where
  "put_in f t = t\<lparr>table := the (add_in_table f (table t)), entry_count := (entry_count t + 1) mod 512\<rparr>"

lemma put_in_ok:
  assumes "tab_ok t" "entry_count t \<noteq> PTABLE_ARRAY_SIZE" "\<And>e. used (f e)"
  shows "add_in_table f (table t) \<noteq> None" "tab_ok (put_in f t)" "\<exists>e. tab_used (put_in f t) = tab_used t @ [f e]"
proof -
  obtain e r where er: "dropWhile used (table t) = e # r"
    using tab_full [OF assms(1)] assms(2) by (cases "dropWhile used (table t)") auto
  then have tab: "table t = tab_used t @ e # r" unfolding tab_used_def by (metis takeWhile_dropWhile_id)
  have add: "add_in_table f (table t) = Some (tab_used t @ f e # r)"
    by (simp add: add_in_table_eq er tab_used_def)
  then show "add_in_table f (table t) \<noteq> None" by simp
  have r: "\<forall>x\<in>set r. \<not> used x" using assms(1) er by (simp add: tab_ok_def)
  have all: "\<forall>x\<in>set (tab_used t). used x" unfolding tab_used_def by (meson set_takeWhileD)
  have tw: "takeWhile used (tab_used t @ f e # r) = tab_used t @ [f e]"
    "dropWhile used (tab_used t @ f e # r) = r"
    using all r assms(3) [of e] by (cases r; simp add: takeWhile_append2)+
  then show "\<exists>e. tab_used (put_in f t) = tab_used t @ [f e]"
    using add by (intro exI [of _ e]) (simp add: put_in_def tab_used_def)
  have len: "length (tab_used t) + Suc (length r) = PTABLE_ARRAY_SIZE"
    using tab_split [of t] assms(1) by (simp add: er tab_ok_def)
  have u: "tab_used (put_in f t) = tab_used t @ [f e]" "dropWhile used (table (put_in f t)) = r"
    using add tw by (simp_all add: put_in_def tab_used_def)
  have "length (table (put_in f t)) = PTABLE_ARRAY_SIZE" using add len by (simp add: put_in_def)
  moreover have "entry_count (put_in f t) = length (tab_used (put_in f t))"
    using assms(1) len u by (simp add: put_in_def tab_ok_def)
  ultimately show "tab_ok (put_in f t)" using u r by (simp add: tab_ok_def)
qed

lemma add_in_tables_eq:
  assumes "\<forall>b\<in>set bs. entry_count b = PTABLE_ARRAY_SIZE" "tab_ok t" "\<And>e. used (f e)"
  shows "add_in_tables f (bs @ [t]) =
    (if entry_count t = PTABLE_ARRAY_SIZE then None else Some (bs @ [put_in f t]))"
  using assms(1)
proof (induction bs)
  case Nil
  show ?case
    using put_in_ok(1) [of t f] assms(2,3) by (cases "entry_count t = PTABLE_ARRAY_SIZE") (auto simp: put_in_def)
next
  case (Cons b bs)
  then show ?case by simp
qed

section \<open>Frames\<close>

definition vm_ok :: "vmst \<Rightarrow> bool" where
  "vm_ok v \<longleftrightarrow> mp_ok (vm_mp v) \<and> lock_free (vm_slock v) \<and> singles_inv (vm_cm v)"

definition frames :: "vmst \<Rightarrow> nat set" where
  "frames v = page_addr (vm_cm v) ` used_pages (vm_cm v)"

definition all_frames :: "vmst \<Rightarrow> nat set" where
  "all_frames v = page_addr (vm_cm v) ` {..<cm_entries (vm_cm v)}"

text \<open>Only the coremap has changed, and it manages the same frames.\<close>

definition same_but_cm :: "vmst \<Rightarrow> vmst \<Rightarrow> bool" where
  "same_but_cm v v' \<longleftrightarrow> vm_mp v' = vm_mp v \<and> vm_slock v' = vm_slock v \<and> vm_bytes v' = vm_bytes v \<and>
     all_frames v' = all_frames v"

lemma same_but_cm_refl [simp]: "same_but_cm v v"
  by (simp add: same_but_cm_def)

lemma same_but_cm_trans: "same_but_cm u v \<Longrightarrow> same_but_cm v w \<Longrightarrow> same_but_cm u w"
  by (simp add: same_but_cm_def)

lemma same_but_cmI:
  "cm_entries m = cm_entries (vm_cm v) \<Longrightarrow> freespace m = freespace (vm_cm v) \<Longrightarrow> same_but_cm v (v\<lparr>vm_cm := m\<rparr>)"
  by (auto simp: same_but_cm_def all_frames_def page_addr_def)

lemma frames_upd:
  "freespace m = freespace (vm_cm v) \<Longrightarrow> frames (v\<lparr>vm_cm := m\<rparr>) = page_addr (vm_cm v) ` used_pages m"
  by (simp add: frames_def page_addr_def)

lemma frames_sub: "vm_ok v \<Longrightarrow> frames v \<subseteq> all_frames v"
  unfolding frames_def all_frames_def vm_ok_def using pages.used_slots by blast

lemma singles_cm_ok: "singles_inv m \<Longrightarrow> cm_ok m"
  by (auto simp: singles_inv_def cm_rep_def)

lemma frame_bounds:
  assumes "vm_ok v" "a \<in> all_frames v"
  shows "0 < a" "a mod PAGE_SIZE = 0" "a + PAGE_SIZE \<le> 508*1024*1024"
proof -
  have ok: "cm_ok (vm_cm v)" using assms(1) singles_cm_ok by (simp add: vm_ok_def)
  obtain i where i: "i < cm_entries (vm_cm v)" "a = freespace (vm_cm v) + i * PAGE_SIZE"
    using assms(2) by (auto simp: all_frames_def page_addr_def)
  have "(i + 1) * PAGE_SIZE \<le> cm_entries (vm_cm v) * PAGE_SIZE" using i(1) by (intro mult_le_mono1) simp
  then show "0 < a" "a mod PAGE_SIZE = 0" "a + PAGE_SIZE \<le> 508*1024*1024"
    using ok i by (auto simp: cm_ok_def)
qed

abbreviation pm_of :: "vmst \<Rightarrow> pmem" where
  "pm_of v \<equiv> \<lparr>cm = vm_cm v, coremap_slock = vm_slock v, cur_spl = cpu_spl (vm_mp v)\<rparr>"

lemma pm_of_ok: "vm_ok v \<Longrightarrow> pm_ok (pm_of v)"
  by (simp add: vm_ok_def pm_ok_def mp_ok_def)

lemma run_pm_eq:
  "f (Some (curcpu (vm_mp v))) (pm_of v) = Some (r, (pm_of v)\<lparr>cm := m\<rparr>) \<Longrightarrow> run_pm f v = Some (r, v\<lparr>vm_cm := m\<rparr>)"
  by (simp add: run_pm_def)

lemma vm_ok_upd: "vm_ok v \<Longrightarrow> singles_inv m \<Longrightarrow> vm_ok (v\<lparr>vm_cm := m\<rparr>)"
  by (simp add: vm_ok_def)

text \<open>Both ways to take one page: for user memory, and for a block of \<^verbatim>\<open>kmalloc\<close>.\<close>

definition takes_frame :: "vmst \<Rightarrow> nat \<Rightarrow> vmst \<Rightarrow> bool" where
  "takes_frame v a v' \<longleftrightarrow> a \<in> all_frames v - frames v \<and> frames v' = insert a (frames v) \<and>
     vm_ok v' \<and> same_but_cm v v'"

lemma one_frame:
  assumes "vm_ok v"
  obtains (full) "getpaddr 1 (vm_cm v) = Some 0" "frames v = all_frames v"
  | (got) a m where "getpaddr 1 (vm_cm v) = Some a" "a \<noteq> 0" "addtocoremap a 1 iskern (vm_cm v) = Some m"
      "takes_frame v a (v\<lparr>vm_cm := m\<rparr>)"
proof -
  have inv: "singles_inv (vm_cm v)" using assms by (simp add: vm_ok_def)
  show thesis
    using inv
  proof (cases rule: one_page [where iskern = iskern])
    case full
    then show ?thesis using that(1) by (simp add: frames_def all_frames_def)
  next
    case (got j m)
    have "page_addr (vm_cm v) j \<notin> frames v" using got(5) by (auto simp: frames_def page_addr_inj)
    then have "takes_frame v (page_addr (vm_cm v) j) (v\<lparr>vm_cm := m\<rparr>)"
      using got vm_ok_upd [OF assms got(7)] same_but_cmI [OF got(8,9)]
      by (auto simp: takes_frame_def frames_upd all_frames_def frames_def [of v])
    then show ?thesis using got that(2) by blast
  qed
qed

lemma get_page_cases:
  assumes "vm_ok v"
  obtains (full) "get_page v = Some (0, v)" "frames v = all_frames v"
  | (got) a v' where "get_page v = Some (a, v')" "a \<noteq> 0" "takes_frame v a v'"
  using assms
proof (cases rule: one_frame [where iskern = False])
  case full
  have "get_user_page (Some (curcpu (vm_mp v))) (pm_of v) = Some (0, (pm_of v)\<lparr>cm := vm_cm v\<rparr>)"
    using pm_of_ok [OF assms] full by (simp add: get_user_page_def)
  then show ?thesis using run_pm_eq that(1) full(2) by (force simp: get_page_def)
next
  case (got a m)
  have "get_user_page (Some (curcpu (vm_mp v))) (pm_of v) = Some (a, (pm_of v)\<lparr>cm := m\<rparr>)"
    using cm_lock_unlock [OF pm_of_ok [OF assms]] got by (simp add: get_user_page_def)
  then show ?thesis using run_pm_eq that(2) got by (metis get_page_def)
qed

lemma kmalloc_cases:
  assumes "vm_ok v" "0 < sz" "sz \<le> PAGE_SIZE"
  obtains (full) "kmalloc_large sz v = Some (0, v)" "frames v = all_frames v"
  | (got) a v' where "kmalloc_large sz v = Some (a + MIPS_KSEG0, v')" "a \<noteq> 0" "takes_frame v a v'"
proof -
  have n: "int ((sz + PAGE_SIZE - 1) div PAGE_SIZE) = 1"
  proof -
    have "(sz + PAGE_SIZE - 1) div PAGE_SIZE = 1" by (rule div_nat_eqI) (use assms(2,3) in simp_all)
    then show ?thesis by (metis of_nat_1)
  qed
  note alloc = alloc_kpages_eq [OF pm_of_ok [OF assms(1)], where cpu = "Some (curcpu (vm_mp v))" and npages = 1]
  show thesis
    using assms(1)
  proof (cases rule: one_frame [where iskern = True])
    case full
    then have "alloc_kpages (Some (curcpu (vm_mp v))) 1 (pm_of v) = Some (0, (pm_of v)\<lparr>cm := vm_cm v\<rparr>)"
      using alloc by simp
    then have "kmalloc_large sz v = Some (0, v\<lparr>vm_cm := vm_cm v\<rparr>)" unfolding kmalloc_large_def n by (rule run_pm_eq)
    then show ?thesis using full(2) that(1) by simp
  next
    case (got a m)
    have af: "a \<in> all_frames v" using got(4) by (simp add: takes_frame_def)
    have "PADDR_TO_KVADDR a = a + MIPS_KSEG0"
      using frame_bounds [OF assms(1) af] by (simp add: PADDR_TO_KVADDR_def)
    then have "alloc_kpages (Some (curcpu (vm_mp v))) 1 (pm_of v) = Some (a + MIPS_KSEG0, (pm_of v)\<lparr>cm := m\<rparr>)"
      using alloc got by simp
    then have "kmalloc_large sz v = Some (a + MIPS_KSEG0, v\<lparr>vm_cm := m\<rparr>)"
      unfolding kmalloc_large_def n by (rule run_pm_eq)
    then show ?thesis using got that(2) by blast
  qed
qed

text \<open>Both ways to give one back.\<close>

definition drops_frame :: "vmst \<Rightarrow> nat \<Rightarrow> vmst \<Rightarrow> bool" where
  "drops_frame v a v' \<longleftrightarrow> frames v' = frames v - {a} \<and> vm_ok v' \<and> same_but_cm v v'"

lemma free_frame:
  assumes "vm_ok v" "a \<in> frames v"
  shows "\<exists>m. removefromcoremap a (vm_cm v) = Some m \<and> drops_frame v a (v\<lparr>vm_cm := m\<rparr>)"
proof -
  obtain i where i: "i \<in> used_pages (vm_cm v)" "a = page_addr (vm_cm v) i"
    using assms(2) by (auto simp: frames_def)
  have inv: "singles_inv (vm_cm v)" using assms by (simp add: vm_ok_def)
  obtain m where m: "removefromcoremap a (vm_cm v) = Some m" "used_pages m = used_pages (vm_cm v) - {i}" "singles_inv m"
    using pages.free_used [OF inv i(1)] i(2) by blast
  note keep = removefromcoremap_keeps [OF m(1)]
  have "frames (v\<lparr>vm_cm := m\<rparr>) = frames v - {a}"
  proof -
    have "inj (page_addr (vm_cm v))" by (simp add: inj_def page_addr_inj)
    then have "page_addr (vm_cm v) ` used_pages m = frames v - {a}"
      by (simp add: m(2) i(2) image_set_diff frames_def)
    then show ?thesis using frames_upd [of m v] keep by simp
  qed
  moreover have "vm_ok (v\<lparr>vm_cm := m\<rparr>)" by (rule vm_ok_upd [OF assms(1) m(3)])
  moreover have "same_but_cm v (v\<lparr>vm_cm := m\<rparr>)" using keep by (intro same_but_cmI) simp_all
  ultimately show ?thesis using m(1) by (simp add: drops_frame_def)
qed

lemma free_page_ok:
  assumes "vm_ok v" "a \<in> frames v"
  shows "\<exists>v'. free_page a v = Some v' \<and> drops_frame v a v'"
proof -
  obtain m where m: "removefromcoremap a (vm_cm v) = Some m" "drops_frame v a (v\<lparr>vm_cm := m\<rparr>)"
    using free_frame [OF assms] by blast
  have "map_option (Pair ()) (page_free (Some (curcpu (vm_mp v))) a (pm_of v)) = Some ((), (pm_of v)\<lparr>cm := m\<rparr>)"
    using m(1) page_free_eq [OF pm_of_ok [OF assms(1)]] by simp
  then have "free_page a v = Some (v\<lparr>vm_cm := m\<rparr>)"
    unfolding free_page_def by (subst run_pm_eq) simp_all
  then show ?thesis using m(2) by blast
qed

lemma kfree_ok:
  assumes "vm_ok v" "a \<in> frames v"
  shows "\<exists>v'. kfree_large (a + MIPS_KSEG0) v = Some v' \<and> drops_frame v a v'"
proof -
  obtain m where m: "removefromcoremap a (vm_cm v) = Some m" "drops_frame v a (v\<lparr>vm_cm := m\<rparr>)"
    using free_frame [OF assms] by blast
  note b = frame_bounds [OF assms(1) subsetD [OF frames_sub [OF assms(1)] assms(2)]]
  have "KVADDR_TO_PADDR (a + MIPS_KSEG0) = a" using b by (simp add: KVADDR_TO_PADDR_def)
  then have "map_option (Pair ()) (free_kpages (Some (curcpu (vm_mp v))) (a + MIPS_KSEG0) (pm_of v)) =
      Some ((), (pm_of v)\<lparr>cm := m\<rparr>)"
    using m(1) free_kpages_eq [OF pm_of_ok [OF assms(1)]] by simp
  then have "run_pm (\<lambda>cpu p. map_option (Pair ()) (free_kpages cpu (a + MIPS_KSEG0) p)) v = Some ((), v\<lparr>vm_cm := m\<rparr>)"
    by (rule run_pm_eq)
  moreover have "(a + MIPS_KSEG0) mod PAGE_SIZE = 0"
    using b(2) mod_mult_self1 [of a 524288 PAGE_SIZE] by simp
  ultimately have "kfree_large (a + MIPS_KSEG0) v = Some (v\<lparr>vm_cm := m\<rparr>)"
    by (simp add: kfree_large_def)
  then show ?thesis using m(2) by blast
qed

section \<open>The frames an address space holds\<close>

definition tab_frame :: "page_table \<Rightarrow> nat" where
  "tab_frame t = pt_addr t - MIPS_KSEG0"

definition own :: "addrspace \<Rightarrow> nat list" where
  "own as = map page_paddr (entries as) @ map tab_frame (tl (tables as)) @ [as_addr as - MIPS_KSEG0]"

definition as_held :: "vmst \<Rightarrow> addrspace \<Rightarrow> bool" where
  "as_held v as \<longleftrightarrow> distinct (own as) \<and> set (own as) \<subseteq> frames v \<and> MIPS_KSEG0 \<le> as_addr as \<and>
     (\<forall>t\<in>set (tl (tables as)). MIPS_KSEG0 \<le> pt_addr t)"

text \<open>Giving back a list of frames, one at a time.\<close>

definition drops_all :: "vmst \<Rightarrow> nat set \<Rightarrow> vmst \<Rightarrow> bool" where
  "drops_all v A v' \<longleftrightarrow> frames v' = frames v - A \<and> vm_ok v' \<and> same_but_cm v v'"

lemma drops_all_refl: "vm_ok v \<Longrightarrow> drops_all v {} v"
  by (simp add: drops_all_def)

lemma drops_all_insert: "drops_frame u a v \<Longrightarrow> drops_all v A w \<Longrightarrow> drops_all u (insert a A) w"
  using same_but_cm_trans [of u v w] by (auto simp: drops_all_def drops_frame_def)

lemma drops_all_trans: "drops_all u A v \<Longrightarrow> drops_all v B w \<Longrightarrow> drops_all u (A \<union> B) w"
  using same_but_cm_trans [of u v w] by (auto simp: drops_all_def)

lemma free_entries_ok:
  "vm_ok v \<Longrightarrow> distinct (map page_paddr (takeWhile used es)) \<Longrightarrow> page_paddr ` set (takeWhile used es) \<subseteq> frames v \<Longrightarrow>
   \<exists>v'. free_entries es v = Some v' \<and> drops_all v (page_paddr ` set (takeWhile used es)) v'"
proof (induction es arbitrary: v)
  case (Cons e es)
  show ?case
  proof (cases "used e")
    case False
    then show ?thesis using drops_all_refl Cons.prems by (simp add: used_def)
  next
    case True
    then have "page_paddr e \<in> frames v" using Cons.prems(3) by simp
    then obtain v1 where v1: "free_page (page_paddr e) v = Some v1" "drops_frame v (page_paddr e) v1"
      using free_page_ok [OF Cons.prems(1)] by blast
    have "page_paddr ` set (takeWhile used es) \<subseteq> frames v1"
      using v1(2) Cons.prems(2,3) True by (simp add: drops_frame_def subset_Diff_insert)
    moreover have "vm_ok v1" using v1(2) by (simp add: drops_frame_def)
    ultimately obtain v' where v': "free_entries es v1 = Some v'"
        "drops_all v1 (page_paddr ` set (takeWhile used es)) v'"
      using Cons.IH [of v1] Cons.prems(2) True by auto
    have "free_entries (e # es) v = Some v'" using True v1(1) v'(1) by (simp add: used_def)
    moreover have "drops_all v (page_paddr ` set (takeWhile used (e # es))) v'"
      using drops_all_insert [OF v1(2) v'(2)] True by simp
    ultimately show ?thesis by blast
  qed
qed (simp add: drops_all_refl)

lemma free_all_entries_ok:
  "vm_ok v \<Longrightarrow> distinct (map page_paddr (concat (map tab_used ts))) \<Longrightarrow>
   page_paddr ` set (concat (map tab_used ts)) \<subseteq> frames v \<Longrightarrow>
   \<exists>v'. free_all_entries ts v = Some v' \<and> drops_all v (page_paddr ` set (concat (map tab_used ts))) v'"
proof (induction ts arbitrary: v)
  case (Cons t ts)
  let ?T = "page_paddr ` set (tab_used t)" and ?R = "page_paddr ` set (concat (map tab_used ts))"
  obtain v1 where v1: "free_entries (table t) v = Some v1" "drops_all v ?T v1"
    using free_entries_ok [OF Cons.prems(1), of "table t"] Cons.prems(2,3) by (auto simp: tab_used_def)
  have "?T \<inter> ?R = {}" using Cons.prems(2) by (simp only: list.map concat.simps map_append distinct_append set_append set_map image_Un)
  moreover have "?R \<subseteq> frames v"
    using Cons.prems(3) by (simp only: list.map concat.simps set_append image_Un Un_subset_iff)
  moreover have "frames v1 = frames v - ?T" using v1(2) by (simp add: drops_all_def)
  ultimately have "?R \<subseteq> frames v1" by blast
  moreover have "vm_ok v1" using v1(2) by (simp add: drops_all_def)
  ultimately obtain v' where v': "free_all_entries ts v1 = Some v'" "drops_all v1 ?R v'"
    using Cons.IH [of v1] Cons.prems(2) by auto
  have "drops_all v (?T \<union> ?R) v'" by (rule drops_all_trans [OF v1(2) v'(2)])
  moreover have "?T \<union> ?R = page_paddr ` set (concat (map tab_used (t # ts)))" by auto
  ultimately show ?case using v1(1) v'(1) by simp
qed (simp add: drops_all_refl)

lemma free_tables_ok:
  "vm_ok v \<Longrightarrow> distinct (map tab_frame ts) \<Longrightarrow> tab_frame ` set ts \<subseteq> frames v \<Longrightarrow>
   \<forall>t\<in>set ts. MIPS_KSEG0 \<le> pt_addr t \<Longrightarrow> \<exists>v'. free_tables ts v = Some v' \<and> drops_all v (tab_frame ` set ts) v'"
proof (induction ts arbitrary: v)
  case (Cons t ts)
  have a: "tab_frame t + MIPS_KSEG0 = pt_addr t" using Cons.prems(4) by (simp add: tab_frame_def)
  then obtain v1 where v1: "kfree_large (pt_addr t) v = Some v1" "drops_frame v (tab_frame t) v1"
    using kfree_ok [OF Cons.prems(1), of "tab_frame t"] Cons.prems(3) by auto
  have "tab_frame ` set ts \<subseteq> frames v1" using v1(2) Cons.prems(2,3) by (simp add: drops_frame_def subset_Diff_insert)
  then obtain v' where v': "free_tables ts v1 = Some v'" "drops_all v1 (tab_frame ` set ts) v'"
    using Cons.IH [of v1] Cons.prems v1(2) by (auto simp: drops_frame_def)
  show ?case using v1(1) v'(1) drops_all_insert [OF v1(2) v'(2)] by simp
qed (simp add: drops_all_refl)

lemma as_destroy_ok:
  assumes "vm_ok v" "as_held v as"
  shows "\<exists>v'. as_destroy as v = Some v' \<and> drops_all v (set (own as)) v'"
proof -
  let ?E = "page_paddr ` set (entries as)" and ?T = "tab_frame ` set (tl (tables as))" and ?a = "as_addr as - MIPS_KSEG0"
  have d: "distinct (map page_paddr (entries as))" "distinct (map tab_frame (tl (tables as)))"
      "?E \<inter> ?T = {}" "?a \<notin> ?E" "?a \<notin> ?T"
    and sub: "?E \<subseteq> frames v" "?T \<subseteq> frames v" "?a \<in> frames v"
    and k: "?a + MIPS_KSEG0 = as_addr as" "\<forall>t\<in>set (tl (tables as)). MIPS_KSEG0 \<le> pt_addr t"
    using assms(2) by (auto simp: as_held_def own_def)
  obtain v1 where v1: "free_all_entries (tables as) v = Some v1" "drops_all v ?E v1"
    using free_all_entries_ok [OF assms(1), of "tables as"] d(1) sub(1) unfolding entries_def by auto
  have "vm_ok v1" "?T \<subseteq> frames v1" using v1(2) d(3) sub(2) by (auto simp: drops_all_def)
  then obtain v2 where v2: "free_tables (tl (tables as)) v1 = Some v2" "drops_all v1 ?T v2"
    using free_tables_ok [of v1 "tl (tables as)"] d(2) k(2) by blast
  have "vm_ok v2" "?a \<in> frames v2" using v1(2) v2(2) d(4,5) sub(3) by (auto simp: drops_all_def)
  then obtain v3 where v3: "kfree_large (as_addr as) v2 = Some v3" "drops_frame v2 ?a v3"
    using kfree_ok [of v2 ?a] k(1) by auto
  have "drops_all v2 {?a} v3" using v3(2) by (simp add: drops_all_def drops_frame_def)
  then have "drops_all v (?E \<union> (?T \<union> {?a})) v3"
    using drops_all_trans v1(2) v2(2) by blast
  moreover have "set (own as) = ?E \<union> (?T \<union> {?a})" by (simp add: own_def)
  ultimately show ?thesis using v1(1) v2(1) v3(1) by (simp add: as_destroy_def)
qed

section \<open>Adding an entry\<close>

definition adds_entry :: "nat \<Rightarrow> nat \<Rightarrow> bool \<Rightarrow> bool \<Rightarrow> bool \<Rightarrow> addrspace \<Rightarrow> addrspace \<Rightarrow> bool" where
  "adds_entry va pa r w x as as' \<longleftrightarrow> as_ok as' \<and>
     (\<exists>e. entries as' = entries as @ [e] \<and> page_vaddr e = va \<and> page_paddr e = pa \<and>
          isRead e = r \<and> isWrite e = w \<and> isExe e = x) \<and>
     as' = as\<lparr>tables := tables as', endix := endix as'\<rparr>"

text \<open>A step that may have taken frames and holds all it took.\<close>

definition grows :: "vmst \<Rightarrow> vmst \<Rightarrow> bool" where
  "grows v v' \<longleftrightarrow> frames v \<subseteq> frames v' \<and> vm_ok v' \<and> same_but_cm v v'"

lemma grows_refl: "vm_ok v \<Longrightarrow> grows v v"
  by (simp add: grows_def)

lemma grows_trans: "grows u v \<Longrightarrow> grows v w \<Longrightarrow> grows u w"
  using same_but_cm_trans [of u v w] by (auto simp: grows_def)

lemma takes_frame_grows: "takes_frame v a v' \<Longrightarrow> grows v v'"
  by (auto simp: takes_frame_def grows_def)

lemma as_held_grows: "as_held v as \<Longrightarrow> grows v v' \<Longrightarrow> as_held v' as"
  by (auto simp: as_held_def grows_def)

lemma as_held_extend:
  assumes "as_held v as" "grows v v'" "mset (own as') = mset (xs @ own as)" "distinct xs"
    "set xs \<inter> set (own as) = {}" "set xs \<subseteq> frames v'" "as_addr as' = as_addr as"
    "\<forall>t\<in>set (tl (tables as')). MIPS_KSEG0 \<le> pt_addr t"
  shows "as_held v' as'"
proof -
  have "distinct (own as')"
    using mset_eq_imp_distinct_iff [OF assms(3)] assms(1,4,5) by (auto simp: as_held_def)
  moreover have "set (own as') = set xs \<union> set (own as)" using mset_eq_setD [OF assms(3)] by simp
  moreover have "frames v \<subseteq> frames v'" using assms(2) by (simp add: grows_def)
  ultimately show ?thesis using assms(1,6-8) by (auto simp: as_held_def)
qed

lemma set_entry_fields [simp]:
  "page_vaddr (set_entry va pa r w x e) = va" "page_paddr (set_entry va pa r w x e) = pa"
  "isRead (set_entry va pa r w x e) = r" "isWrite (set_entry va pa r w x e) = w" "isExe (set_entry va pa r w x e) = x"
  by (simp_all add: set_entry_def)

lemma put_in_frame [simp]: "tab_frame (put_in f t) = tab_frame t" "pt_addr (put_in f t) = pt_addr t"
  by (simp_all add: put_in_def tab_frame_def)

lemma new_table_ok:
  assumes "\<And>e. used (f e)"
  shows "tab_ok (new_table junk f a)" "tab_used (new_table junk f a) = [f (junk a 0)]" "pt_addr (new_table junk f a) = a"
proof -
  have [simp]: "\<not> used ((junk a i)\<lparr>page_paddr := 0\<rparr>)" for i by (simp add: used_def)
  have tw: "takeWhile used (map (\<lambda>i. (junk a i)\<lparr>page_paddr := 0\<rparr>) xs) = []"
    "dropWhile used (map (\<lambda>i. (junk a i)\<lparr>page_paddr := 0\<rparr>) xs) = map (\<lambda>i. (junk a i)\<lparr>page_paddr := 0\<rparr>) xs" for xs
    by (cases xs; simp)+
  show u: "tab_used (new_table junk f a) = [f (junk a 0)]"
    using assms [of "junk a 0"] by (simp add: tab_used_def new_table_def tw)
  have "dropWhile used (table (new_table junk f a)) = map (\<lambda>i. (junk a i)\<lparr>page_paddr := 0\<rparr>) [1..<PTABLE_ARRAY_SIZE]"
    using assms [of "junk a 0"] by (simp only: new_table_def page_table.simps dropWhile.simps if_True tw)
  moreover have "length (table (new_table junk f a)) = PTABLE_ARRAY_SIZE" "entry_count (new_table junk f a) = 1"
    by (simp_all add: new_table_def)
  ultimately show "tab_ok (new_table junk f a)" unfolding tab_ok_def using u by auto
  show "pt_addr (new_table junk f a) = a" by (simp add: new_table_def)
qed

lemma as_tables_split:
  assumes "as_ok as"
  obtains bs t where "tables as = bs @ [t]" "tab_ok t" "\<forall>b\<in>set bs. tab_ok b \<and> entry_count b = PTABLE_ARRAY_SIZE"
    "endix as = length bs"
proof -
  have "tables as = butlast (tables as) @ [last (tables as)]" using assms by (simp add: as_ok_def)
  then show ?thesis
    using assms that [of "butlast (tables as)" "last (tables as)"]
    by (auto simp: as_ok_def dest: in_set_butlastD)
qed

lemma tl_snoc: "tl (bs @ [t]) = (if bs = [] then [] else tl bs @ [t])"
  by (cases bs) auto

lemma addPageEntry_ok:
  assumes as: "as_ok as" and v: "vm_ok v" and held: "as_held v as" and pa: "pa \<in> frames v" "pa \<notin> set (own as)"
  shows "if entry_count (last (tables as)) = PTABLE_ARRAY_SIZE \<and> frames v = all_frames v
    then addPageEntry junk va pa r w x as v = None
    else \<exists>as' v'. addPageEntry junk va pa r w x as v = Some (as', v') \<and> adds_entry va pa r w x as as' \<and>
      as_held v' as' \<and> grows v v' \<and> (v' = v \<or> (\<exists>b. takes_frame v b v'))"
proof -
  let ?f = "set_entry va pa r w x"
  have pa0: "pa \<noteq> 0" using frame_bounds(1) [OF v] frames_sub [OF v] pa(1) by blast
  then have f: "used (?f e)" for e by (simp add: used_def)
  obtain bs t where t: "tables as = bs @ [t]" "tab_ok t" "\<forall>b\<in>set bs. tab_ok b \<and> entry_count b = PTABLE_ARRAY_SIZE"
      "endix as = length bs" using as_tables_split [OF as] .
  have add: "add_in_tables ?f (tables as) =
      (if entry_count t = PTABLE_ARRAY_SIZE then None else Some (bs @ [put_in ?f t]))"
    unfolding t(1) by (rule add_in_tables_eq) (use t f in auto)
  show ?thesis
  proof (cases "entry_count t = PTABLE_ARRAY_SIZE")
    case False
    let ?as = "as\<lparr>tables := bs @ [put_in ?f t]\<rparr>"
    obtain e where e: "tab_used (put_in ?f t) = tab_used t @ [?f e]" and ok: "tab_ok (put_in ?f t)"
      using put_in_ok(2,3) [where f = ?f, OF t(2) False f] by blast
    have ent: "entries ?as = entries as @ [?f e]" by (simp add: entries_def t(1) e)
    have "as_ok ?as" using t ok by (auto simp: as_ok_def)
    then have "adds_entry va pa r w x as ?as" unfolding adds_entry_def using ent by auto
    moreover have "map tab_frame (tl (tables ?as)) = map tab_frame (tl (tables as))" by (simp add: t(1) tl_snoc)
    then have "mset (own ?as) = mset ([pa] @ own as)"
      unfolding own_def ent by (simp only: map_append list.map mset_append mset.simps set_entry_fields addrspace.simps) simp
    then have "as_held v ?as"
    proof (rule as_held_extend [OF held grows_refl [OF v]])
      show "\<forall>t\<in>set (tl (tables ?as)). MIPS_KSEG0 \<le> pt_addr t"
        using held by (auto simp: as_held_def t(1) tl_snoc split: if_splits)
    qed (use pa in auto)
    moreover have "addPageEntry junk va pa r w x as v = Some (?as, v)"
      using add False by (simp add: addPageEntry_def)
    ultimately show ?thesis using False grows_refl [OF v] t(1) by auto
  next
    case full: True
    have sz: "0 < (4064::nat)" "4064 \<le> PAGE_SIZE" by simp_all
    from v sz show ?thesis
    proof (cases rule: kmalloc_cases)
      case none: full
      then show ?thesis using full add t(1) by (simp add: addPageEntry_def)
    next
      case (got a v')
      let ?t = "new_table junk ?f (a + MIPS_KSEG0)"
      let ?as = "as\<lparr>tables := bs @ [t, ?t], endix := endix as + 1\<rparr>"
      note nt = new_table_ok [where f = ?f and junk = junk and a = "a + MIPS_KSEG0", OF f]
      have ent: "entries ?as = entries as @ [?f (junk (a + MIPS_KSEG0) 0)]" by (simp add: entries_def t(1) nt(2))
      have "as_ok ?as" using t full nt(1) by (auto simp: as_ok_def butlast_append)
      then have "adds_entry va pa r w x as ?as" unfolding adds_entry_def using ent by auto
      moreover have tlq: "tl (tables ?as) = tl (tables as) @ [?t]" by (cases bs) (simp_all add: t(1))
      have "mset (own ?as) = mset ([pa, a] @ own as)"
        unfolding own_def ent tlq by (simp add: tab_frame_def nt(3))
      then have "as_held v' ?as"
      proof (rule as_held_extend [OF held takes_frame_grows [OF got(3)]])
        have "a \<notin> frames v" using got(3) by (simp add: takes_frame_def)
        then show "distinct [pa, a]" "set [pa, a] \<inter> set (own as) = {}" using pa held by (auto simp: as_held_def)
        show "\<forall>t\<in>set (tl (tables ?as)). MIPS_KSEG0 \<le> pt_addr t"
          using held unfolding tlq by (simp add: as_held_def nt(3))
      qed (use pa got(3) in \<open>auto simp: takes_frame_def\<close>)
      moreover have "addPageEntry junk va pa r w x as v = Some (?as, v')"
        using add full got(1,2) t by (simp add: addPageEntry_def)
      moreover have "frames v \<noteq> all_frames v" using got(3) by (auto simp: takes_frame_def)
      ultimately show ?thesis using takes_frame_grows [OF got(3)] got(3) by auto
    qed
  qed
qed

section \<open>Loading the TLB\<close>

abbreviation cur_tlb :: "mp \<Rightarrow> tlb_entry list" where
  "cur_tlb m \<equiv> c_tlb (allcpus m ! curcpu m)"

definition valid_entry :: "tlb_entry \<Rightarrow> bool" where
  "valid_entry e \<longleftrightarrow> snd e AND TLBLO_VALID \<noteq> 0"

lemma free_slot_spec:
  "curcpu m < length (allcpus m) \<Longrightarrow> i + left = length (cur_tlb m) \<Longrightarrow>
   (\<exists>j. free_slot left i m = Some (Some j) \<and> i \<le> j \<and> j < length (cur_tlb m) \<and> \<not> valid_entry (cur_tlb m ! j)) \<or>
   free_slot left i m = Some None \<and> (\<forall>j. i \<le> j \<and> j < length (cur_tlb m) \<longrightarrow> valid_entry (cur_tlb m ! j))"
proof (induction left arbitrary: i)
  case (Suc left)
  have rd: "tlb_read i m = Some (cur_tlb m ! i)"
    using Suc.prems by (simp add: tlb_read_def get_cpu_eq)
  show ?case
  proof (cases "valid_entry (cur_tlb m ! i)")
    case True
    then have "free_slot (Suc left) i m = free_slot left (i + 1) m"
      by (cases "cur_tlb m ! i") (simp add: rd valid_entry_def)
    moreover have "\<forall>j. i + 1 \<le> j \<and> j < length (cur_tlb m) \<longrightarrow> valid_entry (cur_tlb m ! j) \<Longrightarrow>
        \<forall>j. i \<le> j \<and> j < length (cur_tlb m) \<longrightarrow> valid_entry (cur_tlb m ! j)"
      using True by (metis Suc_eq_plus1 not_less_eq_eq le_antisym)
    ultimately show ?thesis using Suc.IH [of "i + 1"] Suc.prems by (metis Suc_eq_plus1 Suc_leD add_Suc_shift)
  next
    case False
    then have "free_slot (Suc left) i m = Some (Some i)"
      by (cases "cur_tlb m ! i") (simp add: rd valid_entry_def)
    then show ?thesis using False Suc.prems by auto
  qed
qed auto

definition tlb_pair :: "nat \<Rightarrow> nat \<Rightarrow> tlb_entry" where
  "tlb_pair fa paddr = (of_nat fa, of_nat paddr OR TLBLO_DIRTY OR TLBLO_VALID)"

lemma tlb_write_eq:
  assumes "mp_ok m" "i < NUM_TLB"
  shows "tlb_write eh el i m =
    Some (put_cpu (curcpu m) ((allcpus m ! curcpu m)\<lparr>c_tlb := (cur_tlb m)[i := (eh, el)]\<rparr>) m)"
  using assms mp_ok_cpu(1) [OF assms(1), of "curcpu m"] by (simp add: tlb_write_def get_cpu_eq mp_ok_def)

lemma mp_ok_put:
  assumes "mp_ok m" "length (c_tlb c) = NUM_TLB" "length (c_shootdown c) = 16" "lock_free (c_ipi_lock c)"
  shows "mp_ok (put_cpu i c m)"
  using assms by (auto simp: mp_ok_def dest!: set_update_subset_insert [THEN subsetD])

text \<open>One slot now holds the translation; it is one that held no valid entry, if there was any.\<close>

lemma load_tlb_ok:
  assumes "mp_ok m"
  shows "\<exists>i m'. load_tlb slot fa paddr m = Some m' \<and> mp_ok m' \<and> i < NUM_TLB \<and> curcpu m' = curcpu m \<and>
    cpu_spl m' = cpu_spl m \<and> cur_tlb m' = (cur_tlb m)[i := tlb_pair fa paddr] \<and>
    ((\<exists>j<NUM_TLB. \<not> valid_entry (cur_tlb m ! j)) \<longrightarrow> \<not> valid_entry (cur_tlb m ! i))"
proof -
  let ?me = "curcpu m" and ?c = "allcpus m ! curcpu m"
  have i: "?me < length (allcpus m)" and g: "spl_good (cpu_spl m)" using assms by (simp_all add: mp_ok_def)
  note c = mp_ok_cpu [OF assms i]
  let ?m1 = "m\<lparr>cpu_spl := hi (cpu_spl m)\<rparr>"
  have ok1: "mp_ok ?m1" using assms g by (simp add: mp_ok_def)
  obtain s where s: "free_slot NUM_TLB 0 ?m1 = Some s"
      "case s of Some j \<Rightarrow> j < NUM_TLB \<and> \<not> valid_entry (cur_tlb m ! j) | None \<Rightarrow> \<forall>j<NUM_TLB. valid_entry (cur_tlb m ! j)"
    using free_slot_spec [of ?m1 0 NUM_TLB] i c(1) by auto
  define j where "j = (case s of Some j \<Rightarrow> j | None \<Rightarrow> slot mod NUM_TLB)"
  have j: "j < NUM_TLB" using s(2) by (auto simp: j_def split: option.splits)
  let ?c' = "?c\<lparr>c_tlb := (cur_tlb m)[j := tlb_pair fa paddr]\<rparr>"
  let ?m2 = "put_cpu ?me ?c' ?m1"
  have w: "(case s of
             Some i \<Rightarrow> tlb_write (of_nat fa) (of_nat paddr OR TLBLO_DIRTY OR TLBLO_VALID) i ?m1
           | None \<Rightarrow> tlb_random slot (of_nat fa) (of_nat paddr OR TLBLO_DIRTY OR TLBLO_VALID) ?m1) = Some ?m2"
    using tlb_write_eq [OF ok1 j] by (cases s) (simp_all add: tlb_random_def j_def tlb_pair_def)
  have "restore_spl (t_curspl (cpu_spl m)) ?m2 = Some (?m2\<lparr>cpu_spl := cpu_spl m\<rparr>)"
    by (rule restore_spl_eq [OF g]) simp
  then have "load_tlb slot fa paddr m = Some (?m2\<lparr>cpu_spl := cpu_spl m\<rparr>)"
    unfolding load_tlb_def raise_spl_eq [OF g] Option.bind.simps prod.case s(1) w .
  moreover have "?m2\<lparr>cpu_spl := cpu_spl m\<rparr> = put_cpu ?me ?c' m" by simp
  moreover have "mp_ok (put_cpu ?me ?c' m)" by (rule mp_ok_put [OF assms]) (use c in simp_all)
  moreover have "(\<exists>k<NUM_TLB. \<not> valid_entry (cur_tlb m ! k)) \<longrightarrow> \<not> valid_entry (cur_tlb m ! j)"
    using s(2) by (auto simp: j_def split: option.splits)
  ultimately show ?thesis using i j by (intro exI [of _ j] exI [of _ "put_cpu ?me ?c' m"]) simp
qed

section \<open>Faults\<close>

text \<open>What kind of fault it is, from the entries of the address space alone.\<close>

datatype fault_kind = Reject errno | Mapped page_entry | Grow

definition fault_kind :: "int \<Rightarrow> nat \<Rightarrow> addrspace \<Rightarrow> fault_kind" where
  "fault_kind ft fa as =
     (if USERSTACK \<le> fa \<or> fa < vstart as \<or> ft = VM_FAULT_READONLY then Reject EFAULT
      else if ft \<noteq> VM_FAULT_READ \<and> ft \<noteq> VM_FAULT_WRITE then Reject EINVAL
      else case find (\<lambda>e. page_vaddr e = fa) (entries as) of
             Some e \<Rightarrow> if ft = VM_FAULT_WRITE \<and> \<not> isWrite e then Reject EFAULT else Mapped e
           | None \<Rightarrow> if ft = VM_FAULT_WRITE \<and> STACK_BASE \<le> fa then Grow else Reject EFAULT)"

definition translates :: "vmst \<Rightarrow> nat \<Rightarrow> nat \<Rightarrow> bool" where
  "translates v fa a \<longleftrightarrow> tlb_pair fa a \<in> set (cur_tlb (vm_mp v))"

lemma load_tlb_vm:
  assumes "vm_ok v"
  shows "\<exists>m. load_tlb slot fa a (vm_mp v) = Some m \<and> vm_ok (v\<lparr>vm_mp := m\<rparr>) \<and> translates (v\<lparr>vm_mp := m\<rparr>) fa a"
proof -
  have mp: "mp_ok (vm_mp v)" using assms by (simp add: vm_ok_def)
  then obtain i m where m: "load_tlb slot fa a (vm_mp v) = Some m" "mp_ok m" "i < NUM_TLB"
      "cur_tlb m = (cur_tlb (vm_mp v))[i := tlb_pair fa a]"
    using load_tlb_ok [of "vm_mp v" slot fa a] by blast
  have "length (cur_tlb (vm_mp v)) = NUM_TLB" using mp by (intro mp_ok_cpu(1)) (simp_all add: mp_ok_def)
  then have "tlb_pair fa a \<in> set (cur_tlb m)" using m(3,4) by (simp add: set_update_memI)
  with m assms show ?thesis by (simp add: vm_ok_def translates_def)
qed

lemma frames_mp [simp]: "frames (v\<lparr>vm_mp := m\<rparr>) = frames v" "all_frames (v\<lparr>vm_mp := m\<rparr>) = all_frames v"
  by (simp_all add: frames_def all_frames_def)

lemma zero_region_keeps [simp]:
  "frames (as_zero_region a n v) = frames v" "all_frames (as_zero_region a n v) = all_frames v"
  "vm_ok (as_zero_region a n v) = vm_ok v" "vm_mp (as_zero_region a n v) = vm_mp v"
  by (simp_all add: as_zero_region_def frames_def all_frames_def vm_ok_def)

lemma as_held_frames: "as_held v as \<Longrightarrow> frames v' = frames v \<Longrightarrow> as_held v' as"
  by (simp add: as_held_def)

text \<open>A new page of the stack: it comes zeroed, and it is the address space's from then on.\<close>

definition grown :: "nat \<Rightarrow> addrspace \<Rightarrow> vmst \<Rightarrow> addrspace \<Rightarrow> vmst \<Rightarrow> bool" where
  "grown fa as v as' v' \<longleftrightarrow> (\<exists>a. a \<notin> frames v \<and> adds_entry fa a True True False as as' \<and> as_held v' as' \<and>
     (\<forall>i<PAGE_SIZE. vm_bytes v' (a + i) = 0) \<and> translates v' fa a) \<and> frames v \<subseteq> frames v' \<and> vm_ok v'"

lemma fault_grow:
  assumes "as_ok as" "vm_ok v" "as_held v as" "find_entry (tables as) fa = None"
    "STACK_BASE \<le> fa" "fa < USERSTACK" "vstart as \<le> fa" "fa = page_frame va"
  shows "vm_fault junk slot VM_FAULT_WRITE va as v = Some (ENOMEM, as, v) \<and> frames v = all_frames v \<or>
    (\<exists>as' v'. vm_fault junk slot VM_FAULT_WRITE va as v = Some (0, as', v') \<and> grown fa as v as' v') \<or>
    vm_fault junk slot VM_FAULT_WRITE va as v = None \<and> entry_count (last (tables as)) = PTABLE_ARRAY_SIZE \<and>
      (\<exists>a. all_frames v - frames v = {a})"
  using assms(2)
proof (cases rule: get_page_cases)
  case full
  then show ?thesis using assms(4-8) by (simp add: vm_fault_def fault_frame_def)
next
  case (got a v1)
  have a: "a \<in> frames v1" "a \<notin> set (own as)" "a \<notin> frames v" and ok1: "vm_ok v1" and
    same: "all_frames v1 = all_frames v" "frames v1 = insert a (frames v)"
    using got(3) assms(3) by (auto simp: takes_frame_def as_held_def same_but_cm_def)
  have held1: "as_held v1 as" using as_held_grows [OF assms(3) takes_frame_grows [OF got(3)]] .
  note add = addPageEntry_ok [OF assms(1) ok1 held1 a(1,2), of junk fa True True False]
  show ?thesis
  proof (cases "entry_count (last (tables as)) = PTABLE_ARRAY_SIZE \<and> frames v1 = all_frames v1")
    case True
    have "vm_fault junk slot VM_FAULT_WRITE va as v = None"
      using add True got(1,2) assms(4-8) by (simp add: vm_fault_def fault_frame_def)
    moreover have "all_frames v - frames v = {a}" using True same a(3) by auto
    ultimately show ?thesis using True by blast
  next
    case False
    then obtain as' v2 where r: "addPageEntry junk fa a True True False as v1 = Some (as', v2)"
        "adds_entry fa a True True False as as'" "as_held v2 as'" "grows v1 v2"
      using add unfolding if_not_P [OF False] by blast
    let ?v3 = "as_zero_region a 1 v2"
    have "vm_ok ?v3" using r(4) by (simp add: grows_def)
    then obtain m where m: "load_tlb slot fa a (vm_mp ?v3) = Some m" "vm_ok (?v3\<lparr>vm_mp := m\<rparr>)"
        "translates (?v3\<lparr>vm_mp := m\<rparr>) fa a"
      using load_tlb_vm by blast
    have "vm_fault junk slot VM_FAULT_WRITE va as v = Some (0, as', ?v3\<lparr>vm_mp := m\<rparr>)"
      using r(1) m(1) got(1,2) assms(4-8) by (simp add: vm_fault_def fault_frame_def)
    moreover have "as_held (?v3\<lparr>vm_mp := m\<rparr>) as'" by (rule as_held_frames [OF r(3)]) simp
    moreover have "\<forall>i<PAGE_SIZE. vm_bytes (?v3\<lparr>vm_mp := m\<rparr>) (a + i) = 0" by (simp add: as_zero_region_def)
    ultimately have "grown fa as v as' (?v3\<lparr>vm_mp := m\<rparr>)"
      unfolding grown_def using r(2,4) m(2,3) a(3) same(2) by (auto simp: grows_def)
    then show ?thesis using \<open>vm_fault junk slot VM_FAULT_WRITE va as v = _\<close> by blast
  qed
qed

section \<open>A concrete address space\<close>

text \<open>A machine with \<open>k\<close> frames in use, from 4096 on, and \<open>h\<close> free ones after them.\<close>

definition cm_of :: "nat \<Rightarrow> nat \<Rightarrow> cmap" where
  "cm_of k h = \<lparr>coremap = layout (replicate k (Chunk 1 True) @ replicate h Hole) @ [free_entry],
     cm_entries = k + h, cm_lastentry = 0, freespace = 4096\<rparr>"

definition v_of :: "nat \<Rightarrow> nat \<Rightarrow> vmst" where
  "v_of k h = \<lparr>vm_mp = mp2, vm_cm = cm_of k h, vm_slock = \<lparr>lk_lock = 0, lk_holder = None\<rparr>, vm_bytes = (\<lambda>_. 7)\<rparr>"

abbreviation v_ex :: vmst where
  "v_ex \<equiv> v_of 2 2"

definition blank :: page_entry where
  "blank = \<lparr>page_vaddr = 0, page_paddr = 0, isRead = False, isWrite = False, isExe = False, isShared = False\<rparr>"

definition code_entry :: page_entry where
  "code_entry = \<lparr>page_vaddr = 0x400000, page_paddr = 8192, isRead = True, isWrite = False, isExe = True, isShared = False\<rparr>"

definition as_ex :: addrspace where
  "as_ex = \<lparr>as_addr = 4096 + MIPS_KSEG0, vbreakbase = 0x401000, vbreaktop = 0x401000, heapNPages = 0, vstart = 0x400000,
     tables = [\<lparr>pt_addr = 0, table = code_entry # replicate 337 blank, entry_count = 1\<rparr>],
     endix = 0, codeNPages = 1, dataNPages = 0\<rparr>"

lemma tab_ex_used: "takeWhile used (code_entry # replicate 337 blank) = [code_entry]"
  "dropWhile used (code_entry # replicate 337 blank) = replicate 337 blank"
proof -
  have "takeWhile used (replicate n blank) = []" "dropWhile used (replicate n blank) = replicate n blank" for n
    by (cases n; simp add: used_def blank_def)+
  then show "takeWhile used (code_entry # replicate 337 blank) = [code_entry]"
    "dropWhile used (code_entry # replicate 337 blank) = replicate 337 blank"
    by (simp_all add: used_def code_entry_def)
qed

lemma as_ex_entries: "entries as_ex = [code_entry]"
  using tab_ex_used by (simp add: entries_def tab_used_def as_ex_def)

lemma as_ex_ok: "as_ok as_ex"
  using tab_ex_used by (simp add: as_ok_def as_ex_def tab_ok_def tab_used_def) (simp add: used_def blank_def)

lemma layout_ones: "layout (replicate k (Chunk (Suc 0) True)) = replicate k \<lparr>chunk_cnt = 1, is_kern_page = True, is_allocated = True\<rparr>"
  by (induction k) simp_all

lemma v_of_frames: "frames (v_of k h) = (\<lambda>i. 4096 + i * 4096) ` {..<k}"
  "all_frames (v_of k h) = (\<lambda>i. 4096 + i * 4096) ` {..<k + h}"
proof -
  have "used_pages (cm_of k h) = {..<k}"
    by (auto simp: used_pages_def cm_of_def layout_ones nth_append split: if_splits)
  then show "frames (v_of k h) = (\<lambda>i. 4096 + i * 4096) ` {..<k}"
    by (simp add: frames_def v_of_def page_addr_def cm_of_def algebra_simps)
  show "all_frames (v_of k h) = (\<lambda>i. 4096 + i * 4096) ` {..<k + h}"
    by (simp add: all_frames_def v_of_def page_addr_def cm_of_def algebra_simps)
qed

lemma v_of_ok:
  assumes "k + h \<le> 1000"
  shows "vm_ok (v_of k h)"
proof -
  let ?segs = "replicate k (Chunk 1 True) @ replicate h Hole"
  have "cm_rep (cm_of k h) ?segs"
    using assms by (auto simp: cm_rep_def cm_ok_def cm_of_def layout_ones)
  moreover have "next_cnt (cm_of k h) (cm_entries (cm_of k h)) = Some 0"
    by (simp add: next_cnt_def cm_of_def rd_def layout_ones nth_append)
  moreover have "singles ?segs" by (auto simp: singles_def)
  ultimately have "singles_inv (cm_of k h)" unfolding singles_inv_def by (metis zero_le)
  then show ?thesis using mp2_ok by (simp add: vm_ok_def v_of_def lock_free_def)
qed

lemma v_ex_frames: "frames v_ex = {4096, 8192}" "all_frames v_ex = {4096, 8192, 12288, 16384}"
proof -
  have "{..<2} = {0, 1 :: nat}" "{..<4} = {0, 1, 2, 3 :: nat}" by auto
  then show "frames v_ex = {4096, 8192}" "all_frames v_ex = {4096, 8192, 12288, 16384}" by (simp_all add: v_of_frames)
qed

lemma v_ex_ok: "vm_ok v_ex"
  by (rule v_of_ok) simp

lemma as_ex_held: "as_held v_ex as_ex"
  by (simp add: as_held_def own_def as_ex_entries v_ex_frames) (simp add: as_ex_def code_entry_def)

section \<open>Properties\<close>



text \<open>A page that may not be written becomes writable by being read: the translation a read fault loads has the
  write-privilege bit set, whatever the entry says.\<close>

theorem read_fault_grants_write:
  assumes "as_ok as" "vm_ok v" "as_held v as" "page_frame va < USERSTACK" "vstart as \<le> page_frame va"
    "find (\<lambda>e. page_vaddr e = page_frame va) (entries as) = Some e" "\<not> isWrite e"
  shows "vm_fault junk slot VM_FAULT_WRITE va as v = Some (EFAULT, as, v) \<and>
    (\<exists>m x. vm_fault junk slot VM_FAULT_READ va as v = Some (0, as, v\<lparr>vm_mp := m\<rparr>) \<and> x \<in> set (cur_tlb m) \<and>
       fst x = of_nat (page_frame va) \<and> snd x AND TLBLO_DIRTY \<noteq> 0)"
proof
  have "fault_kind VM_FAULT_WRITE (page_frame va) as = Reject EFAULT"
    using assms(4-7) by (simp add: fault_kind_def)
  then show "vm_fault junk slot VM_FAULT_WRITE va as v = Some (EFAULT, as, v)"
    using assms(4-7) by (simp add: vm_fault_def fault_frame_def find_entry_find)
  obtain m where m: "load_tlb slot (page_frame va) (page_paddr e) (vm_mp v) = Some m"
      "translates (v\<lparr>vm_mp := m\<rparr>) (page_frame va) (page_paddr e)"
    using load_tlb_vm [OF assms(2)] by blast
  have "vm_fault junk slot VM_FAULT_READ va as v = Some (0, as, v\<lparr>vm_mp := m\<rparr>)"
    using assms(4-6) m(1) by (simp add: vm_fault_def fault_frame_def find_entry_find)
  moreover have "bit (of_nat (page_paddr e) OR TLBLO_DIRTY OR TLBLO_VALID) 10"
    by (simp add: bit_or_iff TLBLO_DIRTY_def)
  then have "snd (tlb_pair (page_frame va) (page_paddr e)) AND TLBLO_DIRTY \<noteq> 0"
    using and_one_bit [of "snd (tlb_pair (page_frame va) (page_paddr e))" 10]
    by (simp add: tlb_pair_def TLBLO_DIRTY_def)
  ultimately show "\<exists>m x. vm_fault junk slot VM_FAULT_READ va as v = Some (0, as, v\<lparr>vm_mp := m\<rparr>) \<and> x \<in> set (cur_tlb m) \<and>
       fst x = of_nat (page_frame va) \<and> snd x AND TLBLO_DIRTY \<noteq> 0"
    using m(2) by (auto simp: translates_def tlb_pair_def)
qed

theorem read_fault_grants_write_witness:
  "vm_fault (\<lambda>_ _. blank) 9 VM_FAULT_WRITE 0x400010 as_ex v_ex = Some (EFAULT, as_ex, v_ex)"
proof -
  have "page_frame 0x400010 = 0x400000" by (simp add: page_frame_def)
  then show ?thesis
    using read_fault_grants_write [OF as_ex_ok v_ex_ok as_ex_held,
        where va = "0x400010" and e = code_entry and junk = "\<lambda>_ _. blank" and slot = 9]
    by (simp add: as_ex_entries) (simp add: as_ex_def code_entry_def)
qed

text \<open>C29: \<^verbatim>\<open>as_destroy\<close> gives back exactly the frames the address space holds: those of its pages, of its page tables and
  its own.\<close>

theorem as_destroy_frees_all:
  assumes "vm_ok v" "as_held v as"
  shows "\<exists>v'. as_destroy as v = Some v' \<and> frames v' = frames v - set (own as) \<and> vm_ok v' \<and> same_but_cm v v'"
  using as_destroy_ok [OF assms] by (simp add: drops_all_def)

theorem as_destroy_frees_all_witness: "\<exists>v'. as_destroy as_ex v_ex = Some v' \<and> frames v' = {}"
proof -
  have "set (own as_ex) = {8192, 4096}"
    by (simp add: own_def as_ex_entries) (simp add: as_ex_def code_entry_def insert_commute)
  then show ?thesis using as_destroy_frees_all [OF v_ex_ok as_ex_held] by (auto simp: v_ex_frames)
qed

end
