(* ===== verification/Addrspace_Heap.thy ===== *)
theory Addrspace_Heap
  imports Addrspace_Correct
begin

text \<open>
  What \<^verbatim>\<open>sbrk\<close>, \<^verbatim>\<open>as_define_region\<close>, \<^verbatim>\<open>as_complete_load\<close> and \<^verbatim>\<open>as_copy\<close> do to an address space.
\<close>

section \<open>Taking several pages\<close>

definition spare :: "vmst \<Rightarrow> nat" where
  "spare v = card (all_frames v - frames v)"

lemma finite_all_frames [simp]: "finite (all_frames v)"
  by (simp add: all_frames_def)

lemma spare_takes: "takes_frame v a v' \<Longrightarrow> spare v = Suc (spare v')"
proof -
  assume t: "takes_frame v a v'"
  then have "all_frames v - frames v = insert a (all_frames v' - frames v')" "a \<notin> all_frames v' - frames v'"
    by (auto simp: takes_frame_def same_but_cm_def)
  then show ?thesis by (simp add: spare_def)
qed

lemma spare_0: "vm_ok v \<Longrightarrow> spare v = 0 \<longleftrightarrow> frames v = all_frames v"
  using frames_sub [of v] by (auto simp: spare_def)

text \<open>With two frames to spare, one page can be taken and entered: the second is for a page table.\<close>

lemma get_and_add:
  assumes "as_ok as" "vm_ok v" "as_held v as" "2 \<le> spare v"
  shows "\<exists>a v1 as' v'. get_page v = Some (a, v1) \<and> a \<noteq> 0 \<and>
    addPageEntry junk va a True True False as v1 = Some (as', v') \<and> adds_entry va a True True False as as' \<and>
    as_held v' as' \<and> vm_ok v' \<and> spare v \<le> spare v' + 2"
  using assms(2)
proof (cases rule: get_page_cases)
  case full
  then show ?thesis using assms(2,4) spare_0 by force
next
  case (got a v1)
  have a: "a \<in> frames v1" "a \<notin> set (own as)" and ok1: "vm_ok v1"
    using got(3) assms(3) by (auto simp: takes_frame_def as_held_def)
  have held1: "as_held v1 as" using as_held_grows [OF assms(3) takes_frame_grows [OF got(3)]] .
  have s1: "spare v = Suc (spare v1)" by (rule spare_takes [OF got(3)])
  then have "frames v1 \<noteq> all_frames v1" using spare_0 [OF ok1] assms(4) by linarith
  then obtain as' v' where r: "addPageEntry junk va a True True False as v1 = Some (as', v')"
      "adds_entry va a True True False as as'" "as_held v' as'" "grows v1 v'" "v' = v1 \<or> (\<exists>b. takes_frame v1 b v')"
    using addPageEntry_ok [OF assms(1) ok1 held1 a, of junk va True True False] by auto
  then have "spare v1 \<le> spare v' + 1" using spare_takes by fastforce
  with r got s1 show ?thesis by (auto simp: grows_def)
qed

lemma heapNPages_irrelevant [simp]:
  "entries (as\<lparr>heapNPages := n\<rparr>) = entries as" "as_ok (as\<lparr>heapNPages := n\<rparr>) = as_ok as"
  "as_held v (as\<lparr>heapNPages := n\<rparr>) = as_held v as"
  by (simp_all add: entries_def as_ok_def as_held_def own_def)

lemma vbreaktop_irrelevant [simp]:
  "entries (as\<lparr>vbreaktop := n\<rparr>) = entries as" "as_ok (as\<lparr>vbreaktop := n\<rparr>) = as_ok as"
  "as_held v (as\<lparr>vbreaktop := n\<rparr>) = as_held v as"
  by (simp_all add: entries_def as_ok_def as_held_def own_def)

text \<open>The address space after \<open>n\<close> pages from \<open>va\<close> on have been entered.\<close>

definition adds_pages :: "nat \<Rightarrow> nat \<Rightarrow> addrspace \<Rightarrow> addrspace \<Rightarrow> bool" where
  "adds_pages va n as as' \<longleftrightarrow> as_ok as' \<and>
     (\<exists>es. entries as' = entries as @ es \<and> map page_vaddr es = map (\<lambda>k. va + k * PAGE_SIZE) [0..<n] \<and>
           (\<forall>e\<in>set es. isWrite e)) \<and>
     as' = as\<lparr>tables := tables as', endix := endix as', heapNPages := heapNPages as + n\<rparr>"

lemma adds_entry_heap:
  assumes "adds_entry va a r w x as as'"
  shows "heapNPages as' = heapNPages as"
proof -
  obtain X Y where "as' = as\<lparr>tables := X, endix := Y\<rparr>" using assms unfolding adds_entry_def by blast
  then show ?thesis by simp
qed

lemma adds_pages_step:
  assumes "adds_entry va a True True False as as1"
    "adds_pages (va + PAGE_SIZE) n (as1\<lparr>heapNPages := heapNPages as1 + 1\<rparr>) as'"
  shows "adds_pages va (Suc n) as as'"
proof -
  obtain e where e: "entries as1 = entries as @ [e]" "page_vaddr e = va" "isWrite e"
      "as1 = as\<lparr>tables := tables as1, endix := endix as1\<rparr>"
    using assms(1) by (auto simp: adds_entry_def)
  obtain es where es: "as_ok as'" "entries as' = entries as1 @ es"
      "map page_vaddr es = map (\<lambda>k. va + PAGE_SIZE + k * PAGE_SIZE) [0..<n]" "\<forall>e\<in>set es. isWrite e"
      "as' = as1\<lparr>tables := tables as', endix := endix as', heapNPages := heapNPages as1 + 1 + n\<rparr>"
    using assms(2) by (auto simp: adds_pages_def)
  have "map page_vaddr (e # es) = map (\<lambda>k. va + k * PAGE_SIZE) [0..<Suc n]"
    using e(2) es(3) by (simp add: upt_conv_Cons map_Suc_upt [symmetric] comp_def algebra_simps del: upt_Suc)
  moreover obtain X Y where xy: "as1 = as\<lparr>tables := X, endix := Y\<rparr>" using e(4) by blast
  have "as' = as\<lparr>tables := tables as', endix := endix as', heapNPages := heapNPages as + Suc n\<rparr>"
    by (subst es(5)) (simp add: xy)
  ultimately show ?thesis
    unfolding adds_pages_def using e es by (intro conjI exI [of _ "e # es"]) auto
qed

lemma page_alloc_loop_ok:
  "as_ok as \<Longrightarrow> vm_ok v \<Longrightarrow> as_held v as \<Longrightarrow> 2 * n \<le> spare v \<Longrightarrow> va + n * PAGE_SIZE < 2 ^ 32 \<Longrightarrow>
   heapNPages as + n < 2 ^ 32 \<Longrightarrow>
   \<exists>as' v'. page_alloc_loop junk n va as v = Some (0, as', v') \<and> adds_pages va n as as' \<and> vm_ok v' \<and> as_held v' as'"
proof (induction n arbitrary: va as v)
  case 0
  then show ?case by (auto simp: adds_pages_def)
next
  case (Suc n)
  have s2: "2 \<le> spare v" using Suc.prems(4) by simp
  obtain a v1 as1 v2 where r: "get_page v = Some (a, v1)" "a \<noteq> 0"
      "addPageEntry junk va a True True False as v1 = Some (as1, v2)" "adds_entry va a True True False as as1"
      "as_held v2 as1" "vm_ok v2" "spare v \<le> spare v2 + 2"
    using get_and_add [OF Suc.prems(1-3) s2, of junk va] by blast
  let ?as = "as1\<lparr>heapNPages := heapNPages as1 + 1\<rparr>"
  have h: "heapNPages as1 = heapNPages as"
    using r(4) adds_entry_heap by blast
  have ok: "as_ok ?as" using r(4) by (simp add: adds_entry_def)
  obtain as' v' where r2: "page_alloc_loop junk n (va + PAGE_SIZE) ?as v2 = Some (0, as', v')"
      "adds_pages (va + PAGE_SIZE) n ?as as'" "vm_ok v'" "as_held v' as'"
    using Suc.IH [OF ok r(6), of "va + PAGE_SIZE"] r(5,7) Suc.prems(4-6) h by auto
  have "page_alloc_loop junk (Suc n) va as v = Some (0, as', v')"
    using r(1-3) r2(1) Suc.prems(5,6) h by simp
  moreover have "adds_pages va (Suc n) as as'" by (rule adds_pages_step [OF r(4) r2(2)])
  ultimately show ?case using r2(3,4) by blast
qed

section \<open>The break\<close>

definition pages_for :: "nat \<Rightarrow> nat" where
  "pages_for d = (d + 4095) div PAGE_SIZE"

text \<open>A heap that has only grown: it has exactly the pages its size needs.\<close>

definition heap_ok :: "addrspace \<Rightarrow> bool" where
  "heap_ok as \<longleftrightarrow> PAGE_SIZE dvd vbreakbase as \<and> vbreakbase as \<le> vbreaktop as \<and> vbreaktop as < STACK_BASE - 4096 \<and>
     heapNPages as = pages_for (vbreaktop as - vbreakbase as)"

lemma pages_for_bounds: "d \<le> pages_for d * PAGE_SIZE" "pages_for d * PAGE_SIZE < d + PAGE_SIZE"
  using div_mult_mod_eq [of "d + 4095" PAGE_SIZE] mod_less_divisor [of PAGE_SIZE "d + 4095"]
  unfolding pages_for_def by linarith+

lemma pages_for_eqI: "d \<le> n * PAGE_SIZE \<Longrightarrow> n * PAGE_SIZE < d + PAGE_SIZE \<Longrightarrow> pages_for d = n"
  unfolding pages_for_def by (rule div_nat_eqI) simp_all

lemma pages_for_add: "pages_for (h * PAGE_SIZE + d) = h + pages_for d"
  using pages_for_bounds [of d] by (intro pages_for_eqI) (simp_all add: algebra_simps)

lemma pages_for_cases:
  "pages_for d = (if d mod PAGE_SIZE = 0 then d div PAGE_SIZE else d div PAGE_SIZE + 1)"
proof -
  define q r where "q = d div PAGE_SIZE" and "r = d mod PAGE_SIZE"
  then have "d = q * PAGE_SIZE + r" "r < PAGE_SIZE" by simp_all
  then have "pages_for d = (if r = 0 then q else q + 1)" by (intro pages_for_eqI) auto
  then show ?thesis by (simp add: q_def r_def)
qed

lemma round_top:
  assumes "PAGE_SIZE dvd b" "b \<le> t"
  shows "(if t mod PAGE_SIZE = 0 then t else page_frame t + PAGE_SIZE) = b + pages_for (t - b) * PAGE_SIZE"
proof -
  obtain q where q: "b = PAGE_SIZE * q" using assms(1) by (rule dvdE)
  let ?d = "t - b"
  have t: "t = ?d + PAGE_SIZE * q" using assms(2) q by simp
  then have m: "t mod PAGE_SIZE = ?d mod PAGE_SIZE" by (metis mod_mult_self2)
  have d: "?d = ?d div PAGE_SIZE * PAGE_SIZE + ?d mod PAGE_SIZE" by simp
  show ?thesis
  proof (cases "?d mod PAGE_SIZE = 0")
    case True
    then show ?thesis using m t d q by (simp add: pages_for_cases)
  next
    case False
    then have "pages_for ?d * PAGE_SIZE = ?d div PAGE_SIZE * PAGE_SIZE + PAGE_SIZE" by (simp add: pages_for_cases)
    moreover have "page_frame t = t - ?d mod PAGE_SIZE" by (simp add: page_frame_def m)
    moreover have "t - ?d mod PAGE_SIZE = ?d div PAGE_SIZE * PAGE_SIZE + b" using t d q by linarith
    ultimately show ?thesis using False m by simp
  qed
qed

lemma npages_signed:
  assumes "n < 2 ^ 31"
  shows "(if s32 n smod int PAGE_SIZE = 0 then s32 n sdiv int PAGE_SIZE else s32 n sdiv int PAGE_SIZE + 1) = int (pages_for n)"
proof -
  have s: "s32 n smod int PAGE_SIZE = int (n mod PAGE_SIZE)" "s32 n sdiv int PAGE_SIZE = int (n div PAGE_SIZE)"
    using assms by (auto simp: s32_def signed_modulo_int_def signed_divide_int_def zmod_int zdiv_int sgn_if)
  show ?thesis unfolding s by (simp add: pages_for_cases)
qed

text \<open>Where \<^verbatim>\<open>sbrk\<close> gets to past its two error returns.\<close>

lemma sys_sbrk_eq:
  assumes "base = vbreakbase as" "h = heapNPages as" "0 \<le> int (vbreaktop as) + amount"
    "tp = nat (int (vbreaktop as) + amount)" "tp < STACK_BASE - 4096" "base \<le> tp"
    "base + h * PAGE_SIZE < 2 ^ 31"
  shows "sys_sbrk junk amount as v =
    (if h * PAGE_SIZE \<le> tp - base then
       map_option (\<lambda>(fail, as', v'). if fail \<noteq> 0 then (ENOMEM, None, as', v') else (0, Some (vbreaktop as), as', v'))
         (page_alloc_loop junk (pages_for (tp - base - h * PAGE_SIZE))
            (if vbreaktop as mod PAGE_SIZE = 0 then vbreaktop as else u32 (page_frame (vbreaktop as) + PAGE_SIZE))
            (as\<lparr>vbreaktop := tp\<rparr>) v)
     else Some (0, Some (vbreaktop as), as\<lparr>vbreaktop := tp\<rparr>, v))"
proof -
  have tp: "nat ((int (vbreaktop as) + amount) mod 2 ^ 32) = tp"
    using assms(3-5) by (simp add: nat_mod_distrib)
  have u: "u32 (h * PAGE_SIZE) = h * PAGE_SIZE" "u32 (base + h * PAGE_SIZE) = base + h * PAGE_SIZE"
    "usub tp base = tp - base"
    using assms(5-7) by simp_all
  have n: "usub tp (base + h * PAGE_SIZE) = tp - base - h * PAGE_SIZE"
    "tp - base - h * PAGE_SIZE < 2 ^ 31" if "h * PAGE_SIZE \<le> tp - base"
    using that assms(5-7) by simp_all
  show ?thesis
  proof (cases "h * PAGE_SIZE \<le> tp - base")
    case True
    let ?n = "tp - (base + h * PAGE_SIZE)"
    have lt: "?n < 2 ^ 31" and eq: "tp - base - h * PAGE_SIZE = ?n" using n(2) [OF True] by simp_all
    have np: "nat (if s32 ?n smod int PAGE_SIZE = 0 then s32 ?n sdiv int PAGE_SIZE else s32 ?n sdiv int PAGE_SIZE + 1) = pages_for ?n"
      by (subst npages_signed [OF lt]) simp
    have un: "usub tp (base + h * PAGE_SIZE) = ?n" using n(1) [OF True] by simp
    have tp2: "\<not> STACK_BASE - 4096 \<le> tp" "\<not> tp < base" using assms(5,6) by simp_all
    have sel: "vbreaktop (as\<lparr>vbreaktop := tp\<rparr>) = tp" "vbreakbase (as\<lparr>vbreaktop := tp\<rparr>) = vbreakbase as"
      "heapNPages (as\<lparr>vbreaktop := tp\<rparr>) = heapNPages as" by simp_all
    show ?thesis
      unfolding sys_sbrk_def page_alloc_def bind.bind_lunit sel tp assms(1) [symmetric] assms(2) [symmetric]
        u if_P [OF True] if_not_P [OF tp2(1)] if_not_P [OF tp2(2)] un np eq
      by (simp only: map_conv_bind_option comp_def case_prod_unfold if_distrib [of Some])
  next
    case False
    then show ?thesis
      unfolding sys_sbrk_def using tp u assms(1,2,5,6) by simp
  qed
qed

text \<open>A growing heap: the pages still missing are entered right after the old ones.\<close>

lemma sys_sbrk_grow:
  assumes "heap_ok as" "tp = vbreaktop as + d" "tp < STACK_BASE - 4096"
    "n = pages_for (tp - vbreakbase as) - heapNPages as"
  shows "sys_sbrk junk (int d) as v =
    map_option (\<lambda>(fail, as', v'). if fail \<noteq> 0 then (ENOMEM, None, as', v') else (0, Some (vbreaktop as), as', v'))
      (page_alloc_loop junk n (vbreakbase as + heapNPages as * PAGE_SIZE) (as\<lparr>vbreaktop := tp\<rparr>) v)"
    "vbreakbase as + (heapNPages as + n) * PAGE_SIZE < 2 ^ 31"
    "heapNPages as + n = pages_for (tp - vbreakbase as)"
proof -
  let ?b = "vbreakbase as" and ?h = "heapNPages as" and ?t = "vbreaktop as"
  have hp: "PAGE_SIZE dvd ?b" "?b \<le> ?t" "?h = pages_for (?t - ?b)" using assms(1) by (simp_all add: heap_ok_def)
  have le: "pages_for (?t - ?b) \<le> pages_for (tp - ?b)"
    unfolding pages_for_def by (rule div_le_mono) (simp add: assms(2))
  then show hn: "?h + n = pages_for (tp - ?b)" using hp(3) assms(4) by simp
  have tb: "pages_for (tp - ?b) * PAGE_SIZE < tp - ?b + PAGE_SIZE" by (rule pages_for_bounds(2))
  then show lim: "?b + (?h + n) * PAGE_SIZE < 2 ^ 31" unfolding hn using assms(2,3) hp(2) by simp
  have rt: "(if ?t mod PAGE_SIZE = 0 then ?t else page_frame ?t + PAGE_SIZE) = ?b + ?h * PAGE_SIZE"
    using round_top [OF hp(1,2)] hp(3) by simp
  have tmp: "(if ?t mod PAGE_SIZE = 0 then ?t else u32 (page_frame ?t + PAGE_SIZE)) = ?b + ?h * PAGE_SIZE"
  proof (cases "?t mod PAGE_SIZE = 0")
    case False
    then have "page_frame ?t + PAGE_SIZE = ?b + ?h * PAGE_SIZE" using rt by simp
    moreover have "u32 (?b + ?h * PAGE_SIZE) = ?b + ?h * PAGE_SIZE" using lim by simp
    ultimately show ?thesis using False by (simp only: if_False)
  qed (use rt in simp)
  have eq: "sys_sbrk junk (int d) as v =
    (if ?h * PAGE_SIZE \<le> tp - ?b then
       map_option (\<lambda>(fail, as', v'). if fail \<noteq> 0 then (ENOMEM, None, as', v') else (0, Some ?t, as', v'))
         (page_alloc_loop junk (pages_for (tp - ?b - ?h * PAGE_SIZE)) (?b + ?h * PAGE_SIZE) (as\<lparr>vbreaktop := tp\<rparr>) v)
     else Some (0, Some ?t, as\<lparr>vbreaktop := tp\<rparr>, v))"
  proof -
    have a: "0 \<le> int ?t + int d" "tp = nat (int ?t + int d)" "?b \<le> tp" "?b + ?h * PAGE_SIZE < 2 ^ 31"
      using assms(2) hp(2) lim by simp_all
    show ?thesis by (rule sys_sbrk_eq [OF refl refl a(1,2) assms(3) a(3,4), of junk v, unfolded tmp])
  qed
  show "sys_sbrk junk (int d) as v =
    map_option (\<lambda>(fail, as', v'). if fail \<noteq> 0 then (ENOMEM, None, as', v') else (0, Some ?t, as', v'))
      (page_alloc_loop junk n (?b + ?h * PAGE_SIZE) (as\<lparr>vbreaktop := tp\<rparr>) v)"
  proof (cases "?h * PAGE_SIZE \<le> tp - ?b")
    case True
    have "pages_for (tp - ?b) = ?h + pages_for (tp - ?b - ?h * PAGE_SIZE)"
      using pages_for_add [of ?h "tp - ?b - ?h * PAGE_SIZE"] unfolding le_add_diff_inverse [OF True] .
    then show ?thesis unfolding eq if_P [OF True] using hn by simp
  next
    case False
    have "?t - ?b \<le> tp - ?b" using assms(2) by simp
    then have "pages_for (tp - ?b) = ?h" using False pages_for_bounds(2) [of "?t - ?b"] hp(3) by (intro pages_for_eqI) linarith+
    then have "n = 0" using hn by simp
    then show ?thesis unfolding eq if_not_P [OF False] by simp
  qed
qed


lemma spare_of: "spare (v_of k h) = h"
proof -
  have i: "inj (\<lambda>i::nat. 4096 + i * 4096)" by (rule injI) simp
  have "{..<k + h} - {..<k} = {k..<k + h}" by auto
  then show ?thesis
    by (simp add: spare_def v_of_frames image_set_diff [OF i, symmetric] card_image inj_on_subset [OF i])
qed

lemma as_ex_heap: "heap_ok as_ex" "spare v_ex = 2"
proof -
  show "heap_ok as_ex" by (simp add: heap_ok_def as_ex_def pages_for_def dvd_def)
  show "spare v_ex = 2" by (rule spare_of)
qed


text \<open>When no frame is free, \<^verbatim>\<open>sbrk\<close> fails with \<^verbatim>\<open>ENOMEM\<close> and has moved the break all the same: the address space
  is left with a break above the pages of its heap.\<close>

theorem sbrk_nomem_moves_break:
  assumes "vm_ok v" "heap_ok as" "vbreaktop as + d < STACK_BASE - 4096" "frames v = all_frames v"
    "heapNPages as < pages_for (vbreaktop as + d - vbreakbase as)"
  shows "sys_sbrk junk (int d) as v = Some (ENOMEM, None, as\<lparr>vbreaktop := vbreaktop as + d\<rparr>, v) \<and>
    \<not> heap_ok (as\<lparr>vbreaktop := vbreaktop as + d\<rparr>)"
proof -
  define n where "n = pages_for (vbreaktop as + d - vbreakbase as) - heapNPages as"
  then obtain k where "n = Suc k" using assms(5) by (metis Suc_pred zero_less_diff)
  moreover have "get_page v = Some (0, v)" using get_page_cases [OF assms(1)] assms(4) by (metis takes_frame_def Diff_iff)
  ultimately have "page_alloc_loop junk n (vbreakbase as + heapNPages as * PAGE_SIZE) (as\<lparr>vbreaktop := vbreaktop as + d\<rparr>) v =
      Some (1, as\<lparr>vbreaktop := vbreaktop as + d\<rparr>, v)" by simp
  then show ?thesis
    using sys_sbrk_grow(1) [OF assms(2) refl assms(3) n_def, of junk v] assms(5) by (simp add: heap_ok_def)
qed

theorem sbrk_nomem_moves_break_witness:
  "sys_sbrk (\<lambda>_ _. blank) 1 as_ex (v_of 2 0) = Some (ENOMEM, None, as_ex\<lparr>vbreaktop := 0x401001\<rparr>, v_of 2 0)"
proof -
  have ok: "vm_ok (v_of 2 0)" "frames (v_of 2 0) = all_frames (v_of 2 0)" by (simp_all add: v_of_ok v_of_frames)
  have c: "vbreaktop as_ex + 1 < STACK_BASE - 4096"
    "heapNPages as_ex < pages_for (vbreaktop as_ex + 1 - vbreakbase as_ex)" by (simp_all add: as_ex_def pages_for_def)
  have "vbreaktop as_ex + 1 = 0x401001" by (simp add: as_ex_def)
  then show ?thesis
    using sbrk_nomem_moves_break [OF ok(1) as_ex_heap(1) c(1) ok(2) c(2), of "\<lambda>_ _. blank"] by simp
qed

text \<open>A heap that was shrunk by \<open>k\<close> pages and then grows by \<open>k + m\<close> gets its \<open>m\<close> new pages at the addresses right
  above the lowered break, where it has pages already; nothing is entered above the old top.\<close>

theorem sbrk_regrow_misplaces:
  assumes "as_ok as" "vm_ok v" "as_held v as" "heap_ok as" "PAGE_SIZE dvd vbreaktop as" "k \<le> heapNPages as"
    "vbreaktop as + m * PAGE_SIZE < STACK_BASE - 4096" "2 * m \<le> spare v"
  shows "\<exists>as1 as' v' es. sys_sbrk junk (- int (k * PAGE_SIZE)) as v = Some (0, Some (vbreaktop as), as1, v) \<and>
    sys_sbrk junk (int ((k + m) * PAGE_SIZE)) as1 v = Some (0, Some (vbreaktop as - k * PAGE_SIZE), as', v') \<and>
    vbreaktop as' = vbreaktop as + m * PAGE_SIZE \<and> entries as' = entries as @ es \<and>
    map page_vaddr es = map (\<lambda>j. vbreaktop as - k * PAGE_SIZE + j * PAGE_SIZE) [0..<m]"
proof -
  let ?b = "vbreakbase as" and ?h = "heapNPages as" and ?t = "vbreaktop as"
  let ?low = "?t - k * PAGE_SIZE" and ?high = "?t + m * PAGE_SIZE"
  have hp: "PAGE_SIZE dvd ?b" "?b \<le> ?t" "?h = pages_for (?t - ?b)" using assms(4) by (simp_all add: heap_ok_def)
  have t: "?t = ?b + ?h * PAGE_SIZE"
    using round_top [OF hp(1,2)] hp(3) assms(5) by (simp add: dvd_eq_mod_eq_0)
  have kt: "k * PAGE_SIZE \<le> ?h * PAGE_SIZE" using assms(6) by simp
  have tlim: "?t < STACK_BASE - 4096" using assms(4) by (simp add: heap_ok_def)
  let ?as1 = "as\<lparr>vbreaktop := ?low\<rparr>"
  have low: "nat (int ?t + - int (k * PAGE_SIZE)) = ?low" "0 \<le> int ?t + - int (k * PAGE_SIZE)" using t kt by simp_all
  have s1: "sys_sbrk junk (- int (k * PAGE_SIZE)) as v = Some (0, Some ?t, ?as1, v)"
  proof (cases "k = 0")
    case True
    then show ?thesis
      using sys_sbrk_grow(1) [OF assms(4) refl, of 0 _ junk v] tlim hp(3) by simp
  next
    case False
    have c: "?low < STACK_BASE - 4096" "?b \<le> ?low" "?b + ?h * PAGE_SIZE < 2 ^ 31" "\<not> ?h * PAGE_SIZE \<le> ?low - ?b"
      using t kt tlim False assms(6) by simp_all
    show ?thesis
      by (rule sys_sbrk_eq [OF refl refl low(2) low(1) [symmetric] c(1-3), of junk v, unfolded if_not_P [OF c(4)]])
  qed
  have hi: "?high = nat (int (vbreaktop ?as1) + int ((k + m) * PAGE_SIZE))"
    using t kt by (simp add: algebra_simps)
  have m: "pages_for (?high - ?b - ?h * PAGE_SIZE) = m"
    using t by (intro pages_for_eqI) simp_all
  have al: "?low mod PAGE_SIZE = 0" using assms(5) kt t by (simp add: dvd_eq_mod_eq_0 [symmetric] dvd_diff_nat)
  let ?as2 = "as\<lparr>vbreaktop := ?high\<rparr>"
  have s2: "sys_sbrk junk (int ((k + m) * PAGE_SIZE)) ?as1 v =
    map_option (\<lambda>(fail, as', v'). if fail \<noteq> 0 then (ENOMEM, None, as', v') else (0, Some ?low, as', v'))
      (page_alloc_loop junk m ?low ?as2 v)"
  proof -
    have c: "0 \<le> int (vbreaktop ?as1) + int ((k + m) * PAGE_SIZE)" "?b \<le> ?high" "?b + ?h * PAGE_SIZE < 2 ^ 31"
        "?h * PAGE_SIZE \<le> ?high - ?b" using t tlim by simp_all
    have sel: "vbreakbase ?as1 = ?b" "heapNPages ?as1 = ?h" "vbreaktop ?as1 = ?low" "?as1\<lparr>vbreaktop := ?high\<rparr> = ?as2"
      by simp_all
    show ?thesis
      using sys_sbrk_eq [OF refl refl c(1) hi assms(7), unfolded sel, OF c(2,3), of junk v]
      unfolding if_P [OF c(4)] if_P [OF al] m .
  qed
  have "?low + m * PAGE_SIZE < 2 ^ 32" "heapNPages ?as2 + m < 2 ^ 32" using assms(7) t by simp_all
  then obtain as' v' where r: "page_alloc_loop junk m ?low ?as2 v = Some (0, as', v')" "adds_pages ?low m ?as2 as'"
    using page_alloc_loop_ok [of ?as2 v m ?low junk] assms(1-3,8) by auto
  obtain es where es: "entries as' = entries as @ es" "map page_vaddr es = map (\<lambda>j. ?low + j * PAGE_SIZE) [0..<m]"
    using r(2) by (auto simp: adds_pages_def)
  obtain X Y Z where xy: "as' = ?as2\<lparr>tables := X, endix := Y, heapNPages := Z\<rparr>"
    using r(2) by (auto simp: adds_pages_def)
  show ?thesis
    using s1 s2 r(1) es by (intro exI [of _ ?as1] exI [of _ as'] exI [of _ v'] exI [of _ es]) (simp add: xy)
qed

text \<open>The address space of the example with one heap page.\<close>

definition heap_entry :: page_entry where
  "heap_entry = blank\<lparr>page_vaddr := 0x401000, page_paddr := 12288, isRead := True, isWrite := True\<rparr>"

definition as_ex2 :: addrspace where
  "as_ex2 = as_ex\<lparr>vbreaktop := 0x402000, heapNPages := 1,
     tables := [\<lparr>pt_addr = 0, table = code_entry # heap_entry # replicate 336 blank, entry_count = 2\<rparr>]\<rparr>"

lemma as_ex2_entries: "entries as_ex2 = [code_entry, heap_entry]"
  and as_ex2_ok: "as_ok as_ex2"
proof -
  have "takeWhile used (replicate n blank) = []" "dropWhile used (replicate n blank) = replicate n blank" for n
    by (cases n; simp add: used_def blank_def)+
  then have u: "takeWhile used (code_entry # heap_entry # replicate 336 blank) = [code_entry, heap_entry]"
    "dropWhile used (code_entry # heap_entry # replicate 336 blank) = replicate 336 blank"
    by (simp_all add: used_def code_entry_def heap_entry_def)
  then show "entries as_ex2 = [code_entry, heap_entry]" by (simp add: entries_def tab_used_def as_ex2_def)
  show "as_ok as_ex2"
    using u by (simp add: as_ok_def as_ex2_def as_ex_def tab_ok_def tab_used_def) (simp add: used_def blank_def)
qed

lemma as_ex2_held: "as_held (v_of 3 2) as_ex2"
proof -
  have "{..<3} = {0, 1, 2 :: nat}" by auto
  then have "frames (v_of 3 2) = {4096, 8192, 12288}" by (simp add: v_of_frames)
  then show ?thesis
    by (simp add: as_held_def own_def as_ex2_entries) (simp add: as_ex2_def as_ex_def code_entry_def heap_entry_def)
qed

theorem sbrk_regrow_misplaces_witness:
  "\<exists>as1 as' v' e. sys_sbrk (\<lambda>_ _. blank) (- 4096) as_ex2 (v_of 3 2) = Some (0, Some 0x402000, as1, v_of 3 2) \<and>
     sys_sbrk (\<lambda>_ _. blank) 8192 as1 (v_of 3 2) = Some (0, Some 0x401000, as', v') \<and>
     vbreaktop as' = 0x403000 \<and> entries as' = [code_entry, heap_entry, e] \<and> page_vaddr e = page_vaddr heap_entry"
proof -
  have h: "heap_ok as_ex2" by (simp add: heap_ok_def as_ex2_def as_ex_def pages_for_def dvd_def)
  have c: "PAGE_SIZE dvd vbreaktop as_ex2" "1 \<le> heapNPages as_ex2" "vbreaktop as_ex2 + 1 * PAGE_SIZE < STACK_BASE - 4096"
      "2 * 1 \<le> spare (v_of 3 2)" "vm_ok (v_of 3 2)"
    by (simp_all add: as_ex2_def spare_of v_of_ok dvd_def)
  show ?thesis
    using sbrk_regrow_misplaces [OF as_ex2_ok c(5) as_ex2_held h c(1-4), of "\<lambda>_ _. blank"]
    by (auto simp: as_ex2_entries map_eq_Cons_conv) (auto simp: as_ex2_def as_ex_def heap_entry_def)
qed

section \<open>Regions\<close>

lemma region_pages:
  assumes "va + sz < 2 ^ 32 - PAGE_SIZE"
  shows "page_frame (usub (u32 (u32 (sz + va mod PAGE_SIZE) + PAGE_SIZE)) 1) = pages_for (sz + va mod PAGE_SIZE) * PAGE_SIZE"
proof -
  have "va mod PAGE_SIZE \<le> va" by (rule mod_less_eq_dividend)
  then have "usub (u32 (u32 (sz + va mod PAGE_SIZE) + PAGE_SIZE)) 1 = sz + va mod PAGE_SIZE + 4095"
    using assms by simp
  then show ?thesis
    by (simp only: page_frame_def pages_for_def minus_mod_eq_div_mult)
qed

text \<open>\<^verbatim>\<open>as_define_region\<close> accepts two regions; each time the break ends at the first page boundary at or above the end
  of the region, the number of pages recorded reaches from the page of its start exactly to there, and a third region is
  refused without a change.\<close>

theorem as_define_region_break:
  assumes "va + sz < 2 ^ 32 - PAGE_SIZE" "as_define_region as va sz = (err, as')"
  shows "if codeNPages as = 0 \<or> dataNPages as = 0 then
      err = 0 \<and> PAGE_SIZE dvd vbreakbase as' \<and> vbreaktop as' = vbreakbase as' \<and>
      va + sz \<le> vbreakbase as' \<and> vbreakbase as' < va + sz + PAGE_SIZE \<and>
      vbreakbase as' = page_frame va + (if codeNPages as = 0 then codeNPages as' else dataNPages as') * PAGE_SIZE \<and>
      tables as' = tables as
    else err = EUNIMP \<and> as' = as"
proof (cases "codeNPages as = 0 \<or> dataNPages as = 0")
  case True
  define n where "n = pages_for (sz + va mod PAGE_SIZE)"
  define b where "b = page_frame va + n * PAGE_SIZE"
  have va: "va = page_frame va + va mod PAGE_SIZE" by (simp add: page_frame_def)
  have b1: "va + sz \<le> b" "b < va + sz + PAGE_SIZE"
    using pages_for_bounds [of "sz + va mod PAGE_SIZE"] va unfolding b_def n_def by linarith+
  have "PAGE_SIZE dvd page_frame va" by (simp only: page_frame_def minus_mod_eq_div_mult dvd_triv_right)
  then have b2: "PAGE_SIZE dvd b" unfolding b_def by simp
  have u: "u32 (n * PAGE_SIZE + page_frame va) = b" using b1 assms(1) unfolding b_def by (simp add: add.commute)
  have rp: "page_frame (usub (u32 (u32 (sz + va mod PAGE_SIZE) + PAGE_SIZE)) 1) = n * PAGE_SIZE"
    unfolding n_def by (rule region_pages [OF assms(1)])
  have "n * PAGE_SIZE div PAGE_SIZE = n" by simp
  then have "as_define_region as va sz = (0, if codeNPages as = 0
      then as\<lparr>vstart := page_frame va, codeNPages := n, vbreakbase := b, vbreaktop := b\<rparr>
      else as\<lparr>dataNPages := n, vbreakbase := b, vbreaktop := b\<rparr>)"
    using True unfolding as_define_region_def Let_def rp by (auto simp: u)
  then show ?thesis using assms(2) True b1 b2 unfolding b_def by auto
next
  case False
  then show ?thesis using assms(2) by (simp add: as_define_region_def)
qed

theorem as_define_region_break_witness: "vbreakbase (snd (as_define_region (as_ex\<lparr>codeNPages := 0\<rparr>) 0x400123 0x1000)) = 0x402000"
proof -
  obtain err as' where r: "as_define_region (as_ex\<lparr>codeNPages := 0\<rparr>) 0x400123 0x1000 = (err, as')" by fastforce
  have "PAGE_SIZE dvd vbreakbase as' \<and> 0x401123 \<le> vbreakbase as' \<and> vbreakbase as' < 0x402123"
    using as_define_region_break [OF _ r] by (simp del: dvd_add_times_triv_right_iff add: page_frame_def)
  then have "vbreakbase as' = 0x402000" by (auto simp: dvd_def)
  then show ?thesis by (simp add: r)
qed

end
