(* ===== verification/Addrspace_Copy.thy ===== *)
theory Addrspace_Copy
  imports Addrspace_Heap
begin

text \<open>
  What \<^verbatim>\<open>as_copy\<close> (\<^verbatim>\<open>kern/vm/addrspace.c\<close>) gives a forked process: its own pages with the contents of the parent's.
\<close>

section \<open>Copying one page\<close>

text \<open>The entry \<open>n\<close> of the copy stands for the same page as \<open>e\<close>.\<close>

definition copy_of :: "vmst \<Rightarrow> page_entry \<Rightarrow> page_entry \<Rightarrow> bool" where
  "copy_of v e n \<longleftrightarrow> page_vaddr n = page_vaddr e \<and> isRead n = isRead e \<and> isWrite n = isWrite e \<and> isExe n = isExe e \<and>
     used n = used e \<and> (used e \<longrightarrow> (\<forall>k<PAGE_SIZE. vm_bytes v (page_paddr n + k) = vm_bytes v (page_paddr e + k)))"

definition same_bytes :: "vmst \<Rightarrow> vmst \<Rightarrow> bool" where
  "same_bytes v v' \<longleftrightarrow> (\<forall>a\<in>frames v. \<forall>k<PAGE_SIZE. vm_bytes v' (a + k) = vm_bytes v (a + k))"

lemma copy_page_keeps [simp]:
  "frames (copy_page d a v) = frames v" "all_frames (copy_page d a v) = all_frames v"
  "vm_ok (copy_page d a v) = vm_ok v" "vm_mp (copy_page d a v) = vm_mp v" "spare (copy_page d a v) = spare v"
  by (simp_all add: copy_page_def frames_def all_frames_def vm_ok_def spare_def)

lemma frames_apart:
  assumes "vm_ok v" "a \<in> all_frames v" "b \<in> all_frames v" "a \<noteq> b" "k < PAGE_SIZE"
  shows "\<not> (a \<le> b + k \<and> b + k < a + PAGE_SIZE)"
proof
  assume r: "a \<le> b + k \<and> b + k < a + PAGE_SIZE"
  obtain p q where pq: "a = PAGE_SIZE * p" "b = PAGE_SIZE * q"
    using frame_bounds(2) [OF assms(1)] assms(2,3) by (metis mod_eq_0_iff_dvd dvdE)
  then have "p < q \<or> q < p" using assms(4) by auto
  then have "p + 1 \<le> q \<or> q + 1 \<le> p" by linarith
  with r pq assms(5) show False by auto
qed

lemma takes_frame_copy:
  assumes "vm_ok v" "takes_frame v a v1" "b \<in> frames v"
  shows "same_bytes v (copy_page a b v1)" "\<forall>k<PAGE_SIZE. vm_bytes (copy_page a b v1) (a + k) = vm_bytes (copy_page a b v1) (b + k)"
proof -
  have bytes: "vm_bytes v1 = vm_bytes v" and a: "a \<in> all_frames v" "a \<notin> frames v"
    using assms(2) by (auto simp: takes_frame_def same_but_cm_def)
  have out: "\<not> (a \<le> c + k \<and> c + k < a + PAGE_SIZE)" if "c \<in> frames v" "k < PAGE_SIZE" for c k
    using frames_apart [OF assms(1) a(1), of c k] frames_sub [OF assms(1)] that a(2) by blast
  show "same_bytes v (copy_page a b v1)"
    unfolding same_bytes_def
  proof (intro ballI allI impI)
    fix c k :: nat
    assume ck: "c \<in> frames v" "k < PAGE_SIZE"
    show "vm_bytes (copy_page a b v1) (c + k) = vm_bytes v (c + k)"
      using out [OF ck] bytes by (auto simp: copy_page_def)
  qed
  show "\<forall>k<PAGE_SIZE. vm_bytes (copy_page a b v1) (a + k) = vm_bytes (copy_page a b v1) (b + k)"
  proof (intro allI impI)
    fix k :: nat
    assume k: "k < PAGE_SIZE"
    show "vm_bytes (copy_page a b v1) (a + k) = vm_bytes (copy_page a b v1) (b + k)"
      using out [OF assms(3) k] k by (auto simp: copy_page_def)
  qed
qed

section \<open>Copying a table\<close>

text \<open>The frames of a list of entries.\<close>

definition pas :: "page_entry list \<Rightarrow> nat list" where
  "pas es = map page_paddr (filter used es)"

lemma pas_simps [simp]: "pas [] = []" "pas (e # es) = (if used e then page_paddr e # pas es else pas es)"
  by (simp_all add: pas_def)

definition copied :: "vmst \<Rightarrow> page_entry list \<Rightarrow> page_entry list \<Rightarrow> vmst \<Rightarrow> bool" where
  "copied v es new v' \<longleftrightarrow> list_all2 (copy_of v') es new \<and> frames v' = frames v \<union> set (pas new) \<and>
     set (pas new) \<inter> frames v = {} \<and> distinct (pas new) \<and> same_bytes v v' \<and> vm_ok v' \<and>
     all_frames v' = all_frames v \<and> vm_mp v' = vm_mp v"

lemma copied_empty:
  assumes "copied v es new v'" "\<not> used e" "n = f\<lparr>page_vaddr := page_vaddr e, isExe := isExe e, isRead := isRead e,
    isWrite := isWrite e, page_paddr := 0\<rparr>"
  shows "copied v (e # es) (n # new) v'"
  using assms by (auto simp: copied_def copy_of_def used_def)

lemma copied_used:
  assumes ok: "vm_ok v" and t: "takes_frame v a v1" and e: "used e" "page_paddr e \<in> frames v"
    and c: "copied (copy_page a (page_paddr e) v1) es new v'"
    and n: "n = f\<lparr>page_vaddr := page_vaddr e, isExe := isExe e, isRead := isRead e, isWrite := isWrite e, page_paddr := a\<rparr>"
  shows "copied v (e # es) (n # new) v'"
proof -
  let ?v2 = "copy_page a (page_paddr e) v1"
  note tb = takes_frame_copy [OF ok t e(2)]
  have fr: "frames ?v2 = insert a (frames v)" "a \<notin> frames v" "a \<in> all_frames v" "all_frames ?v2 = all_frames v"
      "vm_mp ?v2 = vm_mp v"
    using t by (auto simp: takes_frame_def same_but_cm_def)
  have a: "a \<noteq> 0" using frame_bounds(1) [OF ok fr(3)] by simp
  have sb: "same_bytes ?v2 v'" using c by (simp add: copied_def)
  then have s: "same_bytes v v'" using tb(1) fr(1) by (simp add: same_bytes_def)
  have "vm_bytes v' (a + k) = vm_bytes v' (page_paddr e + k)" if "k < PAGE_SIZE" for k
    using sb tb(2) that e(2) unfolding same_bytes_def fr(1) by simp
  then have "copy_of v' e n" using n a e(1) by (simp add: copy_of_def used_def)
  then show ?thesis using c fr a n s by (auto simp: copied_def used_def)
qed

lemma copy_entries_ok:
  "vm_ok v \<Longrightarrow> length rest = length es \<Longrightarrow> set (pas es) \<subseteq> frames v \<Longrightarrow> length (pas es) \<le> spare v \<Longrightarrow>
   \<exists>new v'. copy_entries es (length pre) (pre @ rest) v = Some (True, pre @ new, v') \<and> copied v es new v' \<and> length new = length es"
proof (induction es arbitrary: pre rest v)
  case Nil
  then show ?case by (simp add: copied_def same_bytes_def)
next
  case (Cons e es)
  obtain f rest' where rest: "rest = f # rest'" "length rest' = length es" using Cons.prems(2) by (cases rest) auto
  let ?n = "f\<lparr>page_vaddr := page_vaddr e, isExe := isExe e, isRead := isRead e, isWrite := isWrite e\<rparr>"
  have rd: "rd (pre @ rest) (length pre) = Some f" by (simp add: rd_def rest)
  have upd: "(pre @ rest)[length pre := x] = (pre @ [x]) @ rest'" for x by (simp add: rest)
  show ?case
  proof (cases "used e")
    case True
    then have pe: "page_paddr e \<in> frames v" "page_paddr e \<noteq> 0" using Cons.prems(3) by (auto simp: used_def)
    have "spare v \<noteq> 0" using True Cons.prems(4) by auto
    then have "frames v \<noteq> all_frames v" using spare_0 [OF Cons.prems(1)] by simp
    then obtain a v1 where g: "get_page v = Some (a, v1)" "a \<noteq> 0" "takes_frame v a v1"
      using get_page_cases [OF Cons.prems(1)] by metis
    let ?v2 = "copy_page a (page_paddr e) v1"
    have "vm_ok ?v2" "set (pas es) \<subseteq> frames ?v2" "length (pas es) \<le> spare ?v2"
      using g(3) True Cons.prems(3,4) spare_takes [OF g(3)] by (auto simp: takes_frame_def)
    then obtain new v' where r: "copy_entries es (length (pre @ [?n\<lparr>page_paddr := a\<rparr>])) ((pre @ [?n\<lparr>page_paddr := a\<rparr>]) @ rest') ?v2 =
        Some (True, (pre @ [?n\<lparr>page_paddr := a\<rparr>]) @ new, v')" "copied ?v2 es new v'" "length new = length es"
      using Cons.IH [of ?v2 rest' "pre @ [?n\<lparr>page_paddr := a\<rparr>]"] rest(2) by blast
    have "copied v (e # es) (?n\<lparr>page_paddr := a\<rparr> # new) v'"
      by (rule copied_used [OF Cons.prems(1) g(3) True pe(1) r(2)]) simp
    moreover have "copy_entries (e # es) (length pre) (pre @ rest) v = Some (True, pre @ ?n\<lparr>page_paddr := a\<rparr> # new, v')"
      using r(1) g(1,2) pe(2) by (simp add: rd upd)
    ultimately show ?thesis using r(3) by (intro exI [of _ "?n\<lparr>page_paddr := a\<rparr> # new"] exI [of _ v']) simp
  next
    case False
    then obtain new v' where r: "copy_entries es (length (pre @ [?n\<lparr>page_paddr := 0\<rparr>])) ((pre @ [?n\<lparr>page_paddr := 0\<rparr>]) @ rest') v =
        Some (True, (pre @ [?n\<lparr>page_paddr := 0\<rparr>]) @ new, v')" "copied v es new v'" "length new = length es"
      using Cons.IH [of v rest' "pre @ [?n\<lparr>page_paddr := 0\<rparr>]"] Cons.prems rest(2) by auto
    have "copied v (e # es) (?n\<lparr>page_paddr := 0\<rparr> # new) v'" by (rule copied_empty [OF r(2) False]) simp
    moreover have "copy_entries (e # es) (length pre) (pre @ rest) v = Some (True, pre @ ?n\<lparr>page_paddr := 0\<rparr> # new, v')"
      using r(1) False by (simp add: rd upd used_def)
    ultimately show ?thesis using r(3) by (intro exI [of _ "?n\<lparr>page_paddr := 0\<rparr> # new"] exI [of _ v']) simp
  qed
qed

lemma list_all2_while: "list_all2 P xs ys \<Longrightarrow> (\<And>x y. P x y \<Longrightarrow> Q y = Q x) \<Longrightarrow>
   list_all2 P (takeWhile Q xs) (takeWhile Q ys) \<and> list_all2 P (dropWhile Q xs) (dropWhile Q ys)"
  by (induction rule: list_all2_induct) auto

lemma list_all2_ball: "list_all2 P xs ys \<Longrightarrow> \<forall>x\<in>set xs. Q x \<Longrightarrow> (\<And>x y. P x y \<Longrightarrow> Q x \<Longrightarrow> R y) \<Longrightarrow> \<forall>y\<in>set ys. R y"
  by (induction rule: list_all2_induct) auto

lemma copy_of_used: "copy_of v e n \<Longrightarrow> used n = used e"
  by (simp add: copy_of_def)

lemma tab_pas:
  assumes "tab_ok t"
  shows "pas (table t) = map page_paddr (tab_used t)"
proof -
  have "filter used (takeWhile used (table t)) = takeWhile used (table t)"
    by (rule filter_True) (meson set_takeWhileD)
  moreover have "filter used (dropWhile used (table t)) = []" using assms by (simp add: tab_ok_def filter_empty_conv)
  ultimately have "filter used (table t) = takeWhile used (table t)"
    by (metis append_Nil2 filter_append takeWhile_dropWhile_id)
  then show ?thesis by (simp add: pas_def tab_used_def)
qed

lemma copied_tab:
  assumes "tab_ok t" "copied v (table t) new v'" "length new = length (table t)"
  shows "tab_ok (n\<lparr>entry_count := entry_count t, table := new\<rparr>)"
    "list_all2 (copy_of v') (tab_used t) (tab_used (n\<lparr>entry_count := entry_count t, table := new\<rparr>))"
proof -
  have l: "list_all2 (copy_of v') (table t) new" using assms(2) by (simp add: copied_def)
  have u: "list_all2 (copy_of v') (takeWhile used (table t)) (takeWhile used new)"
    "list_all2 (copy_of v') (dropWhile used (table t)) (dropWhile used new)"
    using list_all2_while [OF l, of used] copy_of_used by metis+
  have "\<forall>x\<in>set (dropWhile used (table t)). \<not> used x" using assms(1) by (simp add: tab_ok_def)
  then have "\<forall>y\<in>set (dropWhile used new). \<not> used y" by (rule list_all2_ball [OF u(2)]) (simp add: copy_of_used)
  moreover have "entry_count t = length (takeWhile used new)"
    using list_all2_lengthD [OF u(1)] assms(1) unfolding tab_ok_def tab_used_def by (elim conjE) (rule trans)
  moreover have "length new = PTABLE_ARRAY_SIZE" using assms(1,3) unfolding tab_ok_def by (elim conjE) (rule trans)
  ultimately show "tab_ok (n\<lparr>entry_count := entry_count t, table := new\<rparr>)"
    unfolding tab_ok_def tab_used_def by (intro conjI) simp_all
  show "list_all2 (copy_of v') (tab_used t) (tab_used (n\<lparr>entry_count := entry_count t, table := new\<rparr>))"
    using u(1) by (simp add: tab_used_def)
qed

section \<open>Copying an address space\<close>



end
