(* ===== verification/Semaphore.thy ===== *)
theory Semaphore
  imports Spinlock
begin

text \<open>
  \<^verbatim>\<open>P\<close> and \<^verbatim>\<open>V\<close> of \<^verbatim>\<open>kern/thread/synch.c\<close>, with the wait channel of \<^verbatim>\<open>kern/thread/thread.c\<close> they sleep on, run by
  any number of threads.  A step of the relation is what one thread does between two accesses to what others can see:
  a spinlock is taken when it is free, as \<^verbatim>\<open>spinlock_acquire\<close> guarantees, and what happens under one lock is split
  wherever a second lock is taken or released.
\<close>

section \<open>Counting the threads at some place\<close>

definition num :: "('p \<Rightarrow> bool) \<Rightarrow> (nat \<Rightarrow> 'p) \<Rightarrow> int" where
  "num P f = int (card {t. P (f t)})"

lemma num_upd:
  assumes "finite {t. P (f t)}"
  shows "num P (f(t := p)) = num P f - (if P (f t) then 1 else 0) + (if P p then 1 else 0)"
proof -
  have s: "{u. P ((f(t := p)) u)} = {u. P (f u)} - {t} \<union> (if P p then {t} else {})" by auto
  have c: "int (card ({u. P (f u)} - {t})) = num P f - (if P (f t) then 1 else 0)"
    using assms card.remove [of "{u. P (f u)}" t] by (auto simp: num_def)
  show ?thesis
    using assms c unfolding num_def s by (auto simp: card_insert_if)
qed

lemma num_pos: "finite {t. P (f t)} \<Longrightarrow> 0 < num P f \<longleftrightarrow> (\<exists>t. P (f t))"
  by (auto simp: num_def card_gt_0_iff)

lemma num_nonneg [simp]: "0 \<le> num P f"
  by (simp add: num_def)

lemma finite_upd: "finite {t. P (f t)} \<Longrightarrow> finite {t. P ((f(u := p)) t)}"
  by (rule finite_subset [of _ "insert u {t. P (f t)}"]) auto

section \<open>Definitions\<close>

text \<open>Where a thread is.  In \<^verbatim>\<open>P\<close>: before \<^verbatim>\<open>spinlock_acquire\<close>, at the test of the loop, past it with the count zero or
  not, with both locks, with the lock of the channel only, and asleep.  In \<^verbatim>\<open>V\<close>: before \<^verbatim>\<open>spinlock_acquire\<close>, before
  the increment, before \<^verbatim>\<open>wchan_wakeone\<close> and after it.\<close>

datatype sem_pc = Out | PAcq | PTest | PZero | PTake | PBridge | PSleepy | Asleep | VAcq | VInc | VWake | VRel

record sem_sys =
  sem_count :: nat
  sem_lock :: "nat option"
  wc_lock :: "nat option"
  wc_threads :: "nat list"
  spc :: "nat \<Rightarrow> sem_pc"
  p_done :: nat
  v_done :: nat

abbreviation goto :: "nat \<Rightarrow> sem_pc \<Rightarrow> sem_sys \<Rightarrow> sem_sys" where
  "goto t p s \<equiv> s\<lparr>spc := (spc s)(t := p)\<rparr>"

text \<open>\<^verbatim>\<open>wchan_wakeone\<close>: the first sleeper, if there is one, is made runnable and is back in the loop of \<^verbatim>\<open>P\<close>.\<close>

definition wchan_wakeone :: "sem_sys \<Rightarrow> sem_sys" where
  "wchan_wakeone s =
     (case wc_threads s of [] \<Rightarrow> s | u # us \<Rightarrow> goto u PAcq (s\<lparr>wc_threads := us\<rparr>))"

text \<open>One step of thread \<open>t\<close>.  An increment past the range of \<^verbatim>\<open>int\<close> stops the kernel and is no step.\<close>

inductive sem_step :: "nat \<Rightarrow> sem_sys \<Rightarrow> sem_sys \<Rightarrow> bool" where
  p_call: "spc s t = Out \<Longrightarrow> sem_step t s (goto t PAcq s)"
| p_acquire: "spc s t = PAcq \<Longrightarrow> sem_lock s = None \<Longrightarrow> sem_step t s (goto t PTest (s\<lparr>sem_lock := Some t\<rparr>))"
| p_test: "spc s t = PTest \<Longrightarrow> sem_step t s (goto t (if sem_count s = 0 then PZero else PTake) s)"
| p_wchan_lock: "spc s t = PZero \<Longrightarrow> wc_lock s = None \<Longrightarrow> sem_step t s (goto t PBridge (s\<lparr>wc_lock := Some t\<rparr>))"
| p_unlock: "spc s t = PBridge \<Longrightarrow> sem_step t s (goto t PSleepy (s\<lparr>sem_lock := None\<rparr>))"
| p_sleep: "spc s t = PSleepy \<Longrightarrow>
    sem_step t s (goto t Asleep (s\<lparr>wc_threads := wc_threads s @ [t], wc_lock := None\<rparr>))"
| p_take: "spc s t = PTake \<Longrightarrow> 0 < sem_count s \<Longrightarrow>
    sem_step t s (goto t Out (s\<lparr>sem_count := sem_count s - 1, sem_lock := None, p_done := p_done s + 1\<rparr>))"
| v_call: "spc s t = Out \<Longrightarrow> sem_step t s (goto t VAcq s)"
| v_acquire: "spc s t = VAcq \<Longrightarrow> sem_lock s = None \<Longrightarrow> sem_step t s (goto t VInc (s\<lparr>sem_lock := Some t\<rparr>))"
| v_inc: "spc s t = VInc \<Longrightarrow> sem_count s + 1 < 2 ^ 31 \<Longrightarrow>
    sem_step t s (goto t VWake (s\<lparr>sem_count := sem_count s + 1, v_done := v_done s + 1\<rparr>))"
| v_wake: "spc s t = VWake \<Longrightarrow> wc_lock s = None \<Longrightarrow> sem_step t s (goto t VRel (wchan_wakeone s))"
| v_release: "spc s t = VRel \<Longrightarrow> sem_step t s (goto t Out (s\<lparr>sem_lock := None\<rparr>))"

inductive_cases sem_stepE: "sem_step t s s'"

definition sem_init :: "nat \<Rightarrow> sem_sys" where
  "sem_init n = \<lparr>sem_count = n, sem_lock = None, wc_lock = None, wc_threads = [], spc = (\<lambda>_. Out), p_done = 0, v_done = 0\<rparr>"

inductive sem_reach :: "nat \<Rightarrow> sem_sys \<Rightarrow> bool" for n where
  init: "sem_reach n (sem_init n)"
| step: "sem_reach n s \<Longrightarrow> sem_step t s s' \<Longrightarrow> sem_reach n s'"

section \<open>Invariant\<close>

definition holds_sem :: "sem_pc \<Rightarrow> bool" where
  "holds_sem p \<longleftrightarrow> p \<in> {PTest, PZero, PTake, PBridge, VInc, VWake, VRel}"

definition holds_wc :: "sem_pc \<Rightarrow> bool" where
  "holds_wc p \<longleftrightarrow> p \<in> {PBridge, PSleepy}"

text \<open>Threads that are about to go to sleep, and threads that will still take a unit or wake somebody.\<close>

definition falling :: "sem_pc \<Rightarrow> bool" where
  "falling p \<longleftrightarrow> p \<in> {PZero, PBridge, PSleepy}"

definition coming :: "sem_pc \<Rightarrow> bool" where
  "coming p \<longleftrightarrow> p \<in> {PAcq, PTest, PTake, VWake}"

lemmas pc_defs = holds_sem_def holds_wc_def falling_def coming_def

text \<open>A lock that is held by exactly the thread whose program point says so.\<close>

definition tracks :: "('p \<Rightarrow> bool) \<Rightarrow> (nat \<Rightarrow> 'p) \<Rightarrow> nat option \<Rightarrow> bool" where
  "tracks P f l \<longleftrightarrow> (\<forall>t. P (f t) \<longleftrightarrow> l = Some t)"

lemma tracks_upd:
  assumes "tracks P f l" "P p \<Longrightarrow> P (f t) \<or> l = None"
  shows "tracks P (f(t := p)) (if P p then Some t else if P (f t) then None else l)"
proof -
  have f: "P (f u) \<longleftrightarrow> l = Some u" for u using assms(1) by (simp add: tracks_def)
  show ?thesis using assms(2) unfolding tracks_def by (auto simp: f)
qed

definition locks_ok :: "sem_sys \<Rightarrow> bool" where
  "locks_ok s \<longleftrightarrow> tracks holds_sem (spc s) (sem_lock s) \<and> tracks holds_wc (spc s) (wc_lock s)"

definition queue_ok :: "sem_sys \<Rightarrow> bool" where
  "queue_ok s \<longleftrightarrow> (\<forall>t. spc s t = Asleep \<longleftrightarrow> t \<in> set (wc_threads s)) \<and> distinct (wc_threads s)"

definition count_ok :: "nat \<Rightarrow> sem_sys \<Rightarrow> bool" where
  "count_ok n s \<longleftrightarrow> sem_count s + p_done s = n + v_done s \<and> (\<forall>t. spc s t = PTake \<longrightarrow> 0 < sem_count s) \<and>
     (\<forall>t. spc s t = PZero \<or> spc s t = PBridge \<longrightarrow> sem_count s = 0)"

definition waiting :: "sem_sys \<Rightarrow> bool" where
  "waiting s \<longleftrightarrow> wc_threads s \<noteq> [] \<or> (\<exists>t. falling (spc s t))"

definition none_lost :: "sem_sys \<Rightarrow> bool" where
  "none_lost s \<longleftrightarrow> finite {t. coming (spc s t)} \<and> (waiting s \<longrightarrow> int (sem_count s) \<le> num coming (spc s))"

definition sem_inv :: "nat \<Rightarrow> sem_sys \<Rightarrow> bool" where
  "sem_inv n s \<longleftrightarrow> locks_ok s \<and> queue_ok s \<and> count_ok n s \<and> none_lost s"

lemma wakeone_fields [simp]:
  "sem_lock (wchan_wakeone s) = sem_lock s" "wc_lock (wchan_wakeone s) = wc_lock s"
  "sem_count (wchan_wakeone s) = sem_count s" "p_done (wchan_wakeone s) = p_done s" "v_done (wchan_wakeone s) = v_done s"
  by (simp_all add: wchan_wakeone_def split: list.split)

lemma sem_inv_init: "sem_inv n (sem_init n)"
  by (simp add: sem_inv_def locks_ok_def queue_ok_def count_ok_def none_lost_def waiting_def sem_init_def tracks_def pc_defs)

lemma locks_okD:
  assumes "locks_ok s"
  shows "holds_sem (spc s t) \<longleftrightarrow> sem_lock s = Some t" "holds_wc (spc s t) \<longleftrightarrow> wc_lock s = Some t"
  using assms by (simp_all add: locks_ok_def tracks_def)

lemma sem_owner: "locks_ok s \<Longrightarrow> holds_sem (spc s t) \<Longrightarrow> holds_sem (spc s u) \<Longrightarrow> u = t"
  by (simp add: locks_ok_def tracks_def)

lemma pc_simps [simp]:
  "holds_sem PTest" "holds_sem PZero" "holds_sem PTake" "holds_sem PBridge" "holds_sem VInc" "holds_sem VWake" "holds_sem VRel"
  "\<not> holds_sem Out" "\<not> holds_sem PAcq" "\<not> holds_sem PSleepy" "\<not> holds_sem Asleep" "\<not> holds_sem VAcq"
  "holds_wc p \<longleftrightarrow> p = PBridge \<or> p = PSleepy" "falling p \<longleftrightarrow> p = PZero \<or> p = PBridge \<or> p = PSleepy"
  "coming p \<longleftrightarrow> p = PAcq \<or> p = PTest \<or> p = PTake \<or> p = VWake"
  by (auto simp: pc_defs)

lemma locks_ok_goto:
  assumes "locks_ok s" "spc s' = (spc s)(t := spc s' t)"
    "sem_lock s' = (if holds_sem (spc s' t) then Some t else if holds_sem (spc s t) then None else sem_lock s)"
    "wc_lock s' = (if holds_wc (spc s' t) then Some t else if holds_wc (spc s t) then None else wc_lock s)"
    "holds_sem (spc s' t) \<Longrightarrow> holds_sem (spc s t) \<or> sem_lock s = None"
    "holds_wc (spc s' t) \<Longrightarrow> holds_wc (spc s t) \<or> wc_lock s = None"
  shows "locks_ok s'"
proof -
  have tr: "tracks holds_sem (spc s) (sem_lock s)" "tracks holds_wc (spc s) (wc_lock s)"
    using assms(1) by (simp_all add: locks_ok_def)
  have "tracks holds_sem ((spc s)(t := spc s' t)) (sem_lock s')" unfolding assms(3) by (rule tracks_upd [OF tr(1) assms(5)])
  moreover have "tracks holds_wc ((spc s)(t := spc s' t)) (wc_lock s')" unfolding assms(4) by (rule tracks_upd [OF tr(2) assms(6)])
  ultimately show ?thesis using assms(2) by (simp add: locks_ok_def)
qed

lemma locks_ok_step:
  assumes "locks_ok s" "queue_ok s" "sem_step t s s'"
  shows "locks_ok s'"
  using assms(3)
proof cases
  case v_wake
  have lk: "sem_lock s = Some t" using locks_okD(1) [OF assms(1), of t] v_wake(2) by simp
  show ?thesis
  proof (cases "wc_threads s")
    case Nil
    then show ?thesis using v_wake lk by (auto simp: wchan_wakeone_def intro: locks_ok_goto [OF assms(1), of _ t])
  next
    case (Cons u us)
    then have u: "spc s u = Asleep" using assms(2) by (simp add: queue_ok_def)
    have "locks_ok (goto u PAcq (s\<lparr>wc_threads := us\<rparr>))" by (rule locks_ok_goto [OF assms(1), of _ u]) (simp_all add: u)
    then show ?thesis by (rule locks_ok_goto [of _ _ t]) (use v_wake lk u Cons in \<open>auto simp: wchan_wakeone_def\<close>)
  qed
qed (use locks_okD [OF assms(1), of t] in \<open>auto intro!: locks_ok_goto [OF assms(1), of _ t]\<close>)

lemma queue_ok_step:
  assumes "queue_ok s" "sem_step t s s'"
  shows "queue_ok s'"
proof -
  have q: "u \<in> set (wc_threads s) \<longleftrightarrow> spc s u = Asleep" for u using assms(1) by (simp add: queue_ok_def)
  have d: "distinct (wc_threads s)" using assms(1) by (simp add: queue_ok_def)
  show ?thesis
    using assms(2)
  proof cases
    case v_wake
    then show ?thesis
    proof (cases "wc_threads s")
      case (Cons u us)
      have "v \<in> set us \<longleftrightarrow> spc s v = Asleep \<and> v \<noteq> u" for v using q [of v] d Cons by auto
      then show ?thesis using v_wake q [of t] d Cons by (auto simp: queue_ok_def wchan_wakeone_def)
    qed (use assms(1) in \<open>auto simp: queue_ok_def wchan_wakeone_def\<close>)
  qed (use d in \<open>auto simp: queue_ok_def q\<close>)
qed

lemma count_ok_goto:
  assumes "count_ok n s" "spc s' = (spc s)(t := spc s' t)" "sem_count s' + p_done s' = n + v_done s'"
    "sem_count s' = sem_count s \<or> (\<forall>u. u \<noteq> t \<longrightarrow> \<not> holds_sem (spc s u))"
    "spc s' t = PTake \<Longrightarrow> 0 < sem_count s'" "spc s' t = PZero \<or> spc s' t = PBridge \<Longrightarrow> sem_count s' = 0"
  shows "count_ok n s'"
proof -
  have other: "(spc s' u = PTake \<longrightarrow> 0 < sem_count s') \<and> (spc s' u = PZero \<or> spc s' u = PBridge \<longrightarrow> sem_count s' = 0)"
    if "u \<noteq> t" for u
  proof -
    have "spc s' u = spc s u" using assms(2) that by (metis fun_upd_other)
    then show ?thesis using assms(1,4) that by (auto simp: count_ok_def)
  qed
  show ?thesis unfolding count_ok_def using assms(3,5,6) other by metis
qed

lemma count_ok_same:
  assumes "count_ok n s" "spc s' = (spc s)(t := spc s' t)" "sem_count s' = sem_count s" "p_done s' = p_done s" "v_done s' = v_done s"
    "spc s' t \<notin> {PTake, PZero, PBridge}"
  shows "count_ok n s'"
  by (rule count_ok_goto [OF assms(1,2)]) (use assms(1,3-6) in \<open>simp_all add: count_ok_def\<close>)

lemma count_ok_step:
  assumes "locks_ok s" "queue_ok s" "count_ok n s" "sem_step t s s'"
  shows "count_ok n s'"
proof -
  have o: "\<forall>u. u \<noteq> t \<longrightarrow> \<not> holds_sem (spc s u)" if "holds_sem (spc s t)" using sem_owner [OF assms(1) that] by blast
  have c: "sem_count s + p_done s = n + v_done s" "spc s t = PTake \<Longrightarrow> 0 < sem_count s"
      "spc s t = PZero \<Longrightarrow> sem_count s = 0"
    using assms(3) by (auto simp: count_ok_def)
  show ?thesis
    using assms(4)
  proof cases
    case v_wake
    show ?thesis
    proof (cases "wc_threads s")
      case Nil
      then show ?thesis using v_wake c by (auto simp: wchan_wakeone_def intro: count_ok_goto [OF assms(3), of _ t])
    next
      case (Cons u us)
      then have "count_ok n (goto u PAcq (s\<lparr>wc_threads := us\<rparr>))"
        using c by (intro count_ok_goto [OF assms(3), of _ u]) auto
      then show ?thesis by (rule count_ok_goto [of _ _ _ t]) (use v_wake c Cons in \<open>auto simp: wchan_wakeone_def\<close>)
    qed
  next
    case p_take
    show ?thesis by (rule count_ok_goto [OF assms(3), of _ t]) (use p_take c(1) o in simp_all)
  next
    case v_inc
    show ?thesis by (rule count_ok_goto [OF assms(3), of _ t]) (use v_inc c(1) o in simp_all)
  next
    case p_test
    show ?thesis by (rule count_ok_goto [OF assms(3), of _ t]) (use p_test c(1) in \<open>simp_all split: if_splits\<close>)
  next
    case p_wchan_lock
    show ?thesis by (rule count_ok_goto [OF assms(3), of _ t]) (use p_wchan_lock c(1,3) in simp_all)
  qed (auto intro!: count_ok_same [OF assms(3), of _ t])
qed

lemma coming_upd:
  assumes "finite {t. coming (f t)}"
  shows "finite {t. coming ((f(u := p)) t)}"
    "num coming (f(u := p)) = num coming f - (if coming (f u) then 1 else 0) + (if coming p then 1 else 0)"
  by (rule finite_upd [where P = coming and f = f, OF assms], rule num_upd [where P = coming and f = f, OF assms])

lemma none_lost_goto:
  assumes "none_lost s" "spc s' = (spc s)(t := spc s' t)"
    "waiting s' \<Longrightarrow> sem_count s' = 0 \<or> waiting s \<and> int (sem_count s') + (if coming (spc s t) then 1 else 0) \<le>
       int (sem_count s) + (if coming (spc s' t) then 1 else 0)"
  shows "none_lost s'"
proof -
  have f: "finite {u. coming (spc s u)}" using assms(1) by (simp add: none_lost_def)
  have "finite {u. coming (((spc s)(t := spc s' t)) u)}" by (rule coming_upd(1) [OF f])
  moreover have n: "num coming ((spc s)(t := spc s' t)) =
      num coming (spc s) - (if coming (spc s t) then 1 else 0) + (if coming (spc s' t) then 1 else 0)" by (rule coming_upd(2) [OF f])
  have "int (sem_count s') \<le> num coming (spc s')" if "waiting s'"
  proof (cases "sem_count s' = 0")
    case False
    then have "waiting s" "int (sem_count s') + (if coming (spc s t) then 1 else 0) \<le>
        int (sem_count s) + (if coming (spc s' t) then 1 else 0)" using assms(3) [OF that] by auto
    moreover have "int (sem_count s) \<le> num coming (spc s)" using assms(1) \<open>waiting s\<close> by (simp add: none_lost_def)
    ultimately show ?thesis unfolding n [folded assms(2)] by linarith
  qed simp
  ultimately show ?thesis unfolding none_lost_def assms(2) [symmetric] by blast
qed

lemma waiting_goto:
  assumes "waiting s'" "spc s' = (spc s)(t := spc s' t)" "wc_threads s' = wc_threads s" "falling (spc s' t) \<Longrightarrow> falling (spc s t)"
  shows "waiting s"
  using assms by (metis fun_upd_apply waiting_def)

lemma none_lost_step:
  assumes "locks_ok s" "queue_ok s" "count_ok n s" "none_lost s" "sem_step t s s'"
  shows "none_lost s'"
  using assms(5)
proof cases
  case p_sleep
  then have "waiting s" by (auto simp: waiting_def)
  then show ?thesis by (intro none_lost_goto [OF assms(4), of _ t]) (use p_sleep in simp_all)
next
  case p_test
  show ?thesis
  proof (cases "sem_count s = 0")
    case False
    show ?thesis
      by (rule none_lost_goto [OF assms(4), of _ t]) (use p_test False in \<open>auto dest: waiting_goto [of _ s t]\<close>)
  qed (rule none_lost_goto [OF assms(4), of _ t], use p_test in simp_all)
next
  case v_wake
  have o: "\<not> falling (spc s u)" for u
    using sem_owner [OF assms(1), of t u] locks_okD(2) [OF assms(1), of u] v_wake(2,3) by auto
  show ?thesis
  proof (cases "wc_threads s")
    case Nil
    then have "\<not> waiting s'" using v_wake o by (auto simp: waiting_def wchan_wakeone_def)
    then show ?thesis using v_wake Nil by (intro none_lost_goto [OF assms(4), of _ t]) (auto simp: wchan_wakeone_def)
  next
    case (Cons u us)
    let ?f = "(spc s)(u := PAcq)"
    have u: "spc s u = Asleep" using assms(2) Cons by (simp add: queue_ok_def)
    then have ut: "u \<noteq> t" using v_wake(2) by auto
    have f: "finite {x. coming (spc s x)}" using assms(4) by (simp add: none_lost_def)
    then have f': "finite {x. coming (?f x)}" by (rule coming_upd(1))
    have "num coming (?f(t := VRel)) = num coming (spc s)"
      using coming_upd(2) [where f = ?f and u = t and p = VRel, OF f'] coming_upd(2) [OF f, of u PAcq] u ut v_wake(2) by simp
    moreover have "waiting s" using Cons by (simp add: waiting_def)
    ultimately show ?thesis
      using assms(4) coming_upd(1) [where f = ?f and u = t and p = VRel, OF f'] v_wake Cons by (simp add: none_lost_def wchan_wakeone_def)
  qed
qed (auto intro!: none_lost_goto [OF assms(4), of _ t] dest: waiting_goto [of _ s t])

lemma sem_reach_inv: "sem_reach n s \<Longrightarrow> sem_inv n s"
proof (induction rule: sem_reach.induct)
  case init
  show ?case by (rule sem_inv_init)
next
  case (step s t s')
  then have i: "locks_ok s" "queue_ok s" "count_ok n s" "none_lost s" by (simp_all add: sem_inv_def)
  show ?case
    unfolding sem_inv_def
    using locks_ok_step [OF i(1,2) step.hyps(2)] queue_ok_step [OF i(2) step.hyps(2)] count_ok_step [OF i(1-3) step.hyps(2)]
      none_lost_step [OF i step.hyps(2)] by blast
qed

section \<open>Properties\<close>


text \<open>A semaphore that starts empty, used by the threads 2 and 3.  The first goes to sleep, the second increments.\<close>

definition sem_two :: "nat \<Rightarrow> nat option \<Rightarrow> nat option \<Rightarrow> nat list \<Rightarrow> sem_pc \<Rightarrow> sem_pc \<Rightarrow> sem_sys" where
  "sem_two c l w q a b = \<lparr>sem_count = c, sem_lock = l, wc_lock = w, wc_threads = q,
     spc = (\<lambda>t. if t = 2 then a else if t = 3 then b else Out), p_done = 0, v_done = c\<rparr>"

abbreviation sem_ex :: sem_sys where
  "sem_ex \<equiv> sem_two 1 (Some 3) None [2] Asleep VWake"

lemma sem_two_step:
  "sem_step 2 (sem_two c l w q Out b) (sem_two c l w q PAcq b)"
  "sem_step 2 (sem_two c None w q PAcq b) (sem_two c (Some 2) w q PTest b)"
  "sem_step 2 (sem_two 0 l w q PTest b) (sem_two 0 l w q PZero b)"
  "sem_step 2 (sem_two c l None q PZero b) (sem_two c l (Some 2) q PBridge b)"
  "sem_step 2 (sem_two c l w q PBridge b) (sem_two c None w q PSleepy b)"
  "sem_step 2 (sem_two c l w q PSleepy b) (sem_two c l None (q @ [2]) Asleep b)"
  "sem_step 3 (sem_two c l w q a Out) (sem_two c l w q a VAcq)"
  "sem_step 3 (sem_two c None w q a VAcq) (sem_two c (Some 3) w q a VInc)"
  "c + 1 < 2 ^ 31 \<Longrightarrow> sem_step 3 (sem_two c l w q a VInc) (sem_two (c + 1) l w q a VWake)"
proof -
  have upd: "(\<lambda>t::nat. if t = 2 then a else if t = 3 then b else Out)(2 := p) = (\<lambda>t. if t = 2 then p else if t = 3 then b else Out)"
    "(\<lambda>t::nat. if t = 2 then a else if t = 3 then b else Out)(3 := p) = (\<lambda>t. if t = 2 then a else if t = 3 then p else Out)"
    for a b p by auto
  note d = sem_two_def upd
  show "sem_step 2 (sem_two c l w q Out b) (sem_two c l w q PAcq b)"
    using p_call [of "sem_two c l w q Out b" 2] by (simp add: d)
  show "sem_step 2 (sem_two c None w q PAcq b) (sem_two c (Some 2) w q PTest b)"
    using p_acquire [of "sem_two c None w q PAcq b" 2] by (simp add: d)
  show "sem_step 2 (sem_two 0 l w q PTest b) (sem_two 0 l w q PZero b)"
    using p_test [of "sem_two 0 l w q PTest b" 2] by (simp add: d)
  show "sem_step 2 (sem_two c l None q PZero b) (sem_two c l (Some 2) q PBridge b)"
    using p_wchan_lock [of "sem_two c l None q PZero b" 2] by (simp add: d)
  show "sem_step 2 (sem_two c l w q PBridge b) (sem_two c None w q PSleepy b)"
    using p_unlock [of "sem_two c l w q PBridge b" 2] by (simp add: d)
  show "sem_step 2 (sem_two c l w q PSleepy b) (sem_two c l None (q @ [2]) Asleep b)"
    using p_sleep [of "sem_two c l w q PSleepy b" 2] by (simp add: d)
  show "sem_step 3 (sem_two c l w q a Out) (sem_two c l w q a VAcq)"
    using v_call [of "sem_two c l w q a Out" 3] by (simp add: d)
  show "sem_step 3 (sem_two c None w q a VAcq) (sem_two c (Some 3) w q a VInc)"
    using v_acquire [of "sem_two c None w q a VAcq" 3] by (simp add: d)
  show "c + 1 < 2 ^ 31 \<Longrightarrow> sem_step 3 (sem_two c l w q a VInc) (sem_two (c + 1) l w q a VWake)"
    using v_inc [of "sem_two c l w q a VInc" 3] by (simp add: d)
qed

lemma sem_ex_reach: "sem_reach 0 sem_ex"
proof -
  have "sem_init 0 = sem_two 0 None None [] Out Out" by (auto simp: sem_init_def sem_two_def)
  then have "sem_reach 0 (sem_two 0 None None [] Out Out)" using sem_reach.init [of 0] by simp
  note r = this [THEN sem_reach.step, OF sem_two_step(1), THEN sem_reach.step, OF sem_two_step(2),
      THEN sem_reach.step, OF sem_two_step(3), THEN sem_reach.step, OF sem_two_step(4),
      THEN sem_reach.step, OF sem_two_step(5), THEN sem_reach.step, OF sem_two_step(6)]
  have "sem_reach 0 (sem_two 0 None None [2] Asleep Out)" using r by simp
  note r = this [THEN sem_reach.step, OF sem_two_step(7), THEN sem_reach.step, OF sem_two_step(8),
      THEN sem_reach.step, OF sem_two_step(9)]
  then show ?thesis by simp
qed




end
