(* ===== verification/Sleep_Lock.thy ===== *)
theory Sleep_Lock
  imports Semaphore
begin

text \<open>
  \<^verbatim>\<open>lock_acquire\<close>, \<^verbatim>\<open>lock_release\<close> and \<^verbatim>\<open>lock_do_i_hold\<close> of \<^verbatim>\<open>kern/thread/synch.c\<close>, run by any number of threads.  The lock
  is shown to be a semaphore with one unit: every step is a step of theory \<open>Semaphore\<close> or changes nothing there.
\<close>

section \<open>Definitions\<close>

text \<open>The program points are those of \<^verbatim>\<open>P\<close> and \<^verbatim>\<open>V\<close>: the test of the loop is on the owner, and \<open>VInc\<close> is the point
  before the owner is cleared.  \<open>held\<close> is the set of threads that have come back from \<^verbatim>\<open>lock_acquire\<close> and have not
  called \<^verbatim>\<open>lock_release\<close> since; the code does not have it.\<close>

record lock_sys =
  owner_thread :: "nat option"
  lk_spinlock :: "nat option"
  lk_wc_lock :: "nat option"
  lk_wc_threads :: "nat list"
  lpc :: "nat \<Rightarrow> sem_pc"
  held :: "nat set"
  acquired :: nat
  released :: nat

abbreviation lgoto :: "nat \<Rightarrow> sem_pc \<Rightarrow> lock_sys \<Rightarrow> lock_sys" where
  "lgoto t p s \<equiv> s\<lparr>lpc := (lpc s)(t := p)\<rparr>"

definition lock_do_i_hold :: "nat \<Rightarrow> lock_sys \<Rightarrow> bool" where
  "lock_do_i_hold t s \<longleftrightarrow> owner_thread s = Some t"

definition lk_wakeone :: "lock_sys \<Rightarrow> lock_sys" where
  "lk_wakeone s = (case lk_wc_threads s of [] \<Rightarrow> s | u # us \<Rightarrow> lgoto u PAcq (s\<lparr>lk_wc_threads := us\<rparr>))"

inductive lock_step :: "nat \<Rightarrow> lock_sys \<Rightarrow> lock_sys \<Rightarrow> bool" where
  a_again: "lpc s t = Out \<Longrightarrow> owner_thread s = Some t \<Longrightarrow> lock_step t s s"
| a_call: "lpc s t = Out \<Longrightarrow> owner_thread s \<noteq> Some t \<Longrightarrow> lock_step t s (lgoto t PAcq s)"
| a_acquire: "lpc s t = PAcq \<Longrightarrow> lk_spinlock s = None \<Longrightarrow> lock_step t s (lgoto t PTest (s\<lparr>lk_spinlock := Some t\<rparr>))"
| a_test: "lpc s t = PTest \<Longrightarrow> lock_step t s (lgoto t (if owner_thread s \<noteq> None then PZero else PTake) s)"
| a_wchan_lock: "lpc s t = PZero \<Longrightarrow> lk_wc_lock s = None \<Longrightarrow>
    lock_step t s (lgoto t PBridge (s\<lparr>lk_wc_lock := Some t\<rparr>))"
| a_unlock: "lpc s t = PBridge \<Longrightarrow> lock_step t s (lgoto t PSleepy (s\<lparr>lk_spinlock := None\<rparr>))"
| a_sleep: "lpc s t = PSleepy \<Longrightarrow>
    lock_step t s (lgoto t Asleep (s\<lparr>lk_wc_threads := lk_wc_threads s @ [t], lk_wc_lock := None\<rparr>))"
| a_take: "lpc s t = PTake \<Longrightarrow>
    lock_step t s (lgoto t Out (s\<lparr>owner_thread := Some t, lk_spinlock := None, held := insert t (held s), acquired := acquired s + 1\<rparr>))"
| r_ignored: "lpc s t = Out \<Longrightarrow> owner_thread s \<noteq> Some t \<Longrightarrow> lock_step t s s"
| r_call: "lpc s t = Out \<Longrightarrow> owner_thread s = Some t \<Longrightarrow> lock_step t s (lgoto t VAcq (s\<lparr>held := held s - {t}\<rparr>))"
| r_acquire: "lpc s t = VAcq \<Longrightarrow> lk_spinlock s = None \<Longrightarrow> lock_step t s (lgoto t VInc (s\<lparr>lk_spinlock := Some t\<rparr>))"
| r_clear: "lpc s t = VInc \<Longrightarrow> lock_step t s (lgoto t VWake (s\<lparr>owner_thread := None, released := released s + 1\<rparr>))"
| r_wake: "lpc s t = VWake \<Longrightarrow> lk_wc_lock s = None \<Longrightarrow> lock_step t s (lgoto t VRel (lk_wakeone s))"
| r_release: "lpc s t = VRel \<Longrightarrow> lock_step t s (lgoto t Out (s\<lparr>lk_spinlock := None\<rparr>))"

definition lock_init :: lock_sys where
  "lock_init = \<lparr>owner_thread = None, lk_spinlock = None, lk_wc_lock = None, lk_wc_threads = [], lpc = (\<lambda>_. Out), held = {},
     acquired = 0, released = 0\<rparr>"

inductive lock_reach :: "lock_sys \<Rightarrow> bool" where
  lock_start: "lock_reach lock_init"
| lock_next: "lock_reach s \<Longrightarrow> lock_step t s s' \<Longrightarrow> lock_reach s'"

section \<open>The lock as a semaphore\<close>

definition as_sem :: "lock_sys \<Rightarrow> sem_sys" where
  "as_sem s = \<lparr>sem_count = (if owner_thread s = None then 1 else 0), sem_lock = lk_spinlock s, wc_lock = lk_wc_lock s,
     wc_threads = lk_wc_threads s, spc = lpc s, p_done = acquired s, v_done = released s\<rparr>"

definition owner_ok :: "lock_sys \<Rightarrow> bool" where
  "owner_ok s \<longleftrightarrow> (\<forall>t. lpc s t = VAcq \<or> lpc s t = VInc \<longrightarrow> owner_thread s = Some t) \<and> (\<forall>t\<in>held s. owner_thread s = Some t) \<and>
     (\<forall>t\<in>held s. lpc s t = Out)"

lemma as_sem_fields [simp]:
  "sem_count (as_sem s) = (if owner_thread s = None then 1 else 0)" "sem_lock (as_sem s) = lk_spinlock s"
  "wc_lock (as_sem s) = lk_wc_lock s" "wc_threads (as_sem s) = lk_wc_threads s" "spc (as_sem s) = lpc s"
  by (simp_all add: as_sem_def)

lemma as_sem_wakeone: "as_sem (lk_wakeone s) = wchan_wakeone (as_sem s)"
  by (simp add: lk_wakeone_def wchan_wakeone_def as_sem_def split: list.split)

lemma lock_step_simulates:
  assumes "lock_step t s s'" "owner_ok s" "lpc s t = PTake \<Longrightarrow> owner_thread s = None"
  shows "as_sem s' = as_sem s \<or> sem_step t (as_sem s) (as_sem s')"
  using assms(1)
proof cases
  case a_call
  then show ?thesis using p_call [of "as_sem s" t] by (simp add: as_sem_def)
next
  case a_acquire
  then show ?thesis using p_acquire [of "as_sem s" t] by (simp add: as_sem_def)
next
  case a_test
  then show ?thesis using p_test [of "as_sem s" t] by (simp add: as_sem_def split: if_splits)
next
  case a_wchan_lock
  then show ?thesis using p_wchan_lock [of "as_sem s" t] by (simp add: as_sem_def)
next
  case a_unlock
  then show ?thesis using p_unlock [of "as_sem s" t] by (simp add: as_sem_def)
next
  case a_sleep
  then show ?thesis using p_sleep [of "as_sem s" t] by (simp add: as_sem_def)
next
  case a_take
  then show ?thesis using p_take [of "as_sem s" t] assms(3) by (simp add: as_sem_def)
next
  case r_call
  then show ?thesis using v_call [of "as_sem s" t] by (simp add: as_sem_def)
next
  case r_acquire
  then show ?thesis using v_acquire [of "as_sem s" t] by (simp add: as_sem_def)
next
  case r_clear
  then have "owner_thread s = Some t" using assms(2) by (simp add: owner_ok_def)
  then show ?thesis using v_inc [of "as_sem s" t] r_clear by (simp add: as_sem_def)
next
  case r_wake
  have "as_sem (lgoto t VRel (lk_wakeone s)) = goto t VRel (wchan_wakeone (as_sem s))"
    unfolding as_sem_wakeone [symmetric] by (simp add: as_sem_def)
  then show ?thesis using v_wake [of "as_sem s" t] r_wake by simp
next
  case r_release
  then show ?thesis using v_release [of "as_sem s" t] by (simp add: as_sem_def)
qed simp_all

lemma owner_okD:
  assumes "owner_ok s"
  shows "lpc s u = VAcq \<Longrightarrow> owner_thread s = Some u" "lpc s u = VInc \<Longrightarrow> owner_thread s = Some u"
    "u \<in> held s \<Longrightarrow> owner_thread s = Some u" "u \<in> held s \<Longrightarrow> lpc s u = Out"
  using assms by (auto simp: owner_ok_def)

lemma owner_ok_goto:
  assumes "owner_ok s" "lpc s' = (lpc s)(t := lpc s' t)" "owner_thread s' = owner_thread s" "held s' \<subseteq> held s"
    "lpc s' t = VAcq \<or> lpc s' t = VInc \<Longrightarrow> owner_thread s = Some t" "t \<in> held s' \<Longrightarrow> lpc s' t = Out"
  shows "owner_ok s'"
proof -
  have other: "lpc s' u = lpc s u" if "u \<noteq> t" for u using assms(2) that by (metis fun_upd_other)
  have "owner_thread s' = Some u" if "lpc s' u = VAcq \<or> lpc s' u = VInc" for u
    using that assms(3,5) other [of u] owner_okD(1,2) [OF assms(1), of u] by (cases "u = t") auto
  moreover have "owner_thread s' = Some u \<and> lpc s' u = Out" if "u \<in> held s'" for u
    using that assms(3,4,6) other [of u] owner_okD(3,4) [OF assms(1), of u] by (cases "u = t") auto
  ultimately show ?thesis unfolding owner_ok_def by blast
qed

lemma owner_ok_step:
  assumes "lock_step t s s'" "owner_ok s" "lpc s t = PTake \<Longrightarrow> owner_thread s = None" "queue_ok (as_sem s)"
  shows "owner_ok s'"
proof -
  note d = owner_okD [OF assms(2)]
  have nh: "lpc s t \<noteq> Out \<Longrightarrow> t \<notin> held s" using d(4) by blast
  show ?thesis
    using assms(1)
  proof cases
    case a_take
    then have "owner_thread s = None" using assms(3) by simp
    then have "lpc s u \<noteq> VAcq" "lpc s u \<noteq> VInc" "u \<notin> held s" for u using d [of u] by auto
    then show ?thesis using a_take by (simp add: owner_ok_def)
  next
    case r_clear
    then have o: "owner_thread s = Some t" using d(2) by simp
    have "lpc s u \<noteq> VAcq" "lpc s u \<noteq> VInc" "u \<notin> held s" if "u \<noteq> t" for u using d [of u] o that by auto
    moreover from this have "held s = {}" using nh r_clear(2) by fastforce
    ultimately show ?thesis using r_clear(1) by (auto simp: owner_ok_def)
  next
    case r_wake
    have q: "lpc s u = Asleep" if "u \<in> set (lk_wc_threads s)" for u using assms(4) that by (simp add: queue_ok_def)
    have "owner_ok (lk_wakeone s) \<and> lpc (lk_wakeone s) t = VWake"
    proof (cases "lk_wc_threads s")
      case (Cons u us)
      then have u: "lpc s u = Asleep" using q by simp
      then have "u \<notin> held s" "u \<noteq> t" using d(4) [of u] r_wake(2) by auto
      then show ?thesis
        using Cons r_wake(2) by (auto simp: lk_wakeone_def intro!: owner_ok_goto [OF assms(2), of _ u])
    qed (use assms(2) r_wake(2) in \<open>simp add: lk_wakeone_def\<close>)
    moreover from this have "t \<notin> held (lk_wakeone s)" using owner_okD(4) by fastforce
    ultimately show ?thesis using r_wake(1) by (auto intro!: owner_ok_goto [of "lk_wakeone s" _ t])
  qed (use assms(2) nh in \<open>auto intro!: owner_ok_goto [OF assms(2), of _ t] dest: d(1,3)\<close>)
qed

lemma lock_reach_sim: "lock_reach s \<Longrightarrow> sem_reach 1 (as_sem s) \<and> owner_ok s"
proof (induction rule: lock_reach.induct)
  case lock_start
  have "as_sem lock_init = sem_init 1" by (simp add: as_sem_def lock_init_def sem_init_def)
  then show ?case using sem_reach.init [of 1] by (simp add: owner_ok_def lock_init_def)
next
  case (lock_next s t s')
  have i: "count_ok 1 (as_sem s)" "queue_ok (as_sem s)" using sem_reach_inv [of 1] lock_next.IH by (simp_all add: sem_inv_def)
  have "lpc s t = PTake \<Longrightarrow> owner_thread s = None" using i(1) by (auto simp: count_ok_def split: if_splits)
  then show ?case
    using lock_step_simulates [OF lock_next.hyps(2)] owner_ok_step [OF lock_next.hyps(2)] lock_next.IH i(2)
    by (metis sem_reach.step)
qed

section \<open>Properties\<close>

text \<open>C12: the sleep lock refines a semaphore with one unit: read as a semaphore, every state the lock can reach is one the
  semaphore can reach, so what holds of the semaphore holds of the lock, and every further step is one of the
  semaphore's or invisible there.\<close>

theorem lock_refines_semaphore:
  assumes "lock_reach s"
  shows "sem_reach 1 (as_sem s) \<and> (\<forall>t s'. lock_step t s s' \<longrightarrow> as_sem s' = as_sem s \<or> sem_step t (as_sem s) (as_sem s'))"
proof -
  have r: "sem_reach 1 (as_sem s)" "owner_ok s" using lock_reach_sim [OF assms] by simp_all
  then have "count_ok 1 (as_sem s)" using sem_reach_inv [of 1] by (simp add: sem_inv_def)
  then have "lpc s t = PTake \<Longrightarrow> owner_thread s = None" for t by (auto simp: count_ok_def split: if_splits)
  then show ?thesis using r lock_step_simulates by blast
qed

text \<open>C11: at most one thread is between its return from \<^verbatim>\<open>lock_acquire\<close> and its call of \<^verbatim>\<open>lock_release\<close>, and that is the thread
  \<^verbatim>\<open>lock_do_i_hold\<close> answers true to.\<close>

theorem lock_mutual_exclusion:
  assumes "lock_reach s" "t \<in> held s"
  shows "held s = {t} \<and> lock_do_i_hold t s \<and> (\<forall>u. lock_do_i_hold u s \<longrightarrow> u = t)"
proof -
  have o: "owner_thread s = Some u" if "u \<in> held s" for u
    by (rule owner_okD(3) [OF conjunct2 [OF lock_reach_sim [OF assms(1)]] that])
  have "u = t" if "u \<in> held s" for u using o [OF that] o [OF assms(2)] by simp
  then have "held s = {t}" using assms(2) by blast
  then show ?thesis using o [OF assms(2)] by (simp add: lock_do_i_hold_def)
qed

text \<open>Thread 2 has acquired the lock.\<close>

definition lock_ex :: lock_sys where
  "lock_ex = lock_init\<lparr>owner_thread := Some 2, held := {2}, acquired := 1\<rparr>"

lemma lock_ex_reach: "lock_reach lock_ex"
proof -
  let ?s1 = "lgoto 2 PAcq lock_init"
  let ?s2 = "lock_init\<lparr>lk_spinlock := Some 2, lpc := (\<lambda>_. Out)(2 := PTest)\<rparr>"
  let ?s3 = "lock_init\<lparr>lk_spinlock := Some 2, lpc := (\<lambda>_. Out)(2 := PTake)\<rparr>"
  have "lock_step 2 lock_init ?s1" by (rule a_call) (simp_all add: lock_init_def)
  moreover have "lock_step 2 ?s1 ?s2" using a_acquire [of ?s1 2] by (simp add: lock_init_def)
  moreover have "lock_step 2 ?s2 ?s3" using a_test [of ?s2 2] by (simp add: lock_init_def)
  moreover have "lock_step 2 ?s3 lock_ex" using a_take [of ?s3 2] by (simp add: lock_init_def lock_ex_def fun_upd_idem)
  ultimately show ?thesis by (meson lock_reach.intros)
qed

theorem lock_refines_semaphore_witness: "sem_reach 1 (as_sem lock_ex) \<and> sem_count (as_sem lock_ex) = 0"
  using lock_refines_semaphore [OF lock_ex_reach] by (simp add: lock_ex_def)

theorem lock_mutual_exclusion_witness: "held lock_ex = {2} \<and> lock_do_i_hold 2 lock_ex"
  using lock_mutual_exclusion [OF lock_ex_reach, of 2] by (simp add: lock_ex_def)

end
