(* ===== verification/Rw_Lock.thy ===== *)
theory Rw_Lock
  imports Sleep_Lock
begin

text \<open>
  The reader-writer lock of \<^verbatim>\<open>kern/thread/synch.c\<close> on top of its semaphore and its two locks.  A thread takes a unit with
  \<^verbatim>\<open>P\<close> when there is one and a lock when it is free, which is what theories \<open>Semaphore\<close> and \<open>Sleep_Lock\<close> establish
  for them.
\<close>

section \<open>Definitions\<close>

abbreviation (input) max_readers :: nat where "max_readers \<equiv> 30"

text \<open>In \<^verbatim>\<open>rwlock_acquire_read\<close>: with \<^verbatim>\<open>lk_read\<close>, and with the unit; then reading.  In \<^verbatim>\<open>rwlock_acquire_write\<close>: with
  \<^verbatim>\<open>lk_write\<close> and \<open>k\<close> units so far; then writing.  In \<^verbatim>\<open>rwlock_release_write\<close>: with \<open>k\<close> units left to return.\<close>

datatype rw_pc = ROut | RWait | RGot | Reading | WGet nat | Writing | WPut nat

record rw_sys =
  sem_resource :: nat
  lk_read :: "nat option"
  lk_write :: "nat option"
  rpc :: "nat \<Rightarrow> rw_pc"

abbreviation rgoto :: "nat \<Rightarrow> rw_pc \<Rightarrow> rw_sys \<Rightarrow> rw_sys" where
  "rgoto t p s \<equiv> s\<lparr>rpc := (rpc s)(t := p)\<rparr>"

inductive rw_step :: "nat \<Rightarrow> rw_sys \<Rightarrow> rw_sys \<Rightarrow> bool" where
  read_lock: "rpc s t = ROut \<Longrightarrow> lk_read s = None \<Longrightarrow> rw_step t s (rgoto t RWait (s\<lparr>lk_read := Some t\<rparr>))"
| read_P: "rpc s t = RWait \<Longrightarrow> 0 < sem_resource s \<Longrightarrow>
    rw_step t s (rgoto t RGot (s\<lparr>sem_resource := sem_resource s - 1\<rparr>))"
| read_unlock: "rpc s t = RGot \<Longrightarrow> rw_step t s (rgoto t Reading (s\<lparr>lk_read := None\<rparr>))"
| read_release: "rpc s t = Reading \<Longrightarrow> rw_step t s (rgoto t ROut (s\<lparr>sem_resource := sem_resource s + 1\<rparr>))"
| write_lock: "rpc s t = ROut \<Longrightarrow> lk_write s = None \<Longrightarrow> rw_step t s (rgoto t (WGet 0) (s\<lparr>lk_write := Some t\<rparr>))"
| write_P: "rpc s t = WGet i \<Longrightarrow> i < max_readers \<Longrightarrow> 0 < sem_resource s \<Longrightarrow>
    rw_step t s (rgoto t (WGet (i + 1)) (s\<lparr>sem_resource := sem_resource s - 1\<rparr>))"
| write_unlock: "rpc s t = WGet i \<Longrightarrow> \<not> i < max_readers \<Longrightarrow> rw_step t s (rgoto t Writing (s\<lparr>lk_write := None\<rparr>))"
| write_release: "rpc s t = Writing \<Longrightarrow> rw_step t s (rgoto t (WPut max_readers) s)"
| write_V: "rpc s t = WPut (Suc i) \<Longrightarrow> rw_step t s (rgoto t (WPut i) (s\<lparr>sem_resource := sem_resource s + 1\<rparr>))"
| write_done: "rpc s t = WPut 0 \<Longrightarrow> rw_step t s (rgoto t ROut s)"

text \<open>The state \<^verbatim>\<open>rwlock_create\<close> leaves.\<close>

definition rw_init :: rw_sys where
  "rw_init = \<lparr>sem_resource = max_readers, lk_read = None, lk_write = None, rpc = (\<lambda>_. ROut)\<rparr>"

inductive rw_reach :: "rw_sys \<Rightarrow> bool" where
  rw_start: "rw_reach rw_init"
| rw_next: "rw_reach s \<Longrightarrow> rw_step t s s' \<Longrightarrow> rw_reach s'"

section \<open>Units\<close>

fun units :: "rw_pc \<Rightarrow> nat" where
  "units RGot = 1"
| "units Reading = 1"
| "units (WGet k) = k"
| "units Writing = max_readers"
| "units (WPut k) = k"
| "units _ = 0"

definition support :: "(nat \<Rightarrow> rw_pc) \<Rightarrow> nat set" where
  "support f = {t. units (f t) \<noteq> 0}"

definition taken :: "(nat \<Rightarrow> rw_pc) \<Rightarrow> nat" where
  "taken f = (\<Sum>t\<in>support f. units (f t))"

lemma taken_upd:
  assumes "finite (support f)"
  shows "finite (support (f(t := p)))" "taken (f(t := p)) + units (f t) = taken f + units p"
proof -
  let ?A = "insert t (support f \<union> support (f(t := p)))"
  have s: "support (f(t := p)) \<subseteq> insert t (support f)" by (auto simp: support_def)
  then show fin: "finite (support (f(t := p)))" using assms finite_subset by blast
  have A: "finite ?A" using assms fin by simp
  have a: "taken g = (\<Sum>u\<in>?A. units (g u))" if "support g \<subseteq> ?A" for g
    unfolding taken_def by (rule sum.mono_neutral_left) (use A that in \<open>auto simp: support_def\<close>)
  have "(\<Sum>u\<in>?A. units ((f(t := p)) u)) = units p + (\<Sum>u\<in>?A - {t}. units (f u))"
    using A by (subst sum.remove [of _ t]) (auto intro!: sum.cong)
  moreover have "(\<Sum>u\<in>?A. units (f u)) = units (f t) + (\<Sum>u\<in>?A - {t}. units (f u))"
    using A by (subst sum.remove [of _ t]) auto
  moreover have "taken f = (\<Sum>u\<in>?A. units (f u))" by (rule a) auto
  moreover have "taken (f(t := p)) = (\<Sum>u\<in>?A. units ((f(t := p)) u))" by (rule a) auto
  ultimately show "taken (f(t := p)) + units (f t) = taken f + units p" by linarith
qed

lemma taken_two:
  assumes "finite (support f)" "t \<noteq> u"
  shows "units (f t) + units (f u) \<le> taken f"
proof -
  have "taken (f(t := ROut)) + units (f t) = taken f" using taken_upd(2) [OF assms(1), of t ROut] by simp
  moreover have "taken (f(t := ROut, u := ROut)) + units ((f(t := ROut)) u) = taken (f(t := ROut))"
    using taken_upd(2) [OF taken_upd(1) [OF assms(1)], of t ROut u ROut] by simp
  ultimately show ?thesis using assms(2) by simp
qed

definition rw_inv :: "rw_sys \<Rightarrow> bool" where
  "rw_inv s \<longleftrightarrow> finite (support (rpc s)) \<and> sem_resource s + taken (rpc s) = max_readers \<and>
     (\<forall>t i. rpc s t = WGet i \<longrightarrow> i \<le> max_readers)"

lemma rw_inv_goto:
  assumes "rw_inv s" "rpc s' = (rpc s)(t := rpc s' t)" "sem_resource s' + units (rpc s' t) = sem_resource s + units (rpc s t)"
    "\<And>i. rpc s' t = WGet i \<Longrightarrow> i \<le> max_readers"
  shows "rw_inv s'"
proof -
  have i: "finite (support (rpc s))" "sem_resource s + taken (rpc s) = max_readers" using assms(1) by (simp_all add: rw_inv_def)
  note u = taken_upd [OF i(1), of t "rpc s' t", folded assms(2)]
  have "i \<le> max_readers" if "rpc s' x = WGet i" for x i
    using that assms(1,2,4) by (cases "x = t") (auto simp: rw_inv_def dest: fun_cong [of _ _ x])
  then show ?thesis unfolding rw_inv_def using u i(2) assms(3) by auto
qed

lemma rw_inv_step:
  assumes "rw_inv s" "rw_step t s s'"
  shows "rw_inv s'"
  using assms(2) by cases (rule rw_inv_goto [OF assms(1), of _ t]; use assms(1) in \<open>force simp: rw_inv_def\<close>)+

lemma rw_reach_inv: "rw_reach s \<Longrightarrow> rw_inv s"
  by (induction rule: rw_reach.induct) (simp add: rw_inv_def rw_init_def support_def taken_def, blast intro: rw_inv_step)

section \<open>Properties\<close>

text \<open>C14: while a thread has the reader-writer lock for writing, nobody else has it for reading or writing, and at no time
  more than 30 threads have it for reading.\<close>

theorem rwlock_exclusion:
  assumes "rw_reach s"
  shows "(\<forall>t u. rpc s t = Writing \<and> u \<noteq> t \<longrightarrow> rpc s u \<noteq> Reading \<and> rpc s u \<noteq> Writing) \<and>
    finite {t. rpc s t = Reading} \<and> card {t. rpc s t = Reading} \<le> max_readers"
proof -
  have f: "finite (support (rpc s))" and n: "sem_resource s + taken (rpc s) = max_readers"
    using rw_reach_inv [OF assms] by (simp_all add: rw_inv_def)
  have "units (rpc s u) = 0" if "rpc s t = Writing" "u \<noteq> t" for t u
    using taken_two [OF f, of t u] n that by simp
  moreover have sub: "{t. rpc s t = Reading} \<subseteq> support (rpc s)" by (auto simp: support_def)
  moreover have "card {t. rpc s t = Reading} = (\<Sum>t\<in>{t. rpc s t = Reading}. units (rpc s t))" by simp
  then have "card {t. rpc s t = Reading} \<le> taken (rpc s)"
    unfolding taken_def by (simp only: sum_mono2 [OF f sub])
  ultimately show ?thesis using n finite_subset [OF sub f] by fastforce
qed

theorem rwlock_exclusion_witness:
  "\<exists>s. rw_reach s \<and> rpc s 2 = Reading \<and> card {t. rpc s t = Reading} \<le> 30"
proof -
  let ?s = "\<lambda>n l p. \<lparr>sem_resource = n, lk_read = l, lk_write = None, rpc = (\<lambda>_. ROut)(2 := p)\<rparr>"
  have "rw_step 2 rw_init (?s 30 (Some 2) RWait)" using read_lock [of rw_init 2] by (simp add: rw_init_def)
  moreover have "rw_step 2 (?s 30 (Some 2) RWait) (?s 29 (Some 2) RGot)"
    using read_P [of "?s 30 (Some 2) RWait" 2] by simp
  moreover have "rw_step 2 (?s 29 (Some 2) RGot) (?s 29 None Reading)"
    using read_unlock [of "?s 29 (Some 2) RGot" 2] by simp
  ultimately have "rw_reach (?s 29 None Reading)" by (meson rw_reach.intros)
  then show ?thesis using rwlock_exclusion [of "?s 29 None Reading"] by (intro exI [of _ "?s 29 None Reading"]) simp
qed

end
