(* ===== verification/Cond_Var.thy ===== *)
theory Cond_Var
  imports Sleep_Lock
begin

text \<open>
  \<^verbatim>\<open>cv_wait\<close>, \<^verbatim>\<open>cv_signal\<close> and \<^verbatim>\<open>cv_broadcast\<close> of \<^verbatim>\<open>kern/thread/synch.c\<close> on one condition variable and the lock used with it.
  The lock is taken when it is free and released by its owner, as theory \<open>Sleep_Lock\<close> establishes; the callers hold it,
  as \<^verbatim>\<open>synch.h\<close> demands.
\<close>

section \<open>Definitions\<close>

text \<open>Outside, with the lock; in \<^verbatim>\<open>cv_wait\<close>: with \<^verbatim>\<open>cv_spinlock\<close>, after \<^verbatim>\<open>lock_release\<close>, with the lock of the wait channel,
  without \<^verbatim>\<open>cv_spinlock\<close> again, asleep, and woken, before \<^verbatim>\<open>lock_acquire\<close>.\<close>

datatype cv_pc = COut | CIn | WSpin | WGap | WBridge | WSleepy | WAsleep | WRelock

record cv_sys =
  cv_owner :: "nat option"
  cv_spinlock :: "nat option"
  cv_wc_lock :: "nat option"
  cv_wc_threads :: "nat list"
  cpc :: "nat \<Rightarrow> cv_pc"

abbreviation cgoto :: "nat \<Rightarrow> cv_pc \<Rightarrow> cv_sys \<Rightarrow> cv_sys" where
  "cgoto t p s \<equiv> s\<lparr>cpc := (cpc s)(t := p)\<rparr>"

text \<open>\<^verbatim>\<open>wchan_wakeone\<close> and \<^verbatim>\<open>wchan_wakeall\<close>.\<close>

definition cv_wakeone :: "cv_sys \<Rightarrow> cv_sys" where
  "cv_wakeone s = (case cv_wc_threads s of [] \<Rightarrow> s | u # us \<Rightarrow> cgoto u WRelock (s\<lparr>cv_wc_threads := us\<rparr>))"

definition cv_wakeall :: "cv_sys \<Rightarrow> cv_sys" where
  "cv_wakeall s = s\<lparr>cv_wc_threads := [], cpc := (\<lambda>u. if u \<in> set (cv_wc_threads s) then WRelock else cpc s u)\<rparr>"

inductive cv_step :: "nat \<Rightarrow> cv_sys \<Rightarrow> cv_sys \<Rightarrow> bool" where
  c_lock: "cpc s t = COut \<Longrightarrow> cv_owner s = None \<Longrightarrow> cv_step t s (cgoto t CIn (s\<lparr>cv_owner := Some t\<rparr>))"
| c_unlock: "cpc s t = CIn \<Longrightarrow> cv_step t s (cgoto t COut (s\<lparr>cv_owner := None\<rparr>))"
| w_spin: "cpc s t = CIn \<Longrightarrow> cv_spinlock s = None \<Longrightarrow> cv_step t s (cgoto t WSpin (s\<lparr>cv_spinlock := Some t\<rparr>))"
| w_release: "cpc s t = WSpin \<Longrightarrow> cv_step t s (cgoto t WGap (s\<lparr>cv_owner := None\<rparr>))"
| w_wchan: "cpc s t = WGap \<Longrightarrow> cv_wc_lock s = None \<Longrightarrow> cv_step t s (cgoto t WBridge (s\<lparr>cv_wc_lock := Some t\<rparr>))"
| w_unspin: "cpc s t = WBridge \<Longrightarrow> cv_step t s (cgoto t WSleepy (s\<lparr>cv_spinlock := None\<rparr>))"
| w_sleep: "cpc s t = WSleepy \<Longrightarrow>
    cv_step t s (cgoto t WAsleep (s\<lparr>cv_wc_threads := cv_wc_threads s @ [t], cv_wc_lock := None\<rparr>))"
| w_relock: "cpc s t = WRelock \<Longrightarrow> cv_owner s = None \<Longrightarrow> cv_step t s (cgoto t CIn (s\<lparr>cv_owner := Some t\<rparr>))"
| c_signal: "cpc s t = CIn \<Longrightarrow> cv_wc_lock s = None \<Longrightarrow> cv_step t s (cv_wakeone s)"
| c_broadcast: "cpc s t = CIn \<Longrightarrow> cv_wc_lock s = None \<Longrightarrow> cv_step t s (cv_wakeall s)"

definition cv_init :: cv_sys where
  "cv_init = \<lparr>cv_owner = None, cv_spinlock = None, cv_wc_lock = None, cv_wc_threads = [], cpc = (\<lambda>_. COut)\<rparr>"

inductive cv_reach :: "cv_sys \<Rightarrow> bool" where
  cv_start: "cv_reach cv_init"
| cv_next: "cv_reach s \<Longrightarrow> cv_step t s s' \<Longrightarrow> cv_reach s'"

definition cv_next_state :: "cv_sys \<Rightarrow> cv_sys \<Rightarrow> bool" where
  "cv_next_state s s' \<longleftrightarrow> (\<exists>t. cv_step t s s')"

section \<open>Invariant\<close>

definition has_lock :: "cv_pc \<Rightarrow> bool" where
  "has_lock p \<longleftrightarrow> p = CIn \<or> p = WSpin"

definition cv_inv :: "cv_sys \<Rightarrow> bool" where
  "cv_inv s \<longleftrightarrow> tracks has_lock (cpc s) (cv_owner s) \<and> (\<forall>t\<in>set (cv_wc_threads s). cpc s t = WAsleep) \<and>
     (\<forall>t. cpc s t = WAsleep \<longrightarrow> t \<in> set (cv_wc_threads s)) \<and> distinct (cv_wc_threads s)"

lemma tracks_other: "tracks P f l \<Longrightarrow> \<not> P (f t) \<Longrightarrow> \<not> P p \<Longrightarrow> tracks P (f(t := p)) l"
  using tracks_upd [of P f l p t] by simp

lemma cv_inv_init: "cv_inv cv_init"
  by (simp add: cv_inv_def cv_init_def tracks_def has_lock_def)

lemma cv_inv_goto:
  assumes "cv_inv s" "cpc s' = (cpc s)(t := cpc s' t)" "cv_wc_threads s' = cv_wc_threads s"
    "cpc s t \<noteq> WAsleep" "cpc s' t \<noteq> WAsleep" "has_lock (cpc s' t) \<Longrightarrow> has_lock (cpc s t) \<or> cv_owner s = None"
    "cv_owner s' = (if has_lock (cpc s' t) then Some t else if has_lock (cpc s t) then None else cv_owner s)"
  shows "cv_inv s'"
proof -
  have tr: "tracks has_lock (cpc s) (cv_owner s)" using assms(1) by (simp add: cv_inv_def)
  have "tracks has_lock (cpc s') (cv_owner s')"
    using tracks_upd [OF tr, of "cpc s' t" t] assms(2,6,7) by simp
  moreover have "t \<notin> set (cv_wc_threads s)" using assms(1,4) by (auto simp: cv_inv_def)
  moreover have "cpc s' u = cpc s u" if "u \<noteq> t" for u using assms(2) that by (metis fun_upd_other)
  ultimately show ?thesis using assms(1,3,5) unfolding cv_inv_def by metis
qed

lemma cv_inv_step:
  assumes "cv_inv s" "cv_step t s s'"
  shows "cv_inv s'"
proof -
  have tr: "has_lock (cpc s u) \<longleftrightarrow> cv_owner s = Some u" for u using assms(1) by (simp add: cv_inv_def tracks_def)
  show ?thesis
    using assms(2)
  proof cases
    case w_sleep
    then have "t \<notin> set (cv_wc_threads s)" using assms(1) by (auto simp: cv_inv_def)
    moreover have "tracks has_lock ((cpc s)(t := WAsleep)) (cv_owner s)"
      using assms(1) w_sleep(2) by (intro tracks_other) (simp_all add: cv_inv_def has_lock_def)
    ultimately show ?thesis using w_sleep assms(1) by (auto simp: cv_inv_def)
  next
    case c_signal
    then show ?thesis
    proof (cases "cv_wc_threads s")
      case (Cons u us)
      then have "tracks has_lock ((cpc s)(u := WRelock)) (cv_owner s)"
        using assms(1) by (intro tracks_other) (simp_all add: cv_inv_def has_lock_def)
      then show ?thesis using c_signal Cons assms(1) by (auto simp: cv_wakeone_def cv_inv_def)
    qed (use assms(1) in \<open>simp add: cv_wakeone_def\<close>)
  next
    case c_broadcast
    have "cv_owner s \<noteq> Some u" if "u \<in> set (cv_wc_threads s)" for u
    proof -
      have "\<not> has_lock (cpc s u)" using assms(1) that by (simp add: cv_inv_def has_lock_def)
      then show ?thesis using tr by blast
    qed
    then have "tracks has_lock (\<lambda>u. if u \<in> set (cv_wc_threads s) then WRelock else cpc s u) (cv_owner s)"
      using tr unfolding tracks_def by (auto simp: has_lock_def)
    then show ?thesis using c_broadcast(1) assms(1) by (auto simp: cv_wakeall_def cv_inv_def)
  qed (rule cv_inv_goto [OF assms(1), of _ t]; use tr [of t] in \<open>simp add: has_lock_def\<close>)+
qed

lemma cv_reach_inv: "cv_reach s \<Longrightarrow> cv_inv s"
  by (induction rule: cv_reach.induct) (rule cv_inv_init, blast intro: cv_inv_step)

lemma wake_nobody: "cv_wc_threads s = [] \<Longrightarrow> cv_wakeone s = s" "cv_wc_threads s = [] \<Longrightarrow> cv_wakeall s = s"
  by (cases s; simp add: cv_wakeone_def cv_wakeall_def)+

section \<open>Properties\<close>


text \<open>Thread 2 in that place.\<close>

definition cv_ex :: cv_sys where
  "cv_ex = cv_init\<lparr>cv_spinlock := Some 2, cpc := (\<lambda>_. COut)(2 := WGap)\<rparr>"

lemma cv_ex_reach: "cv_reach cv_ex"
proof -
  let ?s = "\<lambda>w l p. \<lparr>cv_owner = w, cv_spinlock = l, cv_wc_lock = None, cv_wc_threads = [], cpc = (\<lambda>_. COut)(2 := p)\<rparr>"
  have "cv_step 2 cv_init (?s (Some 2) None CIn)" using c_lock [of cv_init 2] by (simp add: cv_init_def)
  moreover have "cv_step 2 (?s (Some 2) None CIn) (?s (Some 2) (Some 2) WSpin)"
    using w_spin [of "?s (Some 2) None CIn" 2] by simp
  moreover have "cv_step 2 (?s (Some 2) (Some 2) WSpin) (?s None (Some 2) WGap)"
    using w_release [of "?s (Some 2) (Some 2) WSpin" 2] by simp
  moreover have "?s None (Some 2) WGap = cv_ex" by (simp add: cv_ex_def cv_init_def)
  ultimately show ?thesis by (metis cv_reach.intros)
qed


end
