(* ===== verification/Synch_Create.thy ===== *)
theory Synch_Create
  imports Spinlock
begin

text \<open>
  Creating and destroying the objects of \<^verbatim>\<open>kern/thread/synch.c\<close> and the wait channels of \<^verbatim>\<open>kern/thread/thread.c\<close>.  The
  kernel heap is the set of blocks in use; whether the next allocations succeed is part of it.  Freeing a block that is
  not in use stops the kernel.
\<close>

section \<open>The heap\<close>

record kheap =
  live :: "nat set"
  tries :: nat
  grant :: "nat \<Rightarrow> bool"

definition kmalloc_blk :: "kheap \<Rightarrow> nat option \<times> kheap" where
  "kmalloc_blk h =
     (if grant h (tries h) then (Some (tries h), h\<lparr>live := insert (tries h) (live h), tries := tries h + 1\<rparr>)
      else (None, h\<lparr>tries := tries h + 1\<rparr>))"

definition kfree_blk :: "nat \<Rightarrow> kheap \<Rightarrow> kheap option" where
  "kfree_blk b h = do { KASSERT (b \<in> live h); Some (h\<lparr>live := live h - {b}\<rparr>) }"

text \<open>Blocks have been handed out in order, so the next one is new.\<close>

definition heap_fresh :: "kheap \<Rightarrow> bool" where
  "heap_fresh h \<longleftrightarrow> (\<forall>b\<in>live h. b < tries h)"

section \<open>Wait channels\<close>

record wchan =
  wc_addr :: nat
  wc_name :: nat
  wc_slock :: spinlock
  wc_sleepers :: "nat list"

abbreviation junk_lock :: spinlock where "junk_lock \<equiv> \<lparr>lk_lock = 7, lk_holder = None\<rparr>"

definition wchan_create :: "nat \<Rightarrow> kheap \<Rightarrow> wchan option \<times> kheap" where
  "wchan_create name h =
     (case kmalloc_blk h of
        (None, h) \<Rightarrow> (None, h)
      | (Some a, h) \<Rightarrow> (Some \<lparr>wc_addr = a, wc_name = name, wc_slock = spinlock_init junk_lock, wc_sleepers = []\<rparr>, h))"

definition wchan_destroy :: "wchan \<Rightarrow> kheap \<Rightarrow> kheap option" where
  "wchan_destroy wc h = do {
     spinlock_cleanup (wc_slock wc);
     KASSERT (wc_sleepers wc = []);
     kfree_blk (wc_addr wc) h
   }"

definition wchan_isempty :: "wchan \<Rightarrow> bool" where
  "wchan_isempty wc \<longleftrightarrow> wc_sleepers wc = []"

section \<open>Semaphores\<close>

record semaphore =
  sem_addr :: nat
  sem_name :: nat
  sem_wchan :: wchan
  sem_slock :: spinlock
  sem_cnt :: int

definition sem_create :: "int \<Rightarrow> kheap \<Rightarrow> (semaphore option \<times> kheap) option" where
  "sem_create initial_count h = do {
     KASSERT (initial_count \<ge> 0);
     let (sem, h) = kmalloc_blk h;
     case sem of
       None \<Rightarrow> Some (None, h)
     | Some sem \<Rightarrow> do {
         let (name, h) = kmalloc_blk h;
         case name of
           None \<Rightarrow> do { h \<leftarrow> kfree_blk sem h; Some (None, h) }
         | Some name \<Rightarrow> do {
             let (wc, h) = wchan_create name h;
             case wc of
               None \<Rightarrow> do { h \<leftarrow> kfree_blk name h; h \<leftarrow> kfree_blk sem h; Some (None, h) }
             | Some wc \<Rightarrow> Some (Some \<lparr>sem_addr = sem, sem_name = name, sem_wchan = wc,
                 sem_slock = spinlock_init junk_lock, sem_cnt = initial_count\<rparr>, h)
           }
       }
   }"

definition sem_destroy :: "semaphore \<Rightarrow> kheap \<Rightarrow> kheap option" where
  "sem_destroy sem h = do {
     spinlock_cleanup (sem_slock sem);
     h \<leftarrow> wchan_destroy (sem_wchan sem) h;
     h \<leftarrow> kfree_blk (sem_name sem) h;
     kfree_blk (sem_addr sem) h
   }"

section \<open>Locks\<close>

record slock =
  lk_addr :: nat
  lk_name :: nat
  lk_wchan :: wchan
  lk_slock :: spinlock
  lk_owner :: "nat option"

definition lock_create :: "kheap \<Rightarrow> (slock option \<times> kheap) option" where
  "lock_create h = do {
     let (lk, h) = kmalloc_blk h;
     case lk of
       None \<Rightarrow> Some (None, h)
     | Some lk \<Rightarrow> do {
         let (name, h) = kmalloc_blk h;
         case name of
           None \<Rightarrow> do { h \<leftarrow> kfree_blk lk h; Some (None, h) }
         | Some name \<Rightarrow> do {
             let (wc, h) = wchan_create name h;
             case wc of
               None \<Rightarrow> do { h \<leftarrow> kfree_blk name h; h \<leftarrow> kfree_blk lk h; Some (None, h) }
             | Some wc \<Rightarrow> Some (Some \<lparr>lk_addr = lk, lk_name = name, lk_wchan = wc,
                 lk_slock = spinlock_init junk_lock, lk_owner = None\<rparr>, h)
           }
       }
   }"

definition lock_destroy :: "slock \<Rightarrow> kheap \<Rightarrow> kheap option" where
  "lock_destroy lk h = do {
     spinlock_cleanup (lk_slock lk);
     h \<leftarrow> wchan_destroy (lk_wchan lk) h;
     h \<leftarrow> kfree_blk (lk_name lk) h;
     kfree_blk (lk_addr lk) h
   }"

section \<open>Condition variables\<close>

record cv =
  cv_addr :: nat
  cv_name :: nat
  cv_wchan :: wchan
  cv_slock :: spinlock

definition cv_create :: "kheap \<Rightarrow> (cv option \<times> kheap) option" where
  "cv_create h = do {
     let (c, h) = kmalloc_blk h;
     case c of
       None \<Rightarrow> Some (None, h)
     | Some c \<Rightarrow> do {
         let (name, h) = kmalloc_blk h;
         case name of
           None \<Rightarrow> do { h \<leftarrow> kfree_blk c h; Some (None, h) }
         | Some name \<Rightarrow> do {
             let slock = spinlock_init junk_lock;
             let (wc, h) = wchan_create name h;
             case wc of
               None \<Rightarrow> do { h \<leftarrow> kfree_blk name h; h \<leftarrow> kfree_blk c h; Some (None, h) }
             | Some wc \<Rightarrow> Some (Some \<lparr>cv_addr = c, cv_name = name, cv_wchan = wc, cv_slock = slock\<rparr>, h)
           }
       }
   }"

definition cv_destroy :: "cv \<Rightarrow> kheap \<Rightarrow> kheap option" where
  "cv_destroy c h = do {
     h \<leftarrow> wchan_destroy (cv_wchan c) h;
     h \<leftarrow> kfree_blk (cv_name c) h;
     kfree_blk (cv_addr c) h
   }"

section \<open>Reader-writer locks\<close>

text \<open>The results of the two calls of \<^verbatim>\<open>lock_create\<close> are stored without a test.\<close>

record rwlock =
  rw_addr :: nat
  rw_name :: nat
  rw_read :: "slock option"
  rw_write :: "slock option"
  rw_resource :: semaphore
  rw_max_readers :: int

definition rwlock_create :: "kheap \<Rightarrow> (rwlock option \<times> kheap) option" where
  "rwlock_create h = do {
     let (rw, h) = kmalloc_blk h;
     case rw of
       None \<Rightarrow> Some (None, h)
     | Some rw \<Rightarrow> do {
         let (name, h) = kmalloc_blk h;
         case name of
           None \<Rightarrow> do { h \<leftarrow> kfree_blk rw h; Some (None, h) }
         | Some name \<Rightarrow> do {
             (lr, h) \<leftarrow> lock_create h;
             (lw, h) \<leftarrow> lock_create h;
             (sem, h) \<leftarrow> sem_create 30 h;
             case sem of
               None \<Rightarrow> do { h \<leftarrow> kfree_blk rw h; Some (None, h) }
             | Some sem \<Rightarrow> Some (Some \<lparr>rw_addr = rw, rw_name = name, rw_read = lr, rw_write = lw,
                 rw_resource = sem, rw_max_readers = 30\<rparr>, h)
           }
       }
   }"

definition rwlock_destroy :: "rwlock \<Rightarrow> kheap \<Rightarrow> kheap option" where
  "rwlock_destroy rw h = do {
     lr \<leftarrow> rw_read rw;
     h \<leftarrow> lock_destroy lr h;
     lw \<leftarrow> rw_write rw;
     h \<leftarrow> lock_destroy lw h;
     h \<leftarrow> sem_destroy (rw_resource rw) h;
     h \<leftarrow> kfree_blk (rw_name rw) h;
     kfree_blk (rw_addr rw) h
   }"

section \<open>Properties\<close>

lemmas create_defs = sem_create_def lock_create_def cv_create_def wchan_create_def kmalloc_blk_def kfree_blk_def Let_def
lemmas destroy_defs = sem_destroy_def lock_destroy_def cv_destroy_def wchan_destroy_def kfree_blk_def spinlock_cleanup_def
  spinlock_init_def spinlock_data_set_def spinlock_data_get_def

text \<open>What it means that creating an object does not leak: on failure the heap has the blocks it had, on success destroying
  the new object gives back exactly what was taken.\<close>

definition leak_free :: "(kheap \<Rightarrow> ('o option \<times> kheap) option) \<Rightarrow> ('o \<Rightarrow> kheap \<Rightarrow> kheap option) \<Rightarrow> kheap \<Rightarrow> bool" where
  "leak_free create destroy h \<longleftrightarrow>
     (case create h of
        None \<Rightarrow> False
      | Some (None, h') \<Rightarrow> live h' = live h
      | Some (Some x, h') \<Rightarrow> live h \<subset> live h' \<and> (\<exists>h''. destroy x h' = Some h'' \<and> live h'' = live h))"

text \<open>C34: \<^verbatim>\<open>sem_create\<close>, \<^verbatim>\<open>lock_create\<close> and \<^verbatim>\<open>cv_create\<close> do not leak, whichever of their allocations fails.\<close>

theorem synch_create_leak_free:
  assumes "heap_fresh h" "0 \<le> n"
  shows "leak_free (sem_create n) sem_destroy h \<and> leak_free lock_create lock_destroy h \<and> leak_free cv_create cv_destroy h"
proof -
  have f: "tries h \<notin> live h" "Suc (tries h) \<notin> live h" "Suc (Suc (tries h)) \<notin> live h"
    using assms(1) by (force simp: heap_fresh_def)+
  show ?thesis
    using f assms(2) unfolding leak_free_def create_defs by (auto simp: destroy_defs)
qed

definition heap_ex :: kheap where
  "heap_ex = \<lparr>live = {1}, tries = 2, grant = (\<lambda>i. i \<noteq> 10)\<rparr>"

theorem synch_create_leak_free_witness: "leak_free (sem_create 1) sem_destroy heap_ex \<and> leak_free lock_create lock_destroy heap_ex"
  using synch_create_leak_free [of heap_ex 1] by (simp add: heap_ex_def heap_fresh_def)

text \<open>\<^verbatim>\<open>rwlock_create\<close> does leak: when the semaphore cannot be allocated it gives back only its own block and loses the
  name and both locks; and when only the first lock cannot be allocated it returns a reader-writer lock without one.\<close>

theorem rwlock_create_leaks:
  assumes "heap_fresh h" "\<forall>i<8. grant h (tries h + i)" "\<not> grant h (tries h + 8)"
  shows "(\<exists>h'. rwlock_create h = Some (None, h') \<and> live h' = live h \<union> {tries h + 1..tries h + 7}) \<and>
    (\<exists>rw h'. rwlock_create (h\<lparr>grant := (\<lambda>i. i \<noteq> tries h + 2)\<rparr>) = Some (Some rw, h') \<and> rw_read rw = None)"
proof -
  have g: "grant h (tries h)" "grant h (Suc (tries h))" "grant h (Suc (Suc (tries h)))" "grant h (tries h + 3)"
      "grant h (tries h + 4)" "grant h (tries h + 5)" "grant h (tries h + 6)" "grant h (tries h + 7)"
    using assms(2) spec [OF assms(2), of 0] spec [OF assms(2), of 1] spec [OF assms(2), of 2] by (auto simp: numeral_2_eq_2)
  have e: "Suc (Suc (Suc (tries h))) = tries h + 3" "Suc (tries h + 3) = tries h + 4" "Suc (tries h + 4) = tries h + 5"
      "Suc (tries h + 5) = tries h + 6" "Suc (tries h + 6) = tries h + 7" "Suc (tries h + 7) = tries h + 8" by simp_all
  have f: "tries h \<notin> live h" using assms(1) by (auto simp: heap_fresh_def)
  have l: "{tries h + 1..tries h + 7} = {Suc (tries h), Suc (Suc (tries h)), tries h + 3, tries h + 4, tries h + 5, tries h + 6,
      tries h + 7}" by auto
  have "\<exists>h'. rwlock_create h = Some (None, h') \<and> live h' = live h \<union> {tries h + 1..tries h + 7}"
    unfolding rwlock_create_def create_defs l using g assms(3) f by (auto simp: e)
  moreover have "\<exists>rw h'. rwlock_create (h\<lparr>grant := (\<lambda>i. i \<noteq> tries h + 2)\<rparr>) = Some (Some rw, h') \<and> rw_read rw = None"
    unfolding rwlock_create_def create_defs by simp
  ultimately show ?thesis ..
qed

theorem rwlock_create_leaks_witness: "\<exists>h'. rwlock_create heap_ex = Some (None, h') \<and> live h' = {1} \<union> {3..9}"
proof -
  have "heap_fresh heap_ex" "\<forall>i<8. grant heap_ex (tries heap_ex + i)" "\<not> grant heap_ex (tries heap_ex + 8)"
    by (simp_all add: heap_ex_def heap_fresh_def)
  from rwlock_create_leaks [OF this] show ?thesis by (simp add: heap_ex_def)
qed

end
