(* ===== verification/Scheduler.thy ===== *)
theory Scheduler
  imports Tlb_Ipi Thread_List
begin

text \<open>
  \<^verbatim>\<open>kern/thread/thread.c\<close>: threads, run queues, the context switch, wait channels and migration, on the CPUs of theory
  \<open>Tlb_Ipi\<close> and the lists of theory \<open>Thread_List\<close>.  An operation runs on the current CPU to its end; the other CPUs
  hold no lock meanwhile.
\<close>

section \<open>State\<close>

datatype threadstate = S_RUN | S_READY | S_SLEEP | S_ZOMBIE

text \<open>The stack is the four words at its low end; the boot thread of the first CPU has none.\<close>

record thread =
  t_wchan_name :: "string option"
  t_state :: threadstate
  t_stack :: "u32 list option"
  t_cpu :: "nat option"
  t_in_interrupt :: bool
  t_spl :: spl
  t_addrspace :: "nat option"
  t_cwd :: "nat option"
  t_pid :: nat
  t_ptable_index :: nat

text \<open>The lists: the run queue and the zombies of every CPU, and the channels and private lists of the operations below.
  A wait channel is known by its list.\<close>

record sched =
  smp :: mp
  tlm :: tlmem
  threads :: "nat \<Rightarrow> thread option"
  c_curthread :: "nat \<Rightarrow> nat"
  wc_slock :: "nat \<Rightarrow> spinlock"
  wc_names :: "nat \<Rightarrow> string"

definition c_runqueue :: "nat \<Rightarrow> nat" where
  "c_runqueue c = 2 * c"

definition c_zombies :: "nat \<Rightarrow> nat" where
  "c_zombies c = 2 * c + 1"

abbreviation me :: "sched \<Rightarrow> nat" where
  "me s \<equiv> curcpu (smp s)"

abbreviation curthread :: "sched \<Rightarrow> nat" where
  "curthread s \<equiv> c_curthread s (me s)"

abbreviation set_thread :: "nat \<Rightarrow> thread \<Rightarrow> sched \<Rightarrow> sched" where
  "set_thread t x s \<equiv> s\<lparr>threads := (threads s)(t := Some x)\<rparr>"

definition on_lists :: "(tlmem \<Rightarrow> tlmem option) \<Rightarrow> sched \<Rightarrow> sched option" where
  "on_lists f s = do { m \<leftarrow> f (tlm s); Some (s\<lparr>tlm := m\<rparr>) }"

definition from_list :: "(tlmem \<Rightarrow> (nat option \<times> tlmem) option) \<Rightarrow> sched \<Rightarrow> (nat option \<times> sched) option" where
  "from_list f s = do { (r, m) \<leftarrow> f (tlm s); Some (r, s\<lparr>tlm := m\<rparr>) }"

definition on_mp :: "(mp \<Rightarrow> mp option) \<Rightarrow> sched \<Rightarrow> sched option" where
  "on_mp f s = do { m \<leftarrow> f (smp s); Some (s\<lparr>smp := m\<rparr>) }"

text \<open>The run queue lock of a CPU, and the lock of a wait channel.\<close>

definition rq_lock :: "nat \<Rightarrow> mp \<Rightarrow> mp option" where
  "rq_lock t m = do {
     c \<leftarrow> get_cpu t m;
     (lk, s) \<leftarrow> spinlock_acquire 0 (Some (curcpu m)) (c_runqueue_lock c) (cpu_spl m);
     Some ((put_cpu t (c\<lparr>c_runqueue_lock := lk\<rparr>) m)\<lparr>cpu_spl := s\<rparr>)
   }"

definition rq_unlock :: "nat \<Rightarrow> mp \<Rightarrow> mp option" where
  "rq_unlock t m = do {
     c \<leftarrow> get_cpu t m;
     (lk, s) \<leftarrow> spinlock_release (Some (curcpu m)) (c_runqueue_lock c) (cpu_spl m);
     Some ((put_cpu t (c\<lparr>c_runqueue_lock := lk\<rparr>) m)\<lparr>cpu_spl := s\<rparr>)
   }"

definition wchan_lock :: "nat \<Rightarrow> sched \<Rightarrow> sched option" where
  "wchan_lock w s = do {
     (lk, sp) \<leftarrow> spinlock_acquire 0 (Some (me s)) (wc_slock s w) (cpu_spl (smp s));
     Some (s\<lparr>wc_slock := (wc_slock s)(w := lk), smp := (smp s)\<lparr>cpu_spl := sp\<rparr>\<rparr>)
   }"

definition wchan_unlock :: "nat \<Rightarrow> sched \<Rightarrow> sched option" where
  "wchan_unlock w s = do {
     (lk, sp) \<leftarrow> spinlock_release (Some (me s)) (wc_slock s w) (cpu_spl (smp s));
     Some (s\<lparr>wc_slock := (wc_slock s)(w := lk), smp := (smp s)\<lparr>cpu_spl := sp\<rparr>\<rparr>)
   }"

definition set_idle :: "bool \<Rightarrow> mp \<Rightarrow> mp option" where
  "set_idle b m = do { c \<leftarrow> get_cpu (curcpu m) m; Some (put_cpu (curcpu m) (c\<lparr>c_isidle := b\<rparr>) m) }"

section \<open>Creating and destroying threads\<close>

abbreviation (input) THREAD_STACK_MAGIC :: u32 where "THREAD_STACK_MAGIC \<equiv> 0xbaadf00d"

text \<open>\<^verbatim>\<open>t_stack\<close> points to a page; only the four words are looked at.\<close>

definition thread_checkstack_init :: "thread \<Rightarrow> thread option" where
  "thread_checkstack_init th = do {
     st \<leftarrow> t_stack th;
     st \<leftarrow> wr st 0 THREAD_STACK_MAGIC;
     st \<leftarrow> wr st 1 THREAD_STACK_MAGIC;
     st \<leftarrow> wr st 2 THREAD_STACK_MAGIC;
     st \<leftarrow> wr st 3 THREAD_STACK_MAGIC;
     Some (th\<lparr>t_stack := Some st\<rparr>)
   }"

definition thread_checkstack :: "thread \<Rightarrow> unit option" where
  "thread_checkstack th =
     (case t_stack th of
        None \<Rightarrow> Some ()
      | Some st \<Rightarrow> do {
          a \<leftarrow> rd st 0; KASSERT (a = THREAD_STACK_MAGIC);
          a \<leftarrow> rd st 1; KASSERT (a = THREAD_STACK_MAGIC);
          a \<leftarrow> rd st 2; KASSERT (a = THREAD_STACK_MAGIC);
          a \<leftarrow> rd st 3; KASSERT (a = THREAD_STACK_MAGIC)
        })"

text \<open>\<open>t\<close> is the address \<^verbatim>\<open>kmalloc\<close> returns for the structure, and \<open>name\<close> tells whether the copy of the name can be
  allocated.\<close>

definition thread_create :: "nat option \<Rightarrow> bool \<Rightarrow> sched \<Rightarrow> nat option \<times> sched" where
  "thread_create t name s =
     (case t of
        None \<Rightarrow> (None, s)
      | Some t \<Rightarrow>
          if \<not> name then (None, s)
          else (Some t, s\<lparr>tlm := threadlistnode_init (TNode t) t (tlm s),
            threads := (threads s)(t := Some \<lparr>t_wchan_name = Some ''NEW'', t_state = S_READY, t_stack = None, t_cpu = None,
              t_in_interrupt = False, t_spl = \<lparr>t_iplhigh_count = 1, t_curspl = IPL_HIGH, irq = False\<rparr>,
              t_addrspace = None, t_cwd = None, t_pid = 0, t_ptable_index = 0\<rparr>)\<rparr>))"

definition thread_destroy :: "nat \<Rightarrow> sched \<Rightarrow> sched option" where
  "thread_destroy t s = do {
     th \<leftarrow> threads s t;
     KASSERT (t \<noteq> curthread s);
     KASSERT (t_state th \<noteq> S_RUN);
     KASSERT (t_cwd th = None);
     KASSERT (t_addrspace th = None);
     s \<leftarrow> on_lists (threadlistnode_cleanup (TNode t)) s;
     Some (s\<lparr>threads := (threads s)(t := None)\<rparr>)
   }"

partial_function (option) exorcise :: "sched \<Rightarrow> sched option" where
  "exorcise s = do {
     (z, s) \<leftarrow> from_list (threadlist_remhead (c_zombies (me s))) s;
     case z of
       None \<Rightarrow> Some s
     | Some z \<Rightarrow> do {
         KASSERT (z \<noteq> curthread s);
         th \<leftarrow> threads s z;
         KASSERT (t_state th = S_ZOMBIE);
         s \<leftarrow> thread_destroy z s;
         exorcise s
       }
   }"

definition thread_panic :: "sched \<Rightarrow> sched option" where
  "thread_panic s = do {
     s \<leftarrow> on_mp (ipi_broadcast IPI_PANIC) s;
     q \<leftarrow> Some (c_runqueue (me s));
     Some (s\<lparr>tlm := set_prev (Tail q) None (set_next (Head q) None (set_count q 0 (tlm s)))\<rparr>)
   }"

definition thread_shutdown :: "sched \<Rightarrow> sched option" where
  "thread_shutdown s = on_mp (ipi_broadcast IPI_OFFLINE) s"

section \<open>Running\<close>

definition thread_make_runnable :: "nat \<Rightarrow> bool \<Rightarrow> sched \<Rightarrow> sched option" where
  "thread_make_runnable target already_have_lock s = do {
     th \<leftarrow> threads s target;
     targetcpu \<leftarrow> t_cpu th;
     s \<leftarrow> (if already_have_lock then do {
             c \<leftarrow> get_cpu targetcpu (smp s);
             KASSERT (spinlock_do_i_hold (Some (me s)) (c_runqueue_lock c));
             Some s
           }
           else on_mp (rq_lock targetcpu) s);
     c \<leftarrow> get_cpu targetcpu (smp s);
     isidle \<leftarrow> Some (c_isidle c);
     s \<leftarrow> on_lists (threadlist_addtail (c_runqueue targetcpu) target) s;
     s \<leftarrow> (if isidle then on_mp (ipi_send targetcpu IPI_UNIDLE) s else Some s);
     if \<not> already_have_lock then on_mp (rq_unlock targetcpu) s else Some s
   }"

text \<open>The loop that waits for a thread to run.  \<open>idle\<close> is what the interrupts taken in \<^verbatim>\<open>cpu_idle\<close> do; a CPU that is never
  given a thread never leaves the loop.\<close>

partial_function (option) pick_next :: "(sched \<Rightarrow> sched option) \<Rightarrow> sched \<Rightarrow> (nat \<times> sched) option" where
  "pick_next idle s = do {
     (r, s) \<leftarrow> from_list (threadlist_remhead (c_runqueue (me s))) s;
     case r of
       Some t \<Rightarrow> Some (t, s)
     | None \<Rightarrow> do {
         s \<leftarrow> on_mp (rq_unlock (me s)) s;
         s \<leftarrow> idle s;
         s \<leftarrow> on_mp (rq_lock (me s)) s;
         pick_next idle s
       }
   }"

text \<open>\<^verbatim>\<open>thread_switch\<close> up to \<^verbatim>\<open>switchframe_switch\<close>: the next thread, if there is a switch, and the interrupt level the old one
  will restore when it comes back.\<close>

definition switch_out ::
  "(sched \<Rightarrow> sched option) \<Rightarrow> threadstate \<Rightarrow> nat option \<Rightarrow> sched \<Rightarrow> (nat option \<times> int \<times> sched) option" where
  "switch_out idle newstate wc s = do {
     (spl, m) \<leftarrow> raise_spl (smp s);
     s \<leftarrow> Some (s\<lparr>smp := m\<rparr>);
     cur \<leftarrow> Some (curthread s);
     c \<leftarrow> get_cpu (me s) (smp s);
     if c_isidle c then do { s \<leftarrow> on_mp (restore_spl spl) s; Some (None, spl, s) }
     else do {
       th \<leftarrow> threads s cur;
       thread_checkstack th;
       s \<leftarrow> on_mp (rq_lock (me s)) s;
       if newstate = S_READY \<and> threadlist_isempty (c_runqueue (me s)) (tlm s) then do {
         s \<leftarrow> on_mp (rq_unlock (me s)) s;
         s \<leftarrow> on_mp (restore_spl spl) s;
         Some (None, spl, s)
       }
       else do {
         s \<leftarrow> (case newstate of
                 S_RUN \<Rightarrow> None
               | S_READY \<Rightarrow> thread_make_runnable cur True s
               | S_SLEEP \<Rightarrow> do {
                   w \<leftarrow> wc;
                   s \<leftarrow> Some (set_thread cur (th\<lparr>t_wchan_name := Some (wc_names s w)\<rparr>) s);
                   s \<leftarrow> on_lists (threadlist_addtail w cur) s;
                   wchan_unlock w s
                 }
               | S_ZOMBIE \<Rightarrow> do {
                   s \<leftarrow> Some (set_thread cur (th\<lparr>t_wchan_name := Some ''ZOMBIE''\<rparr>) s);
                   on_lists (threadlist_addtail (c_zombies (me s)) cur) s
                 });
         th \<leftarrow> threads s cur;
         s \<leftarrow> Some (set_thread cur (th\<lparr>t_state := newstate\<rparr>) s);
         s \<leftarrow> on_mp (set_idle True) s;
         (next, s) \<leftarrow> pick_next idle s;
         s \<leftarrow> on_mp (set_idle False) s;
         Some (Some next, spl, s\<lparr>c_curthread := (c_curthread s)(me s := next)\<rparr>)
       }
     }
   }"

text \<open>\<^verbatim>\<open>switchframe_switch\<close> itself: the fields of the new thread are the current ones.  Interrupts are off.\<close>

definition switch_frames :: "nat \<Rightarrow> nat \<Rightarrow> sched \<Rightarrow> sched option" where
  "switch_frames cur next s = do {
     a \<leftarrow> threads s cur;
     s \<leftarrow> Some (set_thread cur (a\<lparr>t_spl := cpu_spl (smp s)\<rparr>) s);
     b \<leftarrow> threads s next;
     Some (s\<lparr>smp := (smp s)\<lparr>cpu_spl := (t_spl b)\<lparr>irq := irq (cpu_spl (smp s))\<rparr>\<rparr>\<rparr>)
   }"

text \<open>\<^verbatim>\<open>thread_switch\<close> after it, in the thread that has come back.\<close>

definition come_back :: "sched \<Rightarrow> sched option" where
  "come_back s = do {
     cur \<leftarrow> Some (curthread s);
     th \<leftarrow> threads s cur;
     s \<leftarrow> Some (set_thread cur (th\<lparr>t_wchan_name := None, t_state := S_RUN\<rparr>) s);
     s \<leftarrow> on_mp (rq_unlock (me s)) s;
     s \<leftarrow> (if t_addrspace th \<noteq> None then on_mp as_activate s else Some s);
     exorcise s
   }"

definition switch_in :: "int \<Rightarrow> sched \<Rightarrow> sched option" where
  "switch_in spl s = do { s \<leftarrow> come_back s; on_mp (restore_spl spl) s }"

text \<open>\<^verbatim>\<open>thread_startup\<close>, up to the call of the entry point.\<close>

definition thread_startup :: "sched \<Rightarrow> sched option" where
  "thread_startup s = do {
     s \<leftarrow> come_back s;
     on_mp (\<lambda>m. do { (_, sp) \<leftarrow> spl0 (Some (curcpu m)) (cpu_spl m); Some (m\<lparr>cpu_spl := sp\<rparr>) }) s
   }"

definition thread_yield :: "(sched \<Rightarrow> sched option) \<Rightarrow> sched \<Rightarrow> (nat option \<times> int \<times> sched) option" where
  "thread_yield idle s = switch_out idle S_READY None s"

definition wchan_sleep :: "(sched \<Rightarrow> sched option) \<Rightarrow> nat \<Rightarrow> sched \<Rightarrow> (nat option \<times> int \<times> sched) option" where
  "wchan_sleep idle w s = do {
     th \<leftarrow> threads s (curthread s);
     KASSERT (\<not> t_in_interrupt th);
     switch_out idle S_SLEEP (Some w) s
   }"

section \<open>Waking\<close>

definition wchan_wakeone :: "nat \<Rightarrow> sched \<Rightarrow> sched option" where
  "wchan_wakeone w s = do {
     s \<leftarrow> wchan_lock w s;
     (target, s) \<leftarrow> from_list (threadlist_remhead w) s;
     s \<leftarrow> wchan_unlock w s;
     case target of
       None \<Rightarrow> Some s
     | Some target \<Rightarrow> thread_make_runnable target False s
   }"

partial_function (option) make_all_runnable :: "nat \<Rightarrow> sched \<Rightarrow> sched option" where
  "make_all_runnable l s = do {
     (target, s) \<leftarrow> from_list (threadlist_remhead l) s;
     case target of
       None \<Rightarrow> Some s
     | Some target \<Rightarrow> do { s \<leftarrow> thread_make_runnable target False s; make_all_runnable l s }
   }"

text \<open>\<open>l\<close> is the list on the stack.\<close>

definition wchan_wakeall :: "nat \<Rightarrow> nat \<Rightarrow> sched \<Rightarrow> sched option" where
  "wchan_wakeall l w s = do {
     s \<leftarrow> Some (s\<lparr>tlm := threadlist_init l (tlm s)\<rparr>);
     s \<leftarrow> wchan_lock w s;
     s \<leftarrow> on_lists (move_all threadlist_remhead threadlist_addtail w l) s;
     s \<leftarrow> wchan_unlock w s;
     s \<leftarrow> make_all_runnable l s;
     on_lists (threadlist_cleanup l) s
   }"

definition wchan_isempty :: "nat \<Rightarrow> sched \<Rightarrow> (bool \<times> sched) option" where
  "wchan_isempty w s = do {
     s \<leftarrow> wchan_lock w s;
     ret \<leftarrow> Some (threadlist_isempty w (tlm s));
     s \<leftarrow> wchan_unlock w s;
     Some (ret, s)
   }"

section \<open>Migration\<close>

fun count_threads :: "nat \<Rightarrow> nat \<Rightarrow> nat \<Rightarrow> nat \<Rightarrow> sched \<Rightarrow> (nat \<times> nat \<times> sched) option" where
  "count_threads 0 i my tot s = Some (my, tot, s)"
| "count_threads (Suc left) i my tot s = do {
     s \<leftarrow> on_mp (rq_lock i) s;
     tot \<leftarrow> Some (u32 (tot + tl_count (tlm s) (c_runqueue i)));
     my \<leftarrow> Some (if i = me s then tl_count (tlm s) (c_runqueue i) else my);
     s \<leftarrow> on_mp (rq_unlock i) s;
     count_threads left (i + 1) my tot s
   }"

fun take_victims :: "nat \<Rightarrow> nat \<Rightarrow> sched \<Rightarrow> sched option" where
  "take_victims victims 0 s = Some s"
| "take_victims victims (Suc left) s = do {
     (t, s) \<leftarrow> from_list (threadlist_remtail (c_runqueue (me s))) s;
     t \<leftarrow> t;
     s \<leftarrow> on_lists (threadlist_addhead victims t) s;
     take_victims victims left s
   }"

text \<open>The inner loop, for one CPU: what is left to send after it.\<close>

fun send_to :: "nat \<Rightarrow> nat \<Rightarrow> nat \<Rightarrow> nat \<Rightarrow> sched \<Rightarrow> (nat \<times> sched) option" where
  "send_to victims c one_share 0 s = Some (0, s)"
| "send_to victims c one_share (Suc to_send) s =
     (if tl_count (tlm s) (c_runqueue c) < one_share then do {
        (t, s) \<leftarrow> from_list (threadlist_remhead victims) s;
        t \<leftarrow> t;
        if t = curthread s then do {
          s \<leftarrow> on_lists (threadlist_addtail victims t) s;
          send_to victims c one_share to_send s
        }
        else do {
          th \<leftarrow> threads s t;
          s \<leftarrow> Some (set_thread t (th\<lparr>t_cpu := Some c\<rparr>) s);
          s \<leftarrow> on_lists (threadlist_addtail (c_runqueue c) t) s;
          cpu \<leftarrow> get_cpu c (smp s);
          s \<leftarrow> (if c_isidle cpu then on_mp (ipi_send c IPI_UNIDLE) s else Some s);
          send_to victims c one_share to_send s
        }
      }
      else Some (Suc to_send, s))"

fun send_all :: "nat \<Rightarrow> nat \<Rightarrow> nat \<Rightarrow> nat \<Rightarrow> nat \<Rightarrow> sched \<Rightarrow> sched option" where
  "send_all victims 0 i one_share to_send s = Some s"
| "send_all victims (Suc left) i one_share to_send s =
     (if 0 < to_send then
        if i = me s then send_all victims left (i + 1) one_share to_send s
        else do {
          s \<leftarrow> on_mp (rq_lock i) s;
          (to_send, s) \<leftarrow> send_to victims i one_share to_send s;
          s \<leftarrow> on_mp (rq_unlock i) s;
          send_all victims left (i + 1) one_share to_send s
        }
      else Some s)"

text \<open>\<open>victims\<close> is the list on the stack.\<close>

definition give_back :: "nat \<Rightarrow> sched \<Rightarrow> sched option" where
  "give_back v s = (if \<not> threadlist_isempty v (tlm s) then do {
       s \<leftarrow> on_mp (rq_lock (me s)) s;
       s \<leftarrow> on_lists (move_all threadlist_remhead threadlist_addtail v (c_runqueue (me s))) s;
       on_mp (rq_unlock (me s)) s
     }
     else Some s)"

definition thread_consider_migration :: "nat \<Rightarrow> sched \<Rightarrow> sched option" where
  "thread_consider_migration victims s = do {
     numcpus \<leftarrow> Some (length (allcpus (smp s)));
     (my_count, total_count, s) \<leftarrow> count_threads numcpus 0 0 0 s;
     one_share \<leftarrow> Some (DIVROUNDUP total_count numcpus);
     if my_count < one_share then Some s
     else do {
       to_send \<leftarrow> Some (my_count - one_share);
       s \<leftarrow> Some (s\<lparr>tlm := threadlist_init victims (tlm s)\<rparr>);
       s \<leftarrow> on_mp (rq_lock (me s)) s;
       s \<leftarrow> take_victims victims to_send s;
       s \<leftarrow> on_mp (rq_unlock (me s)) s;
       s \<leftarrow> send_all victims numcpus 0 one_share to_send s;
       s \<leftarrow> give_back victims s;
       KASSERT (threadlist_isempty victims (tlm s));
       on_lists (threadlist_cleanup victims) s
     }
   }"

end
