(* ===== verification/Scheduler_Correct.thy ===== *)
theory Scheduler_Correct
  imports Scheduler "HOL-Library.Multiset"
begin

text \<open>
  Migration and waking at the level of the sequences the thread lists stand for: no thread is lost, and the order is kept.
\<close>

section \<open>Locks of the scheduler\<close>

abbreviation free_lock :: spinlock where
  "free_lock \<equiv> \<lparr>lk_lock = 0, lk_holder = None\<rparr>"

lemma lock_free_eq: "lock_free lk \<longleftrightarrow> lk = free_lock"
  by (cases lk) (simp add: lock_free_def)

text \<open>The processors while the current CPU \<open>my\<close> holds the run queue lock \<open>k\<close>, or none.\<close>

definition mp_at :: "nat \<Rightarrow> nat \<Rightarrow> spl \<Rightarrow> nat option \<Rightarrow> mp \<Rightarrow> bool" where
  "mp_at n my sp k m \<longleftrightarrow> curcpu m = my \<and> length (allcpus m) = n \<and> spl_ok sp \<and>
     cpu_spl m = (if k = None then sp else raised (Some my) sp) \<and>
     (\<forall>i<n. c_ipi_lock (allcpus m ! i) = free_lock \<and>
        c_runqueue_lock (allcpus m ! i) = (if k = Some i then held_by (Some my) free_lock else free_lock))"

lemma spl_ok_raised: "spl_ok sp \<Longrightarrow> spl_ok (raised (Some my) sp)"
  by (auto simp: spl_ok_def raised_def)

lemma rq_lock_at:
  assumes "mp_at n my sp None m" "c < n"
  shows "\<exists>m'. rq_lock c m = Some m' \<and> mp_at n my sp (Some c) m'"
proof -
  have "lock_free free_lock" by (simp add: lock_free_eq)
  note a = acquire_free [OF this]
  show ?thesis
    using assms by (simp add: rq_lock_def get_cpu_eq mp_at_def a nth_list_update)
qed

lemma rq_unlock_at:
  assumes "mp_at n my sp (Some c) m" "c < n"
  shows "\<exists>m'. rq_unlock c m = Some m' \<and> mp_at n my sp None m'"
proof -
  have "lock_free free_lock" by (simp add: lock_free_eq)
  note r = release_held [OF this]
  show ?thesis
    using assms r [of sp "Some my"] by (simp add: rq_unlock_def get_cpu_eq mp_at_def nth_list_update)
qed

lemma ipi_send_at:
  assumes "mp_at n my sp k m" "c < n"
  shows "\<exists>m'. ipi_send c IPI_UNIDLE m = Some m' \<and> mp_at n my sp k m'"
proof -
  have "spl_ok (cpu_spl m)" using assms spl_ok_raised [of sp my] by (simp add: mp_at_def)
  moreover have "lock_free (c_ipi_lock (allcpus m ! c))" using assms by (simp add: mp_at_def lock_free_eq)
  ultimately show ?thesis
    using assms ipi_send_eq [of c m IPI_UNIDLE] by (simp add: mp_at_def nth_list_update notify_def)
qed

lemma mp_at_cpu: "mp_at n my sp k m \<Longrightarrow> c < n \<Longrightarrow> \<exists>cpu. get_cpu c m = Some cpu"
  by (simp add: mp_at_def get_cpu_eq)

section \<open>The run queues and one more list\<close>

text \<open>The list \<open>v\<close> stands for \<open>vs\<close>, and the run queue of every CPU \<open>c\<close> for \<open>qs c\<close>.\<close>

definition reps :: "nat \<Rightarrow> nat \<Rightarrow> nat list \<Rightarrow> (nat \<Rightarrow> nat list) \<Rightarrow> tlmem \<Rightarrow> bool" where
  "reps n v vs qs m \<longleftrightarrow> tl_rep m v vs \<and> (\<forall>c<n. c_runqueue c \<noteq> v \<and> tl_rep m (c_runqueue c) (qs c))"

lemma runqueue_inj [simp]: "c_runqueue c = c_runqueue d \<longleftrightarrow> c = d"
  by (simp add: c_runqueue_def)

lemma reps_v:
  assumes "reps n v vs qs m" "tl_rep m' v vs'" "tl_others v t m m'"
  shows "reps n v vs' qs m'"
  using assms tq.others_rep [OF assms(3)] by (auto simp: reps_def)

lemma reps_q:
  assumes "reps n v vs qs m" "tl_rep m' (c_runqueue c) q" "tl_others (c_runqueue c) t m m'" "c < n"
  shows "reps n v vs (qs(c := q)) m'"
  using assms tq.others_rep [OF assms(3)] by (auto simp: reps_def)

lemma reps_list: "reps n v vs qs m \<Longrightarrow> tl_rep m v vs"
  by (simp add: reps_def)

lemma v_remhead:
  assumes "reps n v (t # vs) qs m"
  shows "\<exists>m'. threadlist_remhead v m = Some (Some t, m') \<and> reps n v vs qs m' \<and> tl_off m' t"
  using remhead_ok [OF reps_list [OF assms]] reps_v [OF assms] by blast

lemma v_addtail:
  assumes "reps n v vs qs m" "tl_off m t" "length vs + 1 < 2 ^ 32"
  shows "\<exists>m'. threadlist_addtail v t m = Some m' \<and> reps n v (vs @ [t]) qs m'"
  using addtail_ok [OF reps_list [OF assms(1)] assms(2,3)] reps_v [OF assms(1)] by blast

lemma v_addhead:
  assumes "reps n v vs qs m" "tl_off m t" "length vs + 1 < 2 ^ 32"
  shows "\<exists>m'. threadlist_addhead v t m = Some m' \<and> reps n v (t # vs) qs m'"
  using addhead_ok [OF reps_list [OF assms(1)] assms(2,3)] reps_v [OF assms(1)] by blast

lemma q_addtail:
  assumes "reps n v vs qs m" "tl_off m t" "c < n" "length (qs c) + 1 < 2 ^ 32"
  shows "\<exists>m'. threadlist_addtail (c_runqueue c) t m = Some m' \<and> reps n v vs (qs(c := qs c @ [t])) m'"
proof -
  have "tl_rep m (c_runqueue c) (qs c)" using assms(1,3) by (simp add: reps_def)
  from addtail_ok [OF this assms(2,4)] show ?thesis using reps_q [OF assms(1) _ _ assms(3)] by blast
qed

lemma q_remtail:
  assumes "reps n v vs qs m" "c < n" "qs c = q @ [t]"
  shows "\<exists>m'. threadlist_remtail (c_runqueue c) m = Some (Some t, m') \<and> reps n v vs (qs(c := q)) m' \<and> tl_off m' t"
proof -
  have "tl_rep m (c_runqueue c) (q @ [t])" using assms by (metis reps_def)
  from remtail_ok [OF this] show ?thesis using reps_q [OF assms(1) _ _ assms(2)] by blast
qed

lemma reps_count: "reps n v vs qs m \<Longrightarrow> c < n \<Longrightarrow> tl_count m (c_runqueue c) = length (qs c)"
  by (simp add: reps_def tl_rep_def)

text \<open>All the threads on them.\<close>

definition all_threads :: "nat \<Rightarrow> (nat \<Rightarrow> nat list) \<Rightarrow> nat multiset" where
  "all_threads n qs = (\<Sum>c<n. mset (qs c))"

lemma all_threads_upd:
  assumes "c < n"
  shows "all_threads n (qs(c := q)) + mset (qs c) = all_threads n qs + mset q"
proof -
  have r: "(\<Sum>d<n. mset (f d)) = mset (f c) + (\<Sum>d\<in>{..<n} - {c}. mset (f d))" for f :: "nat \<Rightarrow> nat list"
    using assms by (simp add: sum.remove)
  have "(\<Sum>d\<in>{..<n} - {c}. mset ((qs(c := q)) d)) = (\<Sum>d\<in>{..<n} - {c}. mset (qs d))" by (rule sum.cong) auto
  then show ?thesis using r [of qs] r [of "qs(c := q)"] by (simp add: all_threads_def)
qed

lemma all_threads_cut:
  assumes "c < n"
  shows "all_threads n (qs(c := take k (qs c))) + mset (drop k (qs c)) = all_threads n qs"
proof -
  have "mset (qs c) = mset (take k (qs c)) + mset (drop k (qs c))" by (metis append_take_drop_id mset_append)
  then show ?thesis using all_threads_upd [OF assms, of qs "take k (qs c)"] by (simp add: ac_simps)
qed

lemma size_all: "size (all_threads n qs) = (\<Sum>c<n. length (qs c))"
  by (induction n) (simp_all add: all_threads_def)

lemma all_threads_le:
  assumes "c < n"
  shows "length (qs c) \<le> size (all_threads n qs)"
proof -
  have "mset (qs c) \<subseteq># all_threads n qs" using assms by (simp add: all_threads_def sum.remove [of _ c])
  from size_mset_mono [OF this] show ?thesis by simp
qed


section \<open>The loops of migration\<close>

text \<open>The state between two steps: \<open>k\<close> the run queue lock held, \<open>cu\<close> the current thread.\<close>

definition sched_at ::
  "nat \<Rightarrow> nat \<Rightarrow> spl \<Rightarrow> nat option \<Rightarrow> nat \<Rightarrow> nat \<Rightarrow> nat list \<Rightarrow> (nat \<Rightarrow> nat list) \<Rightarrow> sched \<Rightarrow> bool" where
  "sched_at n my sp k cu v vs qs s \<longleftrightarrow> mp_at n my sp k (smp s) \<and> my < n \<and> reps n v vs qs (tlm s) \<and> curthread s = cu \<and>
     size (all_threads n qs) + length vs + 1 < 2 ^ 32"

lemma on_lists_at:
  assumes "sched_at n my sp k cu v vs qs s" "\<exists>m'. f (tlm s) = Some m' \<and> reps n v vs' qs' m'"
    "size (all_threads n qs') + length vs' + 1 < 2 ^ 32"
  shows "\<exists>s'. on_lists f s = Some s' \<and> sched_at n my sp k cu v vs' qs' s' \<and> threads s' = threads s"
  using assms by (auto simp: on_lists_def sched_at_def)

lemma on_mp_at:
  assumes "sched_at n my sp k cu v vs qs s" "\<exists>m'. f (smp s) = Some m' \<and> mp_at n my sp k' m'"
  shows "\<exists>s'. on_mp f s = Some s' \<and> sched_at n my sp k' cu v vs qs s' \<and> threads s' = threads s"
  using assms by (auto simp: on_mp_def sched_at_def mp_at_def)

lemma lock_at:
  assumes "sched_at n my sp None cu v vs qs s" "c < n"
  shows "\<exists>s'. on_mp (rq_lock c) s = Some s' \<and> sched_at n my sp (Some c) cu v vs qs s' \<and> threads s' = threads s"
proof -
  have "mp_at n my sp None (smp s)" using assms(1) by (simp add: sched_at_def)
  from rq_lock_at [OF this assms(2)] show ?thesis by (rule on_mp_at [OF assms(1)])
qed

lemma unlock_at:
  assumes "sched_at n my sp (Some c) cu v vs qs s" "c < n"
  shows "\<exists>s'. on_mp (rq_unlock c) s = Some s' \<and> sched_at n my sp None cu v vs qs s' \<and> threads s' = threads s"
proof -
  have "mp_at n my sp (Some c) (smp s)" using assms(1) by (simp add: sched_at_def)
  from rq_unlock_at [OF this assms(2)] show ?thesis by (rule on_mp_at [OF assms(1)])
qed

lemma sched_me: "sched_at n my sp k cu v vs qs s \<Longrightarrow> me s = my"
  by (simp add: sched_at_def mp_at_def)

lemma sched_reps: "sched_at n my sp k cu v vs qs s \<Longrightarrow> reps n v vs qs (tlm s)"
  by (simp add: sched_at_def)

lemma count_threads_at:
  "mp_at n my sp None (smp s) \<Longrightarrow> my < n \<Longrightarrow> \<forall>c<n. tl_count (tlm s) (c_runqueue c) = length (qs c) \<Longrightarrow>
   (\<Sum>c<n. length (qs c)) < 2 ^ 32 \<Longrightarrow> i + left = n \<Longrightarrow> tot = (\<Sum>c<i. length (qs c)) \<Longrightarrow> (my < i \<Longrightarrow> cnt = length (qs my)) \<Longrightarrow>
   \<exists>m'. count_threads left i cnt tot s = Some (length (qs my), (\<Sum>c<n. length (qs c)), s\<lparr>smp := m'\<rparr>) \<and> mp_at n my sp None m'"
proof (induction left arbitrary: i cnt tot s)
  case 0
  then show ?case by (intro exI [of _ "smp s"]) simp
next
  case (Suc left)
  have i: "i < n" using Suc.prems(5) by simp
  obtain m1 where m1: "rq_lock i (smp s) = Some m1" "mp_at n my sp (Some i) m1"
    using rq_lock_at [OF Suc.prems(1) i] by blast
  obtain m2 where m2: "rq_unlock i m1 = Some m2" "mp_at n my sp None m2"
    using rq_unlock_at [OF m1(2) i] by blast
  have c: "tl_count (tlm s) (c_runqueue i) = length (qs i)" using Suc.prems(3) i by simp
  have "(\<Sum>c<Suc i. length (qs c)) \<le> (\<Sum>c<n. length (qs c))" using i by (intro sum_mono2) auto
  then have u: "u32 (tot + length (qs i)) = (\<Sum>c<Suc i. length (qs c))" using Suc.prems(4,6) by simp
  let ?cnt = "if i = my then length (qs i) else cnt"
  have "my < Suc i \<Longrightarrow> ?cnt = length (qs my)" using Suc.prems(7) by auto
  then have "\<exists>m'. count_threads left (Suc i) ?cnt (\<Sum>c<Suc i. length (qs c)) (s\<lparr>smp := m2\<rparr>) =
      Some (length (qs my), (\<Sum>c<n. length (qs c)), s\<lparr>smp := m2\<rparr>\<lparr>smp := m'\<rparr>) \<and> mp_at n my sp None m'"
    using Suc.prems(2-5) m2(2) by (intro Suc.IH) simp_all
  then obtain m' where m': "count_threads left (Suc i) ?cnt (\<Sum>c<Suc i. length (qs c)) (s\<lparr>smp := m2\<rparr>) =
      Some (length (qs my), (\<Sum>c<n. length (qs c)), s\<lparr>smp := m'\<rparr>)" "mp_at n my sp None m'" by auto
  have "curcpu m1 = my" using m1(2) by (simp add: mp_at_def)
  then have "count_threads (Suc left) i cnt tot s = count_threads left (Suc i) ?cnt (\<Sum>c<Suc i. length (qs c)) (s\<lparr>smp := m2\<rparr>)"
    using m1(1) m2(1) c u by (cases "i = my") (simp_all add: on_mp_def)
  then show ?case using m' by auto
qed

lemma from_list_at:
  assumes "sched_at n my sp k cu v vs qs s" "f (tlm s) = Some (r, m')" "reps n v vs' qs' m'"
    "size (all_threads n qs') + length vs' \<le> size (all_threads n qs) + length vs"
  shows "\<exists>s'. from_list f s = Some (r, s') \<and> sched_at n my sp k cu v vs' qs' s' \<and> threads s' = threads s \<and> tlm s' = m'"
  using assms by (auto simp: from_list_def sched_at_def)

text \<open>Victims are taken from the end of the own queue.\<close>

lemma take_victims_at:
  "sched_at n my sp k cu v vs qs s \<Longrightarrow> left \<le> length (qs my) \<Longrightarrow>
   \<exists>s'. take_victims v left s = Some s' \<and> threads s' = threads s \<and>
     sched_at n my sp k cu v (drop (length (qs my) - left) (qs my) @ vs) (qs(my := take (length (qs my) - left) (qs my))) s'"
proof (induction left arbitrary: vs qs s)
  case 0
  then show ?case by simp
next
  case (Suc left)
  let ?q = "butlast (qs my)" and ?t = "last (qs my)"
  have "qs my \<noteq> []" using Suc.prems(2) by auto
  then have q: "qs my = ?q @ [?t]" and l: "length (qs my) = Suc (length ?q)" by simp_all
  have my: "my < n" using Suc.prems(1) by (simp add: sched_at_def)
  obtain m1 where m1: "threadlist_remtail (c_runqueue my) (tlm s) = Some (Some ?t, m1)" "reps n v vs (qs(my := ?q)) m1"
      "tl_off m1 ?t"
    using q_remtail [OF sched_reps [OF Suc.prems(1)] my q] by blast
  have sz: "size (all_threads n (qs(my := ?q))) + 1 = size (all_threads n qs)"
  proof -
    have "size (all_threads n (qs(my := ?q)) + mset (qs my)) = size (all_threads n qs + mset ?q)"
      by (simp only: all_threads_upd [OF my])
    then show ?thesis unfolding size_union size_mset using l by linarith
  qed
  obtain s1 where s1: "from_list (threadlist_remtail (c_runqueue my)) s = Some (Some ?t, s1)"
      "sched_at n my sp k cu v vs (qs(my := ?q)) s1" "threads s1 = threads s" "tlm s1 = m1"
    using from_list_at [where f = "threadlist_remtail (c_runqueue my)", OF Suc.prems(1) m1(1,2)] sz by auto
  have bound: "size (all_threads n qs) + length vs + 1 < 2 ^ 32" using Suc.prems(1) by (simp add: sched_at_def)
  have e: "\<exists>m'. threadlist_addhead v ?t (tlm s1) = Some m' \<and> reps n v (?t # vs) (qs(my := ?q)) m'"
    unfolding s1(4) by (rule v_addhead [OF m1(2,3)]) (use bound in simp)
  have "size (all_threads n (qs(my := ?q))) + length (?t # vs) + 1 < 2 ^ 32" using sz bound by simp
  then obtain s2 where s2: "on_lists (threadlist_addhead v ?t) s1 = Some s2"
      "sched_at n my sp k cu v (?t # vs) (qs(my := ?q)) s2" "threads s2 = threads s1"
    using on_lists_at [where f = "threadlist_addhead v ?t", OF s1(2) e] by blast
  have le: "left \<le> length ?q" using Suc.prems(2) by simp
  note ih = Suc.IH [where qs = "qs(my := ?q)", OF s2(2), unfolded fun_upd_same fun_upd_upd, OF le]
  from ih obtain s' where s': "take_victims v left s2 = Some s'" "threads s' = threads s2"
      "sched_at n my sp k cu v (drop (length ?q - left) ?q @ ?t # vs) (qs(my := take (length ?q - left) ?q)) s'"
    by (elim exE conjE) (simp add: fun_upd_def)
  have e: "length (qs my) - Suc left = length ?q - left" using l by simp
  have "drop (length ?q - left) (?q @ [?t]) = drop (length ?q - left) ?q @ [?t]"
    "take (length ?q - left) (?q @ [?t]) = take (length ?q - left) ?q" by simp_all
  then have "drop (length (qs my) - Suc left) (qs my) = drop (length ?q - left) ?q @ [?t]"
    "take (length (qs my) - Suc left) (qs my) = take (length ?q - left) ?q"
    unfolding e q [symmetric] by simp_all
  moreover have "take_victims v (Suc left) s = take_victims v left s2"
    using s1(1) s2(1) sched_me [OF Suc.prems(1)] by simp
  ultimately show ?case using s' s2(3) s1(3) by (simp only: append_assoc append_Cons append_Nil) blast
qed


text \<open>The threads \<open>new\<close> have been given to CPU \<open>c\<close>.\<close>

definition placed :: "nat \<Rightarrow> nat list \<Rightarrow> (nat \<Rightarrow> thread option) \<Rightarrow> (nat \<Rightarrow> thread option) \<Rightarrow> bool" where
  "placed c new f g \<longleftrightarrow> (\<forall>t\<in>set new. \<exists>th. f t = Some th \<and> g t = Some (th\<lparr>t_cpu := Some c\<rparr>)) \<and> (\<forall>t. t \<notin> set new \<longrightarrow> g t = f t)"

lemma placed_Nil [simp]: "placed c [] f g \<longleftrightarrow> g = f"
  by (auto simp: placed_def)

lemma placed_Cons:
  assumes "f t = Some th" "placed c new (f(t := Some (th\<lparr>t_cpu := Some c\<rparr>))) g" "t \<notin> set new"
  shows "placed c (t # new) f g"
  unfolding placed_def
proof (intro conjI ballI allI impI)
  fix u
  assume u: "u \<in> set (t # new)"
  show "\<exists>th. f u = Some th \<and> g u = Some (th\<lparr>t_cpu := Some c\<rparr>)"
  proof (cases "u = t")
    case True
    then show ?thesis using assms by (auto simp: placed_def)
  next
    case False
    then have "u \<in> set new" "(f(t := Some (th\<lparr>t_cpu := Some c\<rparr>))) u = f u" using u by simp_all
    then show ?thesis using assms(2) unfolding placed_def by metis
  qed
qed (use assms(2) in \<open>auto simp: placed_def\<close>)

definition sent ::
  "nat \<Rightarrow> nat \<Rightarrow> spl \<Rightarrow> nat \<Rightarrow> nat \<Rightarrow> nat \<Rightarrow> nat \<Rightarrow> nat list \<Rightarrow> (nat \<Rightarrow> nat list) \<Rightarrow> sched \<Rightarrow> nat \<Rightarrow> nat list \<Rightarrow> nat list \<Rightarrow> sched \<Rightarrow> bool" where
  "sent n my sp cu v c share vs qs s k' vs' new s' \<longleftrightarrow> k' \<le> length vs' \<and> mset vs = mset vs' + mset new \<and> cu \<notin> set new \<and>
     (new = [] \<or> length (qs c) + length new \<le> share) \<and> sched_at n my sp (Some c) cu v vs' (qs(c := qs c @ new)) s' \<and>
     placed c new (threads s) (threads s')"

lemma sched_distinct: "sched_at n my sp k cu v vs qs s \<Longrightarrow> distinct vs"
  by (simp add: sched_at_def reps_def tl_rep_def)

lemma sent_rotate:
  assumes "sent n my sp cu v c share (vs @ [cu]) qs s1 k' vs' new s'" "threads s1 = threads s"
  shows "sent n my sp cu v c share (cu # vs) qs s k' vs' new s'"
  using assms by (simp add: sent_def)

lemma sent_move:
  assumes "sent n my sp cu v c share vs (qs(c := qs c @ [t])) s1 k' vs' new s'" "t \<noteq> cu" "distinct (t # vs)"
    "threads s t = Some th" "threads s1 = (threads s)(t := Some (th\<lparr>t_cpu := Some c\<rparr>))" "length (qs c) < share"
  shows "sent n my sp cu v c share (t # vs) qs s k' vs' (t # new) s'"
proof -
  have m: "mset vs = mset vs' + mset new" and p: "placed c new (threads s1) (threads s')" using assms(1) by (simp_all add: sent_def)
  have "set new \<subseteq> set vs" using mset_eq_setD [of vs "vs' @ new"] m by auto
  then have "t \<notin> set new" using assms(3) by auto
  then have "placed c (t # new) (threads s) (threads s')" using p assms(4,5) by (intro placed_Cons) simp_all
  then show ?thesis using assms(1,2,6) m by (auto simp: sent_def)
qed

lemma send_to_at:
  "sched_at n my sp (Some c) cu v vs qs s \<Longrightarrow> c < n \<Longrightarrow> k \<le> length vs \<Longrightarrow> \<forall>t\<in>set vs. threads s t \<noteq> None \<Longrightarrow>
   \<exists>k' vs' new s'. send_to v c share k s = Some (k', s') \<and> sent n my sp cu v c share vs qs s k' vs' new s'"
proof (induction k arbitrary: vs qs s)
  case 0
  then show ?case by (intro exI [of _ 0] exI [of _ vs] exI [of _ "[]"] exI [of _ s]) (simp add: sent_def)
next
  case (Suc k)
  note reps = sched_reps [OF Suc.prems(1)]
  have cnt: "tl_count (tlm s) (c_runqueue c) = length (qs c)" by (rule reps_count [OF reps Suc.prems(2)])
  show ?case
  proof (cases "length (qs c) < share")
    case False
    then show ?thesis
      using Suc.prems cnt by (intro exI [of _ "Suc k"] exI [of _ vs] exI [of _ "[]"] exI [of _ s]) (simp add: sent_def)
  next
    case True
    obtain t us where vs: "vs = t # us" using Suc.prems(3) by (cases vs) auto
    have bound: "size (all_threads n qs) + length vs + 1 < 2 ^ 32" using Suc.prems(1) by (simp add: sched_at_def)
    obtain m1 where m1: "threadlist_remhead v (tlm s) = Some (Some t, m1)" "reps n v us qs m1" "tl_off m1 t"
      using v_remhead reps vs by blast
    obtain s1 where s1: "from_list (threadlist_remhead v) s = Some (Some t, s1)" "sched_at n my sp (Some c) cu v us qs s1"
        "threads s1 = threads s" "tlm s1 = m1"
      using from_list_at [where f = "threadlist_remhead v", OF Suc.prems(1) m1(1,2)] vs by auto
    have cu: "curthread s1 = cu" using s1(2) by (simp add: sched_at_def)
    show ?thesis
    proof (cases "t = cu")
      case rot: True
      have "\<exists>m'. threadlist_addtail v t (tlm s1) = Some m' \<and> reps n v (us @ [t]) qs m'"
        unfolding s1(4) by (rule v_addtail [OF m1(2,3)]) (use bound vs in simp)
      then obtain s2 where s2: "on_lists (threadlist_addtail v t) s1 = Some s2" "sched_at n my sp (Some c) cu v (us @ [t]) qs s2"
          "threads s2 = threads s1"
        using on_lists_at [where f = "threadlist_addtail v t" and vs' = "us @ [t]" and qs' = qs, OF s1(2)] bound vs by auto
      have "k \<le> length (us @ [t])" "\<forall>u\<in>set (us @ [t]). threads s2 u \<noteq> None" using Suc.prems(3,4) vs s2(3) s1(3) by auto
      from Suc.IH [OF s2(2) Suc.prems(2) this] obtain k' vs' new s' where
        r: "send_to v c share k s2 = Some (k', s')" "sent n my sp cu v c share (us @ [t]) qs s2 k' vs' new s'" by blast
      have "send_to v c share (Suc k) s = Some (k', s')" using True cnt s1(1) s2(1) r(1) rot cu by simp
      moreover have "sent n my sp cu v c share vs qs s k' vs' new s'"
        unfolding vs rot by (rule sent_rotate [OF r(2) [unfolded rot]]) (use s2(3) s1(3) in simp)
      ultimately show ?thesis by blast
    next
      case mv: False
      obtain th where th: "threads s t = Some th" using Suc.prems(4) vs by auto
      let ?s2 = "set_thread t (th\<lparr>t_cpu := Some c\<rparr>) s1" and ?qs = "qs(c := qs c @ [t])"
      have s2: "sched_at n my sp (Some c) cu v us qs ?s2" using s1(2) by (simp add: sched_at_def)
      have "length (qs c) + 1 < 2 ^ 32" using all_threads_le [OF Suc.prems(2), of qs] bound by linarith
      then have e: "\<exists>m'. threadlist_addtail (c_runqueue c) t (tlm ?s2) = Some m' \<and> reps n v us ?qs m'"
        using q_addtail [OF m1(2,3) Suc.prems(2)] s1(4) by simp
      have "size (all_threads n ?qs) = size (all_threads n qs) + 1"
        using all_threads_upd [OF Suc.prems(2), of qs "qs c @ [t]"] by simp
      then obtain s3 where s3: "on_lists (threadlist_addtail (c_runqueue c) t) ?s2 = Some s3"
          "sched_at n my sp (Some c) cu v us ?qs s3" "threads s3 = threads ?s2"
        using on_lists_at [where f = "threadlist_addtail (c_runqueue c) t" and vs' = us and qs' = ?qs, OF s2 e] bound vs by auto
      obtain cpu where cpu: "get_cpu c (smp s3) = Some cpu" using s3(2) mp_at_cpu Suc.prems(2) unfolding sched_at_def by blast
      obtain s4 where s4: "(if c_isidle cpu then on_mp (ipi_send c IPI_UNIDLE) s3 else Some s3) = Some s4"
          "sched_at n my sp (Some c) cu v us ?qs s4" "threads s4 = threads s3"
      proof (cases "c_isidle cpu")
        case True
        have "mp_at n my sp (Some c) (smp s3)" using s3(2) by (simp add: sched_at_def)
        from on_mp_at [where f = "ipi_send c IPI_UNIDLE", OF s3(2) ipi_send_at [OF this Suc.prems(2)]] True that show thesis by auto
      qed (use s3 that in auto)
      have thr: "threads s4 = (threads s)(t := Some (th\<lparr>t_cpu := Some c\<rparr>))" using s4(3) s3(3) s1(3) by simp
      have d: "distinct (t # us)" using sched_distinct [OF Suc.prems(1)] vs by simp
      have "k \<le> length us" "\<forall>u\<in>set us. threads s4 u \<noteq> None" using Suc.prems(3,4) vs thr by auto
      from Suc.IH [OF s4(2) Suc.prems(2) this] obtain k' vs' new s' where
        r: "send_to v c share k s4 = Some (k', s')" "sent n my sp cu v c share us ?qs s4 k' vs' new s'" by blast
      have "send_to v c share (Suc k) s = Some (k', s')" using True cnt s1 th s3(1) cpu s4(1) r(1) mv cu by simp
      moreover have "sent n my sp cu v c share vs qs s k' vs' (t # new) s'"
        unfolding vs by (rule sent_move [OF r(2) mv d th thr True])
      ultimately show ?thesis by blast
    qed
  qed
qed


text \<open>What the loop over the CPUs does to the queues and to the threads.\<close>

definition got :: "nat \<Rightarrow> nat \<Rightarrow> nat list \<Rightarrow> nat list \<Rightarrow> nat \<Rightarrow> (nat \<Rightarrow> thread option) \<Rightarrow> bool" where
  "got cu share q q' c f \<longleftrightarrow> (\<exists>new. q' = q @ new \<and> cu \<notin> set new \<and> (new = [] \<or> length q' \<le> share) \<and>
     (\<forall>t\<in>set new. \<exists>th. f t = Some th \<and> t_cpu th = Some c))"

definition spread ::
  "nat \<Rightarrow> nat \<Rightarrow> nat \<Rightarrow> nat \<Rightarrow> nat list \<Rightarrow> (nat \<Rightarrow> nat list) \<Rightarrow> (nat \<Rightarrow> thread option) \<Rightarrow> nat list \<Rightarrow> (nat \<Rightarrow> nat list) \<Rightarrow>
   (nat \<Rightarrow> thread option) \<Rightarrow> bool" where
  "spread n my cu share vs qs f vs' qs' f' \<longleftrightarrow> mset vs + all_threads n qs = mset vs' + all_threads n qs' \<and> qs' my = qs my \<and>
     (\<forall>c<n. c \<noteq> my \<longrightarrow> got cu share (qs c) (qs' c) c f') \<and> (\<forall>t. t \<notin> set vs \<longrightarrow> f' t = f t) \<and>
     (\<forall>t\<in>set vs'. f' t = f t) \<and> set vs' \<subseteq> set vs"

lemma spread_current:
  assumes "spread n my cu share vs qs f vs' qs' f'" "cu \<in> set vs"
  shows "cu \<in> set vs'"
proof -
  have "count (mset (qs' c)) cu = count (mset (qs c)) cu" if "c < n" for c
    using assms(1) that by (cases "c = my") (fastforce simp: spread_def got_def count_eq_zero_iff)+
  then have "count (all_threads n qs') cu = count (all_threads n qs) cu" by (simp add: all_threads_def count_sum)
  moreover have "count (mset vs + all_threads n qs) cu = count (mset vs' + all_threads n qs') cu"
    using assms(1) by (simp add: spread_def)
  ultimately have "count (mset vs') cu = count (mset vs) cu" by simp
  then show ?thesis using assms(2) by (metis count_eq_zero_iff set_mset_mset)
qed

lemma spread_refl: "spread n my cu share vs qs f vs qs f"
  by (simp add: spread_def got_def)

lemma spread_step:
  assumes "sent n my sp cu v c share vs qs s k' vs1 new s1" "c < n" "c \<noteq> my" "distinct vs"
    "spread n my cu share vs1 (qs(c := qs c @ new)) (threads s1) vs' qs' f'"
  shows "spread n my cu share vs qs (threads s) vs' qs' f'"
proof -
  note sp = assms(5) [unfolded spread_def]
  have m: "mset vs = mset vs1 + mset new" and p: "placed c new (threads s) (threads s1)" and cu: "cu \<notin> set new"
      and len: "new = [] \<or> length (qs c) + length new \<le> share"
    using assms(1) by (simp_all add: sent_def)
  have "distinct (vs1 @ new)" using assms(4) m by (metis mset_append mset_eq_imp_distinct_iff)
  then have dj: "set vs1 \<inter> set new = {}" by simp
  have sv: "set vs = set vs1 \<union> set new" using mset_eq_setD [of vs "vs1 @ new"] m by simp
  have "all_threads n (qs(c := qs c @ new)) = all_threads n qs + mset new"
    using all_threads_upd [OF assms(2), of qs "qs c @ new"] by simp
  then have "mset vs + all_threads n qs = mset vs' + all_threads n qs'" using sp m by (simp add: ac_simps)
  moreover have "got cu share (qs c) (qs' c) c f'"
  proof -
    obtain new' where g: "qs' c = (qs c @ new) @ new'" "cu \<notin> set new'" "new' = [] \<or> length (qs' c) \<le> share"
        "\<forall>t\<in>set new'. \<exists>th. f' t = Some th \<and> t_cpu th = Some c"
      using sp assms(2,3) unfolding got_def by (metis fun_upd_same)
    have "\<exists>th. f' t = Some th \<and> t_cpu th = Some c" if "t \<in> set new" for t
    proof -
      have "f' t = threads s1 t" using sp dj that by blast
      then show ?thesis using p that by (auto simp: placed_def)
    qed
    then show ?thesis unfolding got_def using g cu len by (intro exI [of _ "new @ new'"]) auto
  qed
  moreover have "got cu share (qs d) (qs' d) d f'" if "d < n" "d \<noteq> my" "d \<noteq> c" for d
    using sp that by (metis fun_upd_other)
  moreover have "f' t = threads s t" if "t \<notin> set vs" for t using sp p sv that by (simp add: placed_def)
  moreover have "f' t = threads s t" if "t \<in> set vs'" for t
    using sp p dj that by (metis disjoint_iff placed_def subsetD)
  ultimately show ?thesis unfolding spread_def using sp sv assms(3) by (metis fun_upd_other le_supI1)
qed

lemma send_all_at:
  "sched_at n my sp None cu v vs qs s \<Longrightarrow> i + left = n \<Longrightarrow> k \<le> length vs \<Longrightarrow> \<forall>t\<in>set vs. threads s t \<noteq> None \<Longrightarrow>
   \<exists>vs' qs' s'. send_all v left i share k s = Some s' \<and> sched_at n my sp None cu v vs' qs' s' \<and>
     spread n my cu share vs qs (threads s) vs' qs' (threads s')"
proof (induction left arbitrary: i k vs qs s)
  case 0
  then show ?case using spread_refl by (intro exI [of _ vs] exI [of _ qs] exI [of _ s]) simp
next
  case (Suc left)
  have i: "i < n" using Suc.prems(2) by simp
  have next_i: "Suc i + left = n" using Suc.prems(2) by simp
  show ?case
  proof (cases "k = 0 \<or> i = my")
    case True
    then have "send_all v (Suc left) i share k s = (if k = 0 then Some s else send_all v left (Suc i) share k s)"
      using sched_me [OF Suc.prems(1)] by auto
    then show ?thesis
      using Suc.IH [OF Suc.prems(1) next_i Suc.prems(3,4)] Suc.prems(1) spread_refl by (cases "k = 0") (simp, blast, simp)
  next
    case False
    obtain s1 where s1: "on_mp (rq_lock i) s = Some s1" "sched_at n my sp (Some i) cu v vs qs s1" "threads s1 = threads s"
      using lock_at [OF Suc.prems(1) i] by blast
    have "\<forall>t\<in>set vs. threads s1 t \<noteq> None" using Suc.prems(4) s1(3) by simp
    from send_to_at [OF s1(2) i Suc.prems(3) this] obtain k' vs1 new s2 where
      s2: "send_to v i share k s1 = Some (k', s2)" "sent n my sp cu v i share vs qs s1 k' vs1 new s2" by blast
    have at2: "sched_at n my sp (Some i) cu v vs1 (qs(i := qs i @ new)) s2" "k' \<le> length vs1"
        "mset vs = mset vs1 + mset new" "placed i new (threads s1) (threads s2)" using s2(2) by (simp_all add: sent_def)
    obtain s3 where s3: "on_mp (rq_unlock i) s2 = Some s3" "sched_at n my sp None cu v vs1 (qs(i := qs i @ new)) s3"
        "threads s3 = threads s2"
      using unlock_at [OF at2(1) i] by blast
    have "set vs1 \<subseteq> set vs" using mset_eq_setD [of vs "vs1 @ new"] at2(3) by auto
    then have "\<forall>t\<in>set vs1. threads s3 t \<noteq> None"
      using Suc.prems(4) s1(3) s3(3) at2(4) unfolding placed_def by (metis option.distinct(1) subsetD)
    from Suc.IH [OF s3(2) next_i at2(2) this] obtain vs' qs' s' where
      r: "send_all v left (Suc i) share k' s3 = Some s'" "sched_at n my sp None cu v vs' qs' s'"
        "spread n my cu share vs1 (qs(i := qs i @ new)) (threads s3) vs' qs' (threads s')" by blast
    have "send_all v (Suc left) i share k s = Some s'"
      using False sched_me [OF Suc.prems(1)] s1(1) s2(1) s3(1) r(1) by simp
    moreover have "spread n my cu share vs qs (threads s) vs' qs' (threads s')"
      using spread_step [OF s2(2) i _ sched_distinct [OF Suc.prems(1)]] r(3) s3(3) s1(3) False by simp
    ultimately show ?thesis using r(2) by blast
  qed
qed


section \<open>Migration\<close>

lemma init_reps:
  assumes "\<forall>c<n. c_runqueue c \<noteq> v \<and> tl_rep m (c_runqueue c) (qs c)"
  shows "reps n v [] qs (threadlist_init v m)"
proof -
  have "tl_rep (threadlist_init v m) v []" by (simp add: tl_rep_def threadlist_init_def)
  moreover have "tl_rep (threadlist_init v m) l ts" if "tl_rep m l ts" "l \<noteq> v" for l ts
  proof -
    have "chain (threadlist_init v m) (nodes l ts) = chain m (nodes l ts)"
      by (rule chain_cong) (use that(2) in \<open>auto simp: threadlist_init_def dest: in_set_butlastD\<close>)
    then show ?thesis using that by (simp add: tl_rep_def) (simp add: threadlist_init_def)
  qed
  ultimately show ?thesis using assms by (simp add: reps_def)
qed

lemma reps_move_back:
  assumes "reps n v vs qs m" "c < n" "length (qs c) + length vs < 2 ^ 32"
  shows "\<exists>m'. move_all threadlist_remhead threadlist_addtail v (c_runqueue c) m = Some m' \<and>
    reps n v [] (qs(c := qs c @ vs)) m'"
proof -
  have "tl_rep m v vs" "tl_rep m (c_runqueue c) (qs c)" "v \<noteq> c_runqueue c" using assms(1,2) by (auto simp: reps_def)
  from tq.move_all_ok [OF this assms(3)] show ?thesis using assms(1) by (fastforce simp: reps_def)
qed

text \<open>The leftovers go back to the own queue.\<close>

lemma give_back_at:
  assumes "sched_at n my sp None cu v vs qs s"
  shows "\<exists>s'. give_back v s = Some s' \<and> sched_at n my sp None cu v [] (qs(my := qs my @ vs)) s' \<and> threads s' = threads s"
proof (cases "vs = []")
  case True
  then have "tl_count (tlm s) v = 0" using sched_reps [OF assms] by (simp add: reps_def tl_rep_def)
  then show ?thesis using assms True by (simp add: give_back_def threadlist_isempty_def)
next
  case False
  have my: "my < n" and bound: "size (all_threads n qs) + length vs + 1 < 2 ^ 32" using assms by (simp_all add: sched_at_def)
  have ne: "\<not> threadlist_isempty v (tlm s)"
    using False sched_reps [OF assms] by (simp add: threadlist_isempty_def reps_def tl_rep_def)
  obtain s1 where s1: "on_mp (rq_lock my) s = Some s1" "sched_at n my sp (Some my) cu v vs qs s1" "threads s1 = threads s"
    using lock_at [OF assms my] by blast
  let ?f = "move_all threadlist_remhead threadlist_addtail v (c_runqueue my)" and ?qs = "qs(my := qs my @ vs)"
  have "length (qs my) + length vs < 2 ^ 32" using all_threads_le [OF my, of qs] bound by linarith
  note e = reps_move_back [OF sched_reps [OF s1(2)] my this]
  have "size (all_threads n ?qs) = size (all_threads n qs) + length vs"
    using all_threads_upd [OF my, of qs "qs my @ vs"] by simp
  then obtain s2 where s2: "on_lists ?f s1 = Some s2" "sched_at n my sp (Some my) cu v [] ?qs s2" "threads s2 = threads s1"
    using on_lists_at [where f = ?f and vs' = "[]" and qs' = ?qs, OF s1(2) e] bound by auto
  obtain s3 where s3: "on_mp (rq_unlock my) s2 = Some s3" "sched_at n my sp None cu v [] ?qs s3" "threads s3 = threads s2"
    using unlock_at [OF s2(2) my] by blast
  have "give_back v s = Some s3"
    using ne s1(1) s2(1) s3(1) sched_me [OF assms] sched_me [OF s1(2)] sched_me [OF s2(2)] by (simp add: give_back_def)
  then show ?thesis using s3(2,3) s2(3) s1(3) by simp
qed

text \<open>C16: \<^verbatim>\<open>thread_consider_migration\<close> never faults and loses no thread: the run queues hold together the threads they held
  before.  The current thread stays where it was; every other CPU keeps its queue and gets threads at the end, at most
  up to its share, which then belong to it.\<close>

theorem migration_keeps_threads:
  assumes "mp_at n my sp None (smp s)" "my < n" "curthread s = cu"
    "\<forall>c<n. c_runqueue c \<noteq> v \<and> tl_rep (tlm s) (c_runqueue c) (qs c)" "\<forall>t\<in>set (qs my). threads s t \<noteq> None"
    "(\<Sum>c<n. length (qs c)) + n + 1 < 2 ^ 32"
  shows "\<exists>qs' s'. thread_consider_migration v s = Some s' \<and> mp_at n my sp None (smp s') \<and>
    (\<forall>c<n. tl_rep (tlm s') (c_runqueue c) (qs' c)) \<and> all_threads n qs' = all_threads n qs \<and>
    (cu \<in> set (qs my) \<longrightarrow> cu \<in> set (qs' my)) \<and>
    (\<forall>c<n. c \<noteq> my \<longrightarrow> got cu (((\<Sum>c<n. length (qs c)) + n - 1) div n) (qs c) (qs' c) c (threads s'))"
proof -
  let ?tot = "\<Sum>c<n. length (qs c)"
  let ?share = "(?tot + n - 1) div n"
  have dr: "DIVROUNDUP ?tot n = ?share" using assms(2,6) by (intro DIVROUNDUP_exact) simp_all
  have len: "length (allcpus (smp s)) = n" using assms(1) by (simp add: mp_at_def)
  have cnt: "\<forall>c<n. tl_count (tlm s) (c_runqueue c) = length (qs c)" using assms(4) by (simp add: tl_rep_def)
  obtain m1 where m1: "count_threads n 0 0 0 s = Some (length (qs my), ?tot, s\<lparr>smp := m1\<rparr>)" "mp_at n my sp None m1"
    using count_threads_at [OF assms(1,2) cnt, of 0 n 0 0] assms(6) by auto
  show ?thesis
  proof (cases "length (qs my) < ?share")
    case True
    then have "thread_consider_migration v s = Some (s\<lparr>smp := m1\<rparr>)"
      using m1(1) by (simp add: thread_consider_migration_def len dr)
    then show ?thesis using m1(2) assms(4) by (intro exI [of _ qs] exI [of _ "s\<lparr>smp := m1\<rparr>"]) (simp add: got_def)
  next
    case False
    let ?k = "length (qs my) - ?share"
    let ?s1 = "s\<lparr>smp := m1, tlm := threadlist_init v (tlm s)\<rparr>"
    have at1: "sched_at n my sp None cu v [] qs ?s1"
      using m1(2) assms(1-3,6) init_reps [OF assms(4)] by (simp add: sched_at_def size_all mp_at_def)
    obtain s2 where s2: "on_mp (rq_lock my) ?s1 = Some s2" "sched_at n my sp (Some my) cu v [] qs s2" "threads s2 = threads ?s1"
      using lock_at [OF at1 assms(2)] by blast
    let ?vs = "drop (length (qs my) - ?k) (qs my)" and ?qs = "qs(my := take (length (qs my) - ?k) (qs my))"
    obtain s3 where s3: "take_victims v ?k s2 = Some s3" "threads s3 = threads s2" "sched_at n my sp (Some my) cu v ?vs ?qs s3"
      using take_victims_at [OF s2(2), of ?k] by auto
    obtain s4 where s4: "on_mp (rq_unlock my) s3 = Some s4" "sched_at n my sp None cu v ?vs ?qs s4" "threads s4 = threads s3"
      using unlock_at [OF s3(3) assms(2)] by blast
    have sv: "set ?vs \<subseteq> set (qs my)" by (rule set_drop_subset)
    have "\<forall>t\<in>set ?vs. threads s4 t \<noteq> None" using assms(5) sv s4(3) s3(2) s2(3) by auto
    moreover have "?k \<le> length ?vs" by simp
    ultimately obtain vs' qs' s5 where s5: "send_all v n 0 ?share ?k s4 = Some s5" "sched_at n my sp None cu v vs' qs' s5"
        "spread n my cu ?share ?vs ?qs (threads s4) vs' qs' (threads s5)"
      using send_all_at [OF s4(2), of 0 n ?k ?share] by auto
    obtain s6 where s6: "give_back v s5 = Some s6" "sched_at n my sp None cu v [] (qs'(my := qs' my @ vs')) s6" "threads s6 = threads s5"
      using give_back_at [OF s5(2)] by blast
    have r6: "reps n v [] (qs'(my := qs' my @ vs')) (tlm s6)" by (rule sched_reps [OF s6(2)])
    then have "tl_count (tlm s6) v = 0" by (simp add: reps_def tl_rep_def)
    then have "thread_consider_migration v s = Some s6"
      using False m1(1) s2(1) s3(1) s4(1) s5(1) s6(1) sched_me [OF at1] sched_me [OF s2(2)] sched_me [OF s3(3)]
      by (simp add: thread_consider_migration_def len dr on_lists_def threadlist_cleanup_def threadlist_isempty_def)
    moreover have "all_threads n (qs'(my := qs' my @ vs')) = all_threads n qs"
    proof -
      have "all_threads n (qs'(my := qs' my @ vs')) = all_threads n qs' + mset vs'"
        using all_threads_upd [OF assms(2), of qs' "qs' my @ vs'"] by simp
      also have "\<dots> = mset ?vs + all_threads n ?qs" using s5(3) by (simp add: spread_def ac_simps)
      also have "\<dots> = all_threads n qs" using all_threads_cut [OF assms(2)] by (simp add: add.commute)
      finally show ?thesis .
    qed
    moreover have "cu \<in> set (qs' my @ vs')" if "cu \<in> set (qs my)"
    proof -
      have "cu \<in> set (take (length (qs my) - ?k) (qs my)) \<or> cu \<in> set ?vs"
        using that by (metis Un_iff append_take_drop_id set_append)
      moreover have "qs' my = take (length (qs my) - ?k) (qs my)" using s5(3) by (simp add: spread_def)
      ultimately show ?thesis using spread_current [OF s5(3)] by auto
    qed
    moreover have "got cu ?share (qs c) ((qs'(my := qs' my @ vs')) c) c (threads s6)" if "c < n" "c \<noteq> my" for c
      using s5(3) that s6(3) by (simp add: spread_def)
    moreover have "mp_at n my sp None (smp s6)" using s6(2) by (simp add: sched_at_def)
    moreover have "\<forall>c<n. tl_rep (tlm s6) (c_runqueue c) ((qs'(my := qs' my @ vs')) c)" using r6 by (simp add: reps_def)
    ultimately show ?thesis by (intro exI [of _ "qs'(my := qs' my @ vs')"] exI [of _ s6]) simp
  qed
qed

text \<open>Two CPUs, the first with two threads waiting.\<close>

definition thread0 :: thread where
  "thread0 = \<lparr>t_wchan_name = None, t_state = S_READY, t_stack = None, t_cpu = Some 0, t_in_interrupt = False,
     t_spl = \<lparr>t_iplhigh_count = 0, t_curspl = 0, irq = True\<rparr>, t_addrspace = None, t_cwd = None, t_pid = 0, t_ptable_index = 0\<rparr>"

definition sched2 :: sched where
  "sched2 = \<lparr>smp = mp2, tlm = threadlist_init 2 mem_7_8, threads = (\<lambda>_. Some thread0), c_curthread = (\<lambda>c. c),
     wc_slock = (\<lambda>_. free_lock), wc_names = (\<lambda>_. [])\<rparr>"

lemma sched2_lists: "tl_rep (tlm sched2) (c_runqueue 0) [7, 8]" "tl_rep (tlm sched2) (c_runqueue 1) []"
  using init_reps [of 1 2 mem_7_8 "\<lambda>_. [7, 8]"] mem_7_8_rep(1) by (simp_all add: reps_def sched2_def c_runqueue_def)

lemma sched2_mp: "mp_at 2 0 (cpu_spl mp2) None (smp sched2)"
  by (auto simp: mp_at_def sched2_def mp2_def cpu0_def spl_ok_def nth_Cons')

theorem migration_keeps_threads_witness:
  "\<exists>qs' s'. thread_consider_migration 9 sched2 = Some s' \<and> tl_rep (tlm s') (c_runqueue 0) (qs' 0) \<and>
     tl_rep (tlm s') (c_runqueue 1) (qs' 1) \<and> mset (qs' 0) + mset (qs' 1) = {#7, 8#} \<and> length (qs' (1 :: nat)) \<le> 1"
proof -
  define qs :: "nat \<Rightarrow> nat list" where "qs = (\<lambda>c. if c = 0 then [7, 8] else [])"
  have l: "\<forall>c<2. c_runqueue c \<noteq> 9 \<and> tl_rep (tlm sched2) (c_runqueue c) (qs c)"
    using sched2_lists by (auto simp: less_2_cases_iff qs_def) (simp_all add: c_runqueue_def)
  have n: "(\<Sum>c<2. length (qs c)) = 2" by (simp add: numeral_2_eq_2 qs_def)
  have "\<forall>t\<in>set (qs 0). threads sched2 t \<noteq> None" by (simp add: sched2_def)
  from migration_keeps_threads [OF sched2_mp _ refl l this, unfolded n]
  obtain qs' s' where r: "thread_consider_migration 9 sched2 = Some s'" "\<forall>c<2. tl_rep (tlm s') (c_runqueue c) (qs' c)"
      "all_threads 2 qs' = all_threads 2 qs" "got (curthread sched2) ((2 + 2 - 1) div 2) (qs 1) (qs' 1) 1 (threads s')"
    by fastforce
  moreover have "mset (qs' 0) + mset (qs' 1) = {#7, 8#}" using r(3) by (simp add: all_threads_def numeral_2_eq_2 qs_def)
  moreover have "length (qs' 1) \<le> 1" using r(4) by (auto simp: got_def qs_def)
  ultimately show ?thesis by (intro exI [of _ qs'] exI [of _ s']) simp
qed

end
