(* ===== verification/Millicode.thy ===== *)
theory Millicode
  imports Kern_Prelude "HOL-Library.Signed_Division"
begin

text \<open>
  \<^verbatim>\<open>common/gcc-millicode\<close>: the routines gcc calls for \<^verbatim>\<open>long long\<close> arithmetic on the 32-bit MIPS, all but
  \<^verbatim>\<open>__qdivrem\<close> and its callers.  A \<^verbatim>\<open>long long\<close> is a 64-bit word; the two views of the \<^verbatim>\<open>union uu\<close> are the functions
  \<open>ui_H\<close>, \<open>ui_L\<close> (the halves) and \<open>uu\<close> (the whole).  Signed overflow wraps (\<^verbatim>\<open>longlong.h\<close> assumes two's complement);
  a shift of a 32-bit value by 32 or more is undefined and gives \<open>None\<close>.
\<close>

section \<open>Definitions\<close>

definition ui_H :: "u64 \<Rightarrow> u32" where "ui_H a = ucast (drop_bit 32 a)"
definition ui_L :: "u64 \<Rightarrow> u32" where "ui_L a = ucast a"
definition uu :: "u32 \<Rightarrow> u32 \<Rightarrow> u64" where "uu h l = push_bit 32 (ucast h) OR ucast l"

definition HHALF :: "u32 \<Rightarrow> u32" where "HHALF x = drop_bit 16 x"
definition LHALF :: "u32 \<Rightarrow> u32" where "LHALF x = x AND (push_bit 16 1 - 1)"
definition LHUP :: "u32 \<Rightarrow> u32" where "LHUP x = push_bit 16 x"

text \<open>A comparison used as a number.\<close>

abbreviation truth :: "bool \<Rightarrow> 'a::zero_neq_one" where "truth b \<equiv> of_bool b"

definition adddi3 :: "u64 \<Rightarrow> u64 \<Rightarrow> u64" where
  "adddi3 a b = (let l = ui_L a + ui_L b; h = ui_H a + ui_H b + truth (l < ui_L b) in uu h l)"

definition subdi3 :: "u64 \<Rightarrow> u64 \<Rightarrow> u64" where
  "subdi3 a b = (let l = ui_L a - ui_L b; h = ui_H a - ui_H b - truth (ui_L a < l) in uu h l)"

definition negdi2 :: "u64 \<Rightarrow> u64" where
  "negdi2 a = (let l = - ui_L a; h = - ui_H a - truth (0 < l) in uu h l)"

definition anddi3 :: "u64 \<Rightarrow> u64 \<Rightarrow> u64" where
  "anddi3 a b = uu (ui_H a AND ui_H b) (ui_L a AND ui_L b)"

definition iordi3 :: "u64 \<Rightarrow> u64 \<Rightarrow> u64" where
  "iordi3 a b = uu (ui_H a OR ui_H b) (ui_L a OR ui_L b)"

definition xordi3 :: "u64 \<Rightarrow> u64 \<Rightarrow> u64" where
  "xordi3 a b = uu (ui_H a XOR ui_H b) (ui_L a XOR ui_L b)"

definition one_cmpldi2 :: "u64 \<Rightarrow> u64" where
  "one_cmpldi2 a = uu (NOT (ui_H a)) (NOT (ui_L a))"

text \<open>The shifts of the machine.\<close>

definition shl32 :: "u32 \<Rightarrow> nat \<Rightarrow> u32 option" where
  "shl32 x n = (if n < 32 then Some (push_bit n x) else None)"

definition shr32 :: "u32 \<Rightarrow> nat \<Rightarrow> u32 option" where
  "shr32 x n = (if n < 32 then Some (drop_bit n x) else None)"

definition sar32 :: "u32 \<Rightarrow> nat \<Rightarrow> u32 option" where
  "sar32 x n = (if n < 32 then Some (signed_drop_bit n x) else None)"

abbreviation (input) INT_BITS :: nat where "INT_BITS \<equiv> 32"

definition ashldi3 :: "u64 \<Rightarrow> nat \<Rightarrow> u64 option" where
  "ashldi3 a shift =
     (if shift = 0 then Some a
      else if INT_BITS \<le> shift then do {
        h \<leftarrow> shl32 (ui_L a) (shift - INT_BITS);
        Some (uu h 0)
      }
      else do {
        h \<leftarrow> shl32 (ui_H a) shift;
        c \<leftarrow> shr32 (ui_L a) (INT_BITS - shift);
        l \<leftarrow> shl32 (ui_L a) shift;
        Some (uu (h OR c) l)
      })"

definition lshldi3 :: "u64 \<Rightarrow> nat \<Rightarrow> u64 option" where
  "lshldi3 a shift =
     (if shift = 0 then Some a
      else if INT_BITS \<le> shift then do {
        h \<leftarrow> shl32 (ui_L a) (shift - INT_BITS);
        Some (uu h 0)
      }
      else do {
        h \<leftarrow> shl32 (ui_H a) shift;
        c \<leftarrow> shr32 (ui_L a) (INT_BITS - shift);
        l \<leftarrow> shl32 (ui_L a) shift;
        Some (uu (h OR c) l)
      })"

definition lshrdi3 :: "u64 \<Rightarrow> nat \<Rightarrow> u64 option" where
  "lshrdi3 a shift =
     (if shift = 0 then Some a
      else if INT_BITS \<le> shift then do {
        l \<leftarrow> shr32 (ui_H a) (shift - INT_BITS);
        Some (uu 0 l)
      }
      else do {
        l \<leftarrow> shr32 (ui_L a) shift;
        c \<leftarrow> shl32 (ui_H a) (INT_BITS - shift);
        h \<leftarrow> shr32 (ui_H a) shift;
        Some (uu h (l OR c))
      })"

definition ashrdi3 :: "u64 \<Rightarrow> nat \<Rightarrow> u64 option" where
  "ashrdi3 a shift =
     (if shift = 0 then Some a
      else if INT_BITS \<le> shift then do {
        s \<leftarrow> sar32 (ui_H a) (INT_BITS - 1);
        s \<leftarrow> sar32 s 1;
        l \<leftarrow> sar32 (ui_H a) (shift - INT_BITS);
        Some (uu s l)
      }
      else do {
        l \<leftarrow> shr32 (ui_L a) shift;
        c \<leftarrow> shl32 (ui_H a) (INT_BITS - shift);
        h \<leftarrow> sar32 (ui_H a) shift;
        Some (uu h (l OR c))
      })"

definition cmpdi2 :: "u64 \<Rightarrow> u64 \<Rightarrow> int" where
  "cmpdi2 a b =
     (if sint (ui_H a) < sint (ui_H b) then 0 else if sint (ui_H b) < sint (ui_H a) then 2
      else if ui_L a < ui_L b then 0 else if ui_L b < ui_L a then 2 else 1)"

definition ucmpdi2 :: "u64 \<Rightarrow> u64 \<Rightarrow> int" where
  "ucmpdi2 a b =
     (if ui_H a < ui_H b then 0 else if ui_H b < ui_H a then 2
      else if ui_L a < ui_L b then 0 else if ui_L b < ui_L a then 2 else 1)"

text \<open>The product of two 32-bit values, from 16-bit halves.\<close>

definition lmulq :: "u32 \<Rightarrow> u32 \<Rightarrow> u64" where
  "lmulq u v =
     (let u1 = HHALF u; u0 = LHALF u; v1 = HHALF v; v0 = LHALF v; low = u0 * v0
      in if u1 = 0 \<and> v1 = 0 then ucast low
      else
        let (udiff, neg) = (if u0 \<le> u1 then (u1 - u0, False) else (u0 - u1, True));
            (vdiff, neg) = (if v1 \<le> v0 then (v0 - v1, neg) else (v1 - v0, \<not> neg));
            mid = udiff * vdiff;
            high = u1 * v1;
            prodh = high + HHALF high;
            prodl = LHUP high;
            (prodh, prodl) =
              (if neg then
                 let was = prodl; prodl = prodl - LHUP mid in (prodh - (HHALF mid + truth (was < prodl)), prodl)
               else
                 let was = prodl; prodl = prodl + LHUP mid in (prodh + (HHALF mid + truth (prodl < was)), prodl));
            was = prodl;
            prodl = prodl + LHUP low;
            prodh = prodh + (HHALF low + truth (prodl < was));
            prodl = prodl + low;
            prodh = (if prodl < low then prodh + 1 else prodh)
        in uu prodh prodl)"

definition muldi3 :: "u64 \<Rightarrow> u64 \<Rightarrow> u64" where
  "muldi3 a b =
     (let (u, negall) = (if 0 \<le> sint a then (a, False) else (- a, True));
          (v, negall) = (if 0 \<le> sint b then (b, negall) else (- b, \<not> negall));
          u1 = ui_H u; u0 = ui_L u; v1 = ui_H v; v0 = ui_L v;
          prod =
            (if u1 = 0 \<and> v1 = 0 then lmulq u0 v0
             else
               let low = lmulq u0 v0;
                   (udiff, negmid) = (if u0 \<le> u1 then (u1 - u0, False) else (u0 - u1, True));
                   (vdiff, negmid) = (if v1 \<le> v0 then (v0 - v1, negmid) else (v1 - v0, \<not> negmid));
                   mid = udiff * vdiff;
                   high = u1 * v1
               in uu (high + (if negmid then - mid else mid) + ui_L low + ui_H low) (ui_L low))
      in if negall then - prod else prod)"

lemma len64_eq: "LENGTH(64) = 64"
  by simp

section \<open>Halves as elements of the ring of 64-bit words\<close>

abbreviation uc :: "u32 \<Rightarrow> u64" where "uc \<equiv> ucast"

definition up :: "u32 \<Rightarrow> u64" where "up x = push_bit 32 (uc x)"

lemma bit_uu: "bit (uu h l) n \<longleftrightarrow> (if n < 32 then bit l n else bit h (n - 32))"
  by (auto simp: uu_def bit_simps dest: bit_imp_le_length)

lemma bit_halves: "bit (ui_H a) n \<longleftrightarrow> n < 32 \<and> bit a (n + 32)" "bit (ui_L a) n \<longleftrightarrow> n < 32 \<and> bit a n"
  by (auto simp: ui_H_def ui_L_def bit_simps ac_simps)

lemma uu_halves [simp]: "uu (ui_H a) (ui_L a) = a" "ui_H (uu h l) = h" "ui_L (uu h l) = l"
  by (auto simp: bit_eq_iff bit_uu bit_halves dest: bit_imp_le_length)

lemma uu_up: "uu h l = up h + uc l"
proof -
  have "push_bit 32 (uc h) AND uc l = 0" by (auto simp: bit_eq_iff bit_simps dest: bit_imp_le_length)
  then show ?thesis unfolding uu_def up_def by (rule disjunctive_add_eq_or [symmetric])
qed

lemma up_eq: "up x = 2 ^ 32 * uc x"
  by (simp add: up_def push_bit_eq_mult ac_simps)

lemma up_of_int: "up (word_of_int k) = word_of_int (2 ^ 32 * k)"
proof -
  have "2 ^ 32 * (k mod 2 ^ 32) = (2 ^ 32 * k) mod (2 ^ 64 :: int)" by (simp add: mult_mod_right)
  then have "word_of_int (2 ^ 32 * (k mod 2 ^ 32)) = (word_of_int (2 ^ 32 * k) :: u64)"
    using word_of_int_eq_iff [where 'a = 64, of "2 ^ 32 * (k mod 2 ^ 32)" "2 ^ 32 * k"] by (simp only: take_bit_eq_mod len64_eq mod_mod_trivial)
  moreover have "uc (word_of_int k) = word_of_int (k mod 2 ^ 32)"
    by (simp add: unsigned_of_int take_bit_eq_mod)
  ultimately show ?thesis by (simp add: up_eq)
qed

lemma up_hom:
  "up (x + y) = up x + up y" "up (x - y) = up x - up y" "up (- x) = - up x" "up (x * y) = up x * uc y" "up 0 = 0" "up 1 = 2 ^ 32"
  "up (of_bool b) = (if b then 2 ^ 32 else 0)"
proof -
  have x: "x = word_of_int (uint x)" for x :: u32 by simp
  show "up (x + y) = up x + up y" "up (x - y) = up x - up y" "up (- x) = - up x" "up (x * y) = up x * uc y"
    using up_of_int [of "uint x + uint y"] up_of_int [of "uint x - uint y"] up_of_int [of "- uint x"] up_of_int [of "uint x * uint y"]
    by (simp_all add: up_eq algebra_simps)
qed (simp_all add: up_eq)

lemma uc_of_int: "uc x = word_of_int (uint x)"
  by simp

lemma uint_sum: "uint (x + y :: u32) = uint x + uint y - (if x + y < y then 2 ^ 32 else 0)"
  using uint_add_lem [of x y] uint_lt2p [of x] uint_lt2p [of y]
  by (auto simp: word_less_def uint_plus_if' split: if_splits)

lemma uint_diff: "uint (x - y :: u32) = uint x - uint y + (if x < x - y then 2 ^ 32 else 0)"
  using uint_lt2p [of x] uint_lt2p [of y]
  by (auto simp: word_less_def uint_sub_if' split: if_splits)

lemma uc_carry:
  "uc (x + y) = uc x + uc y - (if x + y < y then 2 ^ 32 else 0)"
  "uc (x - y) = uc x - uc y + (if x < x - y then 2 ^ 32 else 0)"
  "uc (- x) = (if 0 < - x then 2 ^ 32 else 0) - uc x"
  unfolding uc_of_int [of "x + y"] uc_of_int [of "x - y"] uc_of_int [of "- x"] uint_sum uint_diff
  using uint_diff [of 0 x] by simp_all

lemma uc_halves: "2 ^ 32 * uc (ui_H a) + uc (ui_L a) = a"
  using uu_halves(1) [of a] by (simp add: uu_up up_eq)

lemma zero64 [simp]: "(18446744073709551616 :: u64) = 0"
  by simp

lemma up_low: "up (ui_L a) = 2 ^ 32 * a"
proof -
  have "2 ^ 32 * a = 2 ^ 32 * (2 ^ 32 * uc (ui_H a) + uc (ui_L a))" by (simp only: uc_halves)
  then show ?thesis by (simp add: up_eq algebra_simps)
qed

lemma LHALF_eq: "LHALF x = take_bit 16 x"
  unfolding LHALF_def push_bit_of_1 mask_eq_exp_minus_1 [symmetric] take_bit_eq_mask ..

lemma unat32: "unat (x :: u32) < 2 ^ 32"
  using unsigned_less [of x, where 'a = nat] by simp

lemma half_values: "unat (HHALF x) = unat x div 2 ^ 16" "unat (LHALF x) = unat x mod 2 ^ 16" "unat (LHUP x) = unat x * 2 ^ 16 mod 2 ^ 32"
proof -
  show "unat (HHALF x) = unat x div 2 ^ 16" by (simp add: HHALF_def drop_bit_eq_div unat_div)
qed (simp_all add: LHALF_eq LHUP_def unsigned_take_bit_eq take_bit_eq_mod push_bit_eq_mult unat_word_ariths)

lemma half_small: "unat (HHALF x) < 2 ^ 16" "unat (LHALF x) < 2 ^ 16"
  using unat32 [of x] by (simp_all add: half_values)

lemma uc_mult:
  assumes "unat x < 2 ^ 16" "unat y < 2 ^ 16"
  shows "uc (x * y) = uc x * uc y"
proof -
  have "unat x * unat y < 2 ^ 16 * 2 ^ 16" using assms by (intro mult_strict_mono) simp_all
  then have "unat (x * y) = unat x * unat y" by (intro unat_mult_lem [THEN iffD1]) simp
  from arg_cong [OF this, where f = "of_nat :: nat \<Rightarrow> u64"] show ?thesis by simp
qed

lemma uc_split: "uc x = 2 ^ 16 * uc (HHALF x) + uc (LHALF x)"
proof -
  have "unat x = 2 ^ 16 * unat (HHALF x) + unat (LHALF x)" by (simp add: half_values)
  from arg_cong [OF this, where f = "of_nat :: nat \<Rightarrow> u64"] show ?thesis by simp
qed

lemma half_shift: "2 ^ 16 * uc x = up (HHALF x) + uc (LHUP x)"
proof -
  have m: "unat x * 2 ^ 16 mod 2 ^ 32 = 2 ^ 16 * (unat x mod 2 ^ 16)" by (simp add: mult_mod_right mult.commute)
  have "2 ^ 16 * (2 ^ 16 * q + r) = 2 ^ 32 * q + 2 ^ 16 * r" for q r :: nat by simp
  from this [of "unat x div 2 ^ 16" "unat x mod 2 ^ 16"]
  have "2 ^ 16 * unat x = 2 ^ 32 * unat (HHALF x) + unat (LHUP x)" unfolding half_values m mult_div_mod_eq .
  from arg_cong [OF this, where f = "of_nat :: nat \<Rightarrow> u64"] show ?thesis by (simp add: up_eq)
qed

section \<open>Multiplication\<close>

text \<open>Adding to and subtracting from a two-word accumulator.\<close>

lemma acc_add: "up (h + (y + of_bool (l + x < l))) + uc (l + x) = up h + uc l + (up y + uc x)"
  using uc_carry(1) [of x l] by (simp add: up_hom add.commute algebra_simps)

lemma acc_sub: "up (h - (y + of_bool (l < l - x))) + uc (l - x) = up h + uc l - (up y + uc x)"
  by (simp add: up_hom uc_carry(2) algebra_simps)

lemma acc_low: "up (if l + x < x then h + 1 else h) + uc (l + x) = up h + uc l + uc x"
  by (simp add: up_hom uc_carry(1) algebra_simps)

lemmas acc_simps = uu_up acc_low acc_add acc_sub half_shift [symmetric]

lemma uc_diff: "y \<le> x \<Longrightarrow> uc (x - y) = uc x - uc y"
proof -
  assume "y \<le> x"
  then have "\<not> x < x - y" using word_sub_le [of y x] by simp
  then show ?thesis by (simp add: uc_carry(2))
qed

lemma unat_diff_small: "unat x < 2 ^ 16 \<Longrightarrow> y \<le> x \<Longrightarrow> unat (x - y :: u32) < 2 ^ 16"
  by (simp add: unat_sub)

lemma diff_prod:
  assumes "y \<le> x" "y' \<le> x'" "unat x < 2 ^ 16" "unat x' < 2 ^ 16"
  shows "uc ((x - y) * (x' - y')) = (uc x - uc y) * (uc x' - uc y')"
  unfolding uc_diff [OF assms(1), symmetric] uc_diff [OF assms(2), symmetric]
  by (intro uc_mult unat_diff_small assms)

lemma lmulq_exact: "lmulq u v = uc u * uc v"
proof -
  define u1 u0 v1 v0 where d: "u1 = HHALF u" "u0 = LHALF u" "v1 = HHALF v" "v0 = LHALF v"
  have b: "unat u1 < 2 ^ 16" "unat u0 < 2 ^ 16" "unat v1 < 2 ^ 16" "unat v0 < 2 ^ 16" unfolding d by (rule half_small)+
  have e: "uc u = 2 ^ 16 * uc u1 + uc u0" "uc v = 2 ^ 16 * uc v1 + uc v0" unfolding d by (rule uc_split)+
  note m = uc_mult [OF b(2) b(4)] uc_mult [OF b(1) b(3)]
  show ?thesis
  proof (cases "u1 = 0 \<and> v1 = 0")
    case True
    then show ?thesis unfolding e using m(1) by (simp add: lmulq_def Let_def d)
  next
    case False
    have s: "up (h + HHALF h) + uc (LHUP h) = 2 ^ 32 * uc h + 2 ^ 16 * uc h" for h
      unfolding half_shift up_eq [of h, symmetric] by (simp add: up_hom)
    consider "u0 \<le> u1" "v1 \<le> v0" | "u0 \<le> u1" "\<not> v1 \<le> v0" | "\<not> u0 \<le> u1" "v1 \<le> v0" | "\<not> u0 \<le> u1" "\<not> v1 \<le> v0" by blast
    then show ?thesis
    proof cases
      case 1
      then have "u0 \<le> u1" "v1 \<le> v0" by simp_all
      note p = diff_prod [OF this b(1) b(4)]
      from 1 False show ?thesis unfolding e lmulq_def d [symmetric]
        by (simp only: Let_def prod.case if_True if_False not_True_eq_False not_False_eq_True acc_simps s m p) (simp add: algebra_simps)
    next
      case 2
      then have "u0 \<le> u1" "v0 \<le> v1" by simp_all
      note p = diff_prod [OF this b(1) b(3)]
      from 2 False show ?thesis unfolding e lmulq_def d [symmetric]
        by (simp only: Let_def prod.case if_True if_False not_True_eq_False not_False_eq_True acc_simps s m p) (simp add: algebra_simps)
    next
      case 3
      then have "u1 \<le> u0" "v1 \<le> v0" by simp_all
      note p = diff_prod [OF this b(2) b(4)]
      from 3 False show ?thesis unfolding e lmulq_def d [symmetric]
        by (simp only: Let_def prod.case if_True if_False not_True_eq_False not_False_eq_True acc_simps s m p) (simp add: algebra_simps)
    next
      case 4
      then have "u1 \<le> u0" "v0 \<le> v1" by simp_all
      note p = diff_prod [OF this b(2) b(3)]
      from 4 False show ?thesis unfolding e lmulq_def d [symmetric]
        by (simp only: Let_def prod.case if_True if_False not_True_eq_False not_False_eq_True acc_simps s m p) (simp add: algebra_simps)
    qed
  qed
qed

lemma mul_assemble:
  assumes "m = (ui_H u - ui_L u) * (ui_L v - ui_H v)" "low = uc (ui_L u) * uc (ui_L v)"
  shows "uu (ui_H u * ui_H v + m + ui_L low + ui_H low) (ui_L low) = u * v"
proof -
  have z: "(2 ^ 32 * 2 ^ 32 :: u64) = 0" by simp
  have m: "up ((x - x') * (y - y')) = 2 ^ 32 * ((uc x - uc x') * (uc y - uc y'))" for x x' y y'
    unfolding left_diff_distrib right_diff_distrib up_hom(2,4) unfolding up_eq by (simp add: algebra_simps)
  have "uu (ui_H u * ui_H v + m + ui_L low + ui_H low) (ui_L low) =
      up (ui_H u * ui_H v) + up m + up (ui_L low) + (up (ui_H low) + uc (ui_L low))"
    by (simp add: uu_up up_hom)
  also have "up (ui_H low) + uc (ui_L low) = low" by (simp add: uu_up [symmetric])
  also have "up (ui_H u * ui_H v) + up m + up (ui_L low) + low = 2 ^ 32 * (uc (ui_H u) * uc (ui_L v) + uc (ui_L u) * uc (ui_H v)) + low"
    unfolding up_low assms m unfolding up_hom(4) unfolding up_eq by (simp add: algebra_simps)
  also have "\<dots> = (2 ^ 32 * uc (ui_H u) + uc (ui_L u)) * (2 ^ 32 * uc (ui_H v) + uc (ui_L v))"
    using z by (simp add: assms(2) algebra_simps)
  finally show ?thesis by (simp only: uc_halves)
qed

lemma mul_core:
  "(if ui_H u = 0 \<and> ui_H v = 0 then lmulq (ui_L u) (ui_L v)
    else
      let low = lmulq (ui_L u) (ui_L v);
          (udiff, negmid) = (if ui_L u \<le> ui_H u then (ui_H u - ui_L u, False) else (ui_L u - ui_H u, True));
          (vdiff, negmid) = (if ui_H v \<le> ui_L v then (ui_L v - ui_H v, negmid) else (ui_H v - ui_L v, \<not> negmid));
          mid = udiff * vdiff;
          high = ui_H u * ui_H v
      in uu (high + (if negmid then - mid else mid) + ui_L low + ui_H low) (ui_L low)) = u * v"
proof (cases "ui_H u = 0 \<and> ui_H v = 0")
  case True
  then show ?thesis using uc_halves [of u] uc_halves [of v] by (simp add: lmulq_exact)
next
  case False
  then show ?thesis
    by (cases "ui_L u \<le> ui_H u"; cases "ui_H v \<le> ui_L v";
        simp only: Let_def lmulq_exact prod.case if_True if_False not_True_eq_False not_False_eq_True;
        intro mul_assemble refl; simp add: algebra_simps)
qed

lemma muldi3_exact: "muldi3 a b = a * b"
  by (cases "0 \<le> sint a"; cases "0 \<le> sint b";
      simp only: muldi3_def Let_def prod.case if_True if_False not_True_eq_False not_False_eq_True mul_core [unfolded Let_def]; simp)

section \<open>Correctness\<close>

lemma unat_uu: "unat (uu h l) = unat h * 2 ^ 32 + unat l"
proof -
  have "unat h * 2 ^ 32 + unat l < 2 ^ 64" using unat32 [of h] unat32 [of l] by simp
  then have "unat (of_nat (unat h * 2 ^ 32 + unat l) :: u64) = unat h * 2 ^ 32 + unat l"
    by (intro trans [OF unat_of_nat]) simp
  then show ?thesis by (simp add: uu_up up_eq mult.commute)
qed

lemma unat_halves: "unat a = unat (ui_H a) * 2 ^ 32 + unat (ui_L a)"
  using unat_uu [of "ui_H a" "ui_L a"] by simp

lemma sint_halves: "sint a = sint (ui_H a) * 2 ^ 32 + uint (ui_L a)"
proof -
  have b: "bit a 63 = bit (ui_H a) 31" by (simp add: bit_halves)
  have s: "sint x = uint x - (if bit x (LENGTH('b) - 1) then 2 ^ LENGTH('b) else 0)" for x :: "'b::len word"
    by (cases "bit x (LENGTH('b) - 1)") (auto simp: sint_uint signed_take_bit_eq_take_bit_minus bit_unsigned_iff
        take_bit_int_eq_self_iff)
  show ?thesis
    using s [of a] s [of "ui_H a"] b arg_cong [OF unat_halves [of a], of int] by (cases "bit a 63") simp_all
qed

text \<open>C35: the additive and bitwise routines compute the operation of the 64-bit ring, and \<^verbatim>\<open>__muldi3\<close>, which
  multiplies by parts, computes the product.\<close>

theorem millicode_ring:
  "adddi3 a b = a + b \<and> subdi3 a b = a - b \<and> negdi2 a = - a \<and> muldi3 a b = a * b \<and>
   anddi3 a b = a AND b \<and> iordi3 a b = a OR b \<and> xordi3 a b = a XOR b \<and> one_cmpldi2 a = NOT a"
proof (intro conjI)
  have e: "2 ^ 32 * uc (ui_H c) = c - uc (ui_L c)" for c using uc_halves [of c] by (simp add: algebra_simps)
  show "adddi3 a b = a + b" "subdi3 a b = a - b" "negdi2 a = - a"
    by (simp_all add: adddi3_def subdi3_def negdi2_def Let_def uu_up up_hom uc_carry) (simp_all add: up_eq e [simplified])
  show "muldi3 a b = a * b" by (rule muldi3_exact)
qed (auto simp: anddi3_def iordi3_def xordi3_def one_cmpldi2_def bit_eq_iff bit_uu bit_halves bit_simps)

lemma bit_u64: "bit (a :: u64) k \<Longrightarrow> k < 64"
  using bit_imp_le_length [of a k] by simp

lemmas shift32_defs = shl32_def shr32_def sar32_def

lemma shl_exact: "ashldi3 a n = (if n < 64 then Some (push_bit n a) else None)" "lshldi3 a n = (if n < 64 then Some (push_bit n a) else None)"
  by (auto simp: ashldi3_def lshldi3_def shift32_defs bit_eq_iff [where 'a = u64] bit_uu bit_halves bit_simps)

lemma lshr_exact: "lshrdi3 a n = (if n < 64 then Some (drop_bit n a) else None)"
  by (auto simp: lshrdi3_def shift32_defs bit_eq_iff [where 'a = u64] bit_uu bit_halves bit_simps ac_simps
      dest: bit_u64)

lemma bit_sar:
  "bit (signed_drop_bit n (x :: u32)) k \<longleftrightarrow> k < 32 \<and> bit x (if n + k < 32 then n + k else 31)"
  "bit (signed_drop_bit n (y :: u64)) k \<longleftrightarrow> k < 64 \<and> bit y (if n + k < 64 then n + k else 63)"
  by (auto simp: bit_signed_drop_bit_iff dest: bit_imp_le_length)

lemma bit_shift32: "bit (drop_bit n (x :: u32)) k \<longleftrightarrow> bit x (n + k)" "bit (push_bit n (x :: u32)) k \<longleftrightarrow> k < 32 \<and> n \<le> k \<and> bit x (k - n)"
  by (auto simp: bit_simps)

lemma ashr_exact: "ashrdi3 a n = (if n < 64 then Some (signed_drop_bit n a) else None)"
proof (cases "n = 0 \<or> 64 \<le> n")
  case True
  then show ?thesis by (auto simp: ashrdi3_def shift32_defs)
next
  case False
  have "ashrdi3 a n = Some (if 32 \<le> n then uu (signed_drop_bit 1 (signed_drop_bit 31 (ui_H a))) (signed_drop_bit (n - 32) (ui_H a))
      else uu (signed_drop_bit n (ui_H a)) (drop_bit n (ui_L a) OR push_bit (32 - n) (ui_H a)))"
    using False by (auto simp: ashrdi3_def shift32_defs)
  moreover have "\<dots> = Some (signed_drop_bit n a)"
    using False by (auto simp: bit_eq_iff [where 'a = u64] bit_uu bit_halves bit_sar bit_shift32 bit_or_iff ac_simps)
      (metis le_add_diff_inverse not_less)
  ultimately show ?thesis using False by simp
qed

text \<open>C36: the shifts by less than 64 are the shifts of the 64-bit word, and a larger count makes one of the machine's
  shifts undefined; the comparisons return 0, 1 or 2 as the first argument is less than, equal to or greater than the
  second.\<close>

theorem millicode_shift_compare:
  "ashldi3 a n = (if n < 64 then Some (push_bit n a) else None) \<and>
   lshldi3 a n = (if n < 64 then Some (push_bit n a) else None) \<and>
   lshrdi3 a n = (if n < 64 then Some (drop_bit n a) else None) \<and>
   ashrdi3 a n = (if n < 64 then Some (signed_drop_bit n a) else None) \<and>
   cmpdi2 a b = (if sint a < sint b then 0 else if a = b then 1 else 2) \<and>
   ucmpdi2 a b = (if a < b then 0 else if a = b then 1 else 2)"
proof -
  have l: "uint x < 2 ^ 32" "0 \<le> uint x" for x :: u32 using uint_lt2p [of x] by simp_all
  have lex: "h * 2 ^ 32 + k < h' * 2 ^ 32 + k' \<longleftrightarrow> h < h' \<or> h = h' \<and> k < k'"
    if "0 \<le> k" "k < 2 ^ 32" "0 \<le> k'" "k' < 2 ^ 32" for h h' k k' :: int
    using that by (cases h h' rule: linorder_cases) auto
  have eq: "a = b \<longleftrightarrow> ui_H a = ui_H b \<and> ui_L a = ui_L b" using uu_halves(1) [of a] uu_halves(1) [of b] by metis
  have "cmpdi2 a b = (if sint a < sint b then 0 else if a = b then 1 else 2)"
    unfolding sint_halves lex [OF l(2,1) l(2,1)] by (auto simp: cmpdi2_def word_less_def eq signed_word_eqI unsigned_word_eqI)
  moreover have "ucmpdi2 a b = (if a < b then 0 else if a = b then 1 else 2)"
    using unat32 [of "ui_L a"] unat32 [of "ui_L b"]
    by (auto simp: ucmpdi2_def unat_halves [of a] unat_halves [of b] word_less_nat_alt eq word_unat_eq_iff [where 'a = 32])
  ultimately show ?thesis by (simp add: shl_exact lshr_exact ashr_exact)
qed

end
