(* ===== verification/Qdivrem.thy ===== *)
theory Qdivrem
  imports Millicode
begin

text \<open>
  \<^verbatim>\<open>common/gcc-millicode/qdivrem.c\<close> and the four routines that call it: 64-bit division by Knuth's algorithm D in base
  65536.  The arrays \<^verbatim>\<open>uspace\<close>, \<^verbatim>\<open>vspace\<close>, \<^verbatim>\<open>qspace\<close> are lists of five digits and the pointers \<^verbatim>\<open>u\<close>, \<^verbatim>\<open>v\<close>, \<^verbatim>\<open>q\<close>
  offsets into them; an access outside gives \<open>None\<close>, and so does a division by zero.  The contents of uninitialised
  array elements (\<^verbatim>\<open>vspace[0]\<close> and \<^verbatim>\<open>qspace\<close>) are arguments.
\<close>

section \<open>Definitions\<close>

type_synonym digit = u16

abbreviation ud :: "digit \<Rightarrow> u32" where "ud \<equiv> ucast"
abbreviation dg :: "u32 \<Rightarrow> digit" where "dg \<equiv> ucast"

abbreviation (input) BASE :: u32 where "BASE \<equiv> 65536"

definition COMBINE :: "u32 \<Rightarrow> u32 \<Rightarrow> u32" where
  "COMBINE a b = push_bit 16 a OR b"

definition div32 :: "u32 \<Rightarrow> u32 \<Rightarrow> u32 option" where
  "div32 x y = (if y = 0 then None else Some (x div y))"

definition mod32 :: "u32 \<Rightarrow> u32 \<Rightarrow> u32 option" where
  "mod32 x y = (if y = 0 then None else Some (x mod y))"

text \<open>\<open>p\<close> is the offset of the pointer passed, \<open>left\<close> what remains of \<^verbatim>\<open>len\<close>.\<close>

fun shl_from :: "nat \<Rightarrow> nat \<Rightarrow> nat \<Rightarrow> digit list \<Rightarrow> digit list option" where
  "shl_from p 0 sh ds = do {
     x \<leftarrow> rd ds p;
     wr ds p (dg (LHALF (push_bit sh (ud x))))
   }"
| "shl_from p (Suc left) sh ds = do {
     x \<leftarrow> rd ds p;
     y \<leftarrow> rd ds (p + 1);
     ds \<leftarrow> wr ds p (dg (LHALF (push_bit sh (ud x)) OR drop_bit (16 - sh) (ud y)));
     shl_from (p + 1) left sh ds
   }"

definition shl :: "nat \<Rightarrow> nat \<Rightarrow> nat \<Rightarrow> digit list \<Rightarrow> digit list option" where
  "shl p len sh ds = shl_from p len sh ds"

text \<open>The loop over the leading zeros of the divisor; 1 digit left means the other plan.\<close>

function skip_v :: "nat \<Rightarrow> nat \<Rightarrow> digit list \<Rightarrow> (nat \<times> nat) option" where
  "skip_v n vo vs = do {
     x \<leftarrow> rd vs (vo + 1);
     if x \<noteq> 0 then Some (n, vo)
     else if n - 1 = 1 then Some (1, vo)
     else skip_v (n - 1) (vo + 1) vs
   }"
  by pat_completeness auto
termination
  by (relation "measure (\<lambda>(n, vo, vs). length vs - vo)") (auto simp: rd_eq_Some)

definition short_division :: "digit list \<Rightarrow> digit \<Rightarrow> (u64 \<times> u64) option" where
  "short_division us v2 = do {
     t \<leftarrow> Some (ud v2);
     u1 \<leftarrow> rd us 1;
     u2 \<leftarrow> rd us 2;
     u3 \<leftarrow> rd us 3;
     u4 \<leftarrow> rd us 4;
     q1 \<leftarrow> div32 (ud u1) t;
     r \<leftarrow> mod32 (ud u1) t;
     rbj \<leftarrow> Some (COMBINE r (ud u2));
     q2 \<leftarrow> div32 rbj t;
     r \<leftarrow> mod32 rbj t;
     rbj \<leftarrow> Some (COMBINE r (ud u3));
     q3 \<leftarrow> div32 rbj t;
     r \<leftarrow> mod32 rbj t;
     rbj \<leftarrow> Some (COMBINE r (ud u4));
     q4 \<leftarrow> div32 rbj t;
     r \<leftarrow> mod32 rbj t;
     Some (uu (COMBINE (ud (dg q1)) (ud (dg q2))) (COMBINE (ud (dg q3)) (ud (dg q4))), ucast r)
   }"

function skip_u :: "int \<Rightarrow> nat \<Rightarrow> digit list \<Rightarrow> (int \<times> nat) option" where
  "skip_u m uo us = do {
     x \<leftarrow> rd us (uo + 1);
     if x = 0 then skip_u (m - 1) (uo + 1) us else Some (m, uo)
   }"
  by pat_completeness auto
termination
  by (relation "measure (\<lambda>(m, uo, us). length us - uo)") (auto simp: rd_eq_Some)

fun zero_q :: "nat \<Rightarrow> digit list \<Rightarrow> digit list option" where
  "zero_q 0 qs = Some qs"
| "zero_q (Suc i) qs = do { qs \<leftarrow> wr qs i 0; zero_q i qs }"

partial_function (option) norm_shift :: "u32 \<Rightarrow> nat \<Rightarrow> nat option" where
  "norm_shift t d = (if t < 32768 then norm_shift (push_bit 1 t) (d + 1) else Some d)"

partial_function (option) qhat_loop :: "digit \<Rightarrow> digit \<Rightarrow> digit \<Rightarrow> u32 \<Rightarrow> u32 \<Rightarrow> u32 option" where
  "qhat_loop v1 v2 uj2 qhat rhat =
     (if COMBINE rhat (ud uj2) < ud v2 * qhat then
        if BASE \<le> rhat + ud v1 then Some (qhat - 1)
        else qhat_loop v1 v2 uj2 (qhat - 1) (rhat + ud v1)
      else Some qhat)"

text \<open>The entry of the loop at the label.\<close>

definition qhat_too_big :: "digit \<Rightarrow> digit \<Rightarrow> digit \<Rightarrow> u32 \<Rightarrow> u32 \<Rightarrow> u32 option" where
  "qhat_too_big v1 v2 uj2 qhat rhat =
     (if BASE \<le> rhat + ud v1 then Some (qhat - 1)
      else qhat_loop v1 v2 uj2 (qhat - 1) (rhat + ud v1))"

definition guess_q :: "digit \<Rightarrow> digit \<Rightarrow> digit \<Rightarrow> digit \<Rightarrow> digit \<Rightarrow> u32 option" where
  "guess_q v1 v2 uj0 uj1 uj2 =
     (if uj0 = v1 then qhat_too_big v1 v2 uj2 BASE (ud uj1)
      else do {
        nn \<leftarrow> Some (COMBINE (ud uj0) (ud uj1));
        qhat \<leftarrow> div32 nn (ud v1);
        rhat \<leftarrow> mod32 nn (ud v1);
        qhat_loop v1 v2 uj2 qhat rhat
      })"

text \<open>\<open>a\<close> is the index of \<^verbatim>\<open>u[j]\<close>, \<open>b\<close> that of \<^verbatim>\<open>v[0]\<close>.\<close>

fun mul_sub :: "nat \<Rightarrow> nat \<Rightarrow> nat \<Rightarrow> digit list \<Rightarrow> u32 \<Rightarrow> u32 \<Rightarrow> digit list \<Rightarrow> (u32 \<times> digit list) option" where
  "mul_sub 0 a b vs qhat t us = Some (t, us)"
| "mul_sub (Suc i) a b vs qhat t us = do {
     x \<leftarrow> rd us (a + Suc i);
     y \<leftarrow> rd vs (b + Suc i);
     t \<leftarrow> Some (ud x - ud y * qhat - t);
     us \<leftarrow> wr us (a + Suc i) (dg (LHALF t));
     mul_sub i a b vs qhat ((BASE - HHALF t) AND (BASE - 1)) us
   }"

fun add_back :: "nat \<Rightarrow> nat \<Rightarrow> nat \<Rightarrow> digit list \<Rightarrow> u32 \<Rightarrow> digit list \<Rightarrow> (u32 \<times> digit list) option" where
  "add_back 0 a b vs t us = Some (t, us)"
| "add_back (Suc i) a b vs t us = do {
     x \<leftarrow> rd us (a + Suc i);
     y \<leftarrow> rd vs (b + Suc i);
     t \<leftarrow> Some (t + (ud x + ud y));
     us \<leftarrow> wr us (a + Suc i) (dg (LHALF t));
     add_back i a b vs (HHALF t) us
   }"

definition div_digit ::
  "nat \<Rightarrow> nat \<Rightarrow> digit list \<Rightarrow> digit \<Rightarrow> digit \<Rightarrow> nat \<Rightarrow> digit list \<Rightarrow> (u32 \<times> digit list) option" where
  "div_digit n b vs v1 v2 a us = do {
     uj0 \<leftarrow> rd us a;
     uj1 \<leftarrow> rd us (a + 1);
     uj2 \<leftarrow> rd us (a + 2);
     qhat \<leftarrow> guess_q v1 v2 uj0 uj1 uj2;
     (t, us) \<leftarrow> mul_sub n a b vs qhat 0 us;
     x \<leftarrow> rd us a;
     t \<leftarrow> Some (ud x - t);
     us \<leftarrow> wr us a (dg (LHALF t));
     if HHALF t \<noteq> 0 then do {
       (t, us) \<leftarrow> add_back n a b vs 0 us;
       x \<leftarrow> rd us a;
       us \<leftarrow> wr us a (dg (LHALF (ud x + t)));
       Some (qhat - 1, us)
     }
     else Some (qhat, us)
   }"

text \<open>The loop on \<^verbatim>\<open>j\<close>: \<open>a\<close> and \<open>q\<close> are the indices of \<^verbatim>\<open>u[j]\<close> and \<^verbatim>\<open>q[j]\<close>, \<open>left\<close> the iterations after this one.\<close>

fun div_loop ::
  "nat \<Rightarrow> nat \<Rightarrow> digit list \<Rightarrow> digit \<Rightarrow> digit \<Rightarrow> nat \<Rightarrow> nat \<Rightarrow> nat \<Rightarrow> digit list \<Rightarrow> digit list \<Rightarrow>
   (digit list \<times> digit list) option" where
  "div_loop n b vs v1 v2 left a q us qs = do {
     (qhat, us) \<leftarrow> div_digit n b vs v1 v2 a us;
     qs \<leftarrow> wr qs q (dg qhat);
     case left of
       0 \<Rightarrow> Some (us, qs)
     | Suc left \<Rightarrow> div_loop n b vs v1 v2 left (a + 1) (q + 1) us qs
   }"

text \<open>\<open>i\<close> is the index of the digit shifted, \<open>left\<close> how many.\<close>

fun rem_shift :: "nat \<Rightarrow> nat \<Rightarrow> nat \<Rightarrow> digit list \<Rightarrow> digit list option" where
  "rem_shift d 0 i us = wr us i 0"
| "rem_shift d (Suc left) i us = do {
     x \<leftarrow> rd us i;
     y \<leftarrow> rd us (i - 1);
     us \<leftarrow> wr us i (dg (drop_bit d (ud x) OR LHALF (push_bit (16 - d) (ud y))));
     rem_shift d left (i - 1) us
   }"

definition whole :: "digit list \<Rightarrow> u64 option" where
  "whole ds = do {
     d1 \<leftarrow> rd ds 1;
     d2 \<leftarrow> rd ds 2;
     d3 \<leftarrow> rd ds 3;
     d4 \<leftarrow> rd ds 4;
     Some (uu (COMBINE (ud d1) (ud d2)) (COMBINE (ud d3) (ud d4)))
   }"

definition digits :: "digit \<Rightarrow> u64 \<Rightarrow> digit list" where
  "digits x w = [x, dg (HHALF (ui_H w)), dg (LHALF (ui_H w)), dg (HHALF (ui_L w)), dg (LHALF (ui_L w))]"

definition algorithm_D :: "nat \<Rightarrow> nat \<Rightarrow> digit list \<Rightarrow> digit list \<Rightarrow> digit list \<Rightarrow> bool \<Rightarrow> (u64 \<times> u64 option) option" where
  "algorithm_D n vo us vs qs arq = do {
     (m, uo) \<leftarrow> skip_u (4 - int n) 0 us;
     qs \<leftarrow> zero_q (nat (4 - m)) qs;
     qo \<leftarrow> Some (nat (4 - m));
     t \<leftarrow> rd vs (vo + 1);
     d \<leftarrow> norm_shift (ud t) 0;
     us \<leftarrow> (if 0 < d then shl uo (nat m + n) d us else Some us);
     vs \<leftarrow> (if 0 < d then shl (vo + 1) (n - 1) d vs else Some vs);
     v1 \<leftarrow> rd vs (vo + 1);
     v2 \<leftarrow> rd vs (vo + 2);
     (us, qs) \<leftarrow> div_loop n vo vs v1 v2 (nat m) uo qo us qs;
     r \<leftarrow> (if arq then do {
             us \<leftarrow> (if d \<noteq> 0 then rem_shift d n (uo + nat m + n) us else Some us);
             r \<leftarrow> whole us;
             Some (Some r)
           }
           else Some None);
     q \<leftarrow> whole qs;
     Some (q, r)
   }"

definition qdivrem :: "digit \<Rightarrow> digit list \<Rightarrow> u64 \<Rightarrow> u64 \<Rightarrow> bool \<Rightarrow> (u64 \<times> u64 option) option" where
  "qdivrem vj qj ull vll arq =
     (if vll = 0 then None
      else if ull < vll then Some (0, if arq then Some ull else None)
      else do {
        us \<leftarrow> Some (digits 0 ull);
        vs \<leftarrow> Some (digits vj vll);
        (n, vo) \<leftarrow> skip_v 4 0 vs;
        if n = 1 then do {
          v2 \<leftarrow> rd vs (vo + 2);
          (q, r) \<leftarrow> short_division us v2;
          Some (q, if arq then Some r else None)
        }
        else algorithm_D n vo us vs qj arq
      })"

definition udivdi3 :: "digit \<Rightarrow> digit list \<Rightarrow> u64 \<Rightarrow> u64 \<Rightarrow> u64 option" where
  "udivdi3 vj qj a b = do { (q, r) \<leftarrow> qdivrem vj qj a b False; Some q }"

definition umoddi3 :: "digit \<Rightarrow> digit list \<Rightarrow> u64 \<Rightarrow> u64 \<Rightarrow> u64 option" where
  "umoddi3 vj qj a b = do { (q, r) \<leftarrow> qdivrem vj qj a b True; r }"

definition divdi3 :: "digit \<Rightarrow> digit list \<Rightarrow> u64 \<Rightarrow> u64 \<Rightarrow> u64 option" where
  "divdi3 vj qj a b = do {
     (ua, neg) \<leftarrow> Some (if sint a < 0 then (- a, True) else (a, False));
     (ub, neg) \<leftarrow> Some (if sint b < 0 then (- b, \<not> neg) else (b, neg));
     (uq, r) \<leftarrow> qdivrem vj qj ua ub False;
     Some (if neg then - uq else uq)
   }"

definition moddi3 :: "digit \<Rightarrow> digit list \<Rightarrow> u64 \<Rightarrow> u64 \<Rightarrow> u64 option" where
  "moddi3 vj qj a b = do {
     (ua, neg) \<leftarrow> Some (if sint a < 0 then (- a, True) else (a, False));
     ub \<leftarrow> Some (if sint b < 0 then - b else b);
     (q, r) \<leftarrow> qdivrem vj qj ua ub True;
     ur \<leftarrow> r;
     Some (if neg then - ur else ur)
   }"

section \<open>Digits as numbers\<close>

lemma uint16: "0 \<le> uint (x :: digit)" "uint x < 65536" "uint x \<le> 65535"
  using unsigned_less [of x, where 'a = int] by simp_all

lemma uint_ud [simp]: "uint (ud x) = uint x"
  using uint16 [of x] by (simp add: unsigned_ucast_eq take_bit_int_eq_self_iff)

lemma uint_dg: "uint (dg x) = uint x mod 65536"
  by (simp add: unsigned_ucast_eq take_bit_eq_mod)

lemma uint_HHALF: "uint (HHALF x) = uint x div 65536"
  by (simp add: HHALF_def drop_bit_eq_div uint_div)

lemma uint_LHALF: "uint (LHALF x) = uint x mod 65536"
  by (simp add: LHALF_eq take_bit_eq_mod uint_mod)

lemma uint_dg_LHALF [simp]: "uint (dg (LHALF x)) = uint x mod 65536"
  by (simp add: uint_dg uint_LHALF)

lemma uint_mask_BASE: "uint (x AND (BASE - 1)) = uint x mod 65536"
  using uint_LHALF [of x] by (simp add: LHALF_def)

lemma uint_ops32: "uint (x - y :: u32) = (uint x - uint y) mod 4294967296" "uint (x * y :: u32) = uint x * uint y mod 4294967296"
  "uint (x + y :: u32) = (uint x + uint y) mod 4294967296"
  by (simp_all add: uint_word_ariths)

lemma OR_is_sum: "push_bit 16 a AND b = 0 \<Longrightarrow> uint a < 65536 \<Longrightarrow> uint b < 65536 \<Longrightarrow> uint (push_bit 16 a OR b :: u32) = uint a * 65536 + uint b"
  by (simp add: disjunctive_add_eq_or [symmetric] uint_ops32 push_bit_eq_mult)

lemma small_bits: "uint (b :: u32) < 65536 \<Longrightarrow> push_bit 16 a AND b = 0"
proof -
  assume "uint b < 65536"
  then have "take_bit 16 b = b" by (intro word_uint_eqI) (simp add: unsigned_take_bit_eq take_bit_int_eq_self_iff)
  then have "\<not> bit b k" if "16 \<le> k" for k using that by (metis bit_take_bit_iff not_less)
  then show ?thesis by (auto simp: bit_eq_iff bit_simps)
qed

lemma uint_COMBINE: "uint a < 65536 \<Longrightarrow> uint b < 65536 \<Longrightarrow> uint (COMBINE a b) = uint a * 65536 + uint b"
  unfolding COMBINE_def by (intro OR_is_sum small_bits)

lemma borrow_digit:
  fixes x y q t :: int
  assumes "0 \<le> x" "x \<le> 65535" "0 \<le> y" "y \<le> 65535" "0 \<le> q" "q \<le> 65535" "0 \<le> t" "t \<le> 65535"
  defines "z \<equiv> x - y * q - t"
  defines "c \<equiv> (65536 - (z mod 4294967296) div 65536) mod 65536"
  shows "(z mod 4294967296) mod 65536 = z + 65536 * c"
proof -
  have "y * q \<le> 65535 * 65535" using assms by (intro mult_mono) simp_all
  moreover have "0 \<le> y * q" using assms by simp
  ultimately have z: "- 4294901760 \<le> z" "z < 65536" using assms(1-8) unfolding z_def by linarith+
  show ?thesis
  proof (cases "z < 0")
    case True
    have "(z + 4294967296) mod 4294967296 = z + 4294967296" by (rule mod_pos_pos_trivial) (use True z in simp_all)
    then have w: "z mod 4294967296 = z + 4294967296" unfolding mod_add_self2 .
    have "(z + 4294967296) div 65536 = z div 65536 + 65536" by simp
    moreover have "- 65535 \<le> z div 65536" "z div 65536 < 0" using z True by simp_all
    ultimately have "c = - (z div 65536)" by (simp add: c_def w)
    moreover have "(z + 4294967296) mod 65536 = z mod 65536" using mod_mult_self1 [of z 65536 65536] by simp
    ultimately show ?thesis using minus_mult_div_eq_mod [of z 65536] unfolding w by linarith
  next
    case False
    then show ?thesis using z by (simp add: c_def)
  qed
qed

lemma mul_digit:
  fixes qhat t :: u32 and x y :: digit
  defines "w \<equiv> ud x - ud y * qhat - t"
  assumes "uint qhat < 65536" "uint t < 65536"
  shows "uint ((BASE - HHALF w) AND (BASE - 1)) < 65536"
    "uint (dg (LHALF w)) = uint x - uint y * uint qhat - uint t + 65536 * uint ((BASE - HHALF w) AND (BASE - 1))"
proof -
  show "uint ((BASE - HHALF w) AND (BASE - 1)) < 65536" unfolding uint_mask_BASE by simp
  have q: "0 \<le> uint qhat" "uint qhat \<le> 65535" "0 \<le> uint t" "uint t \<le> 65535" using assms(2,3) by simp_all
  note b = borrow_digit [OF uint16(1,3) uint16(1,3) q, of x y]
  have "uint w = (uint x - uint y * uint qhat - uint t) mod 4294967296" unfolding w_def uint_ops32 uint_ud mod_diff_left_eq mod_diff_right_eq ..
  moreover have "uint ((BASE - HHALF w) AND (BASE - 1)) = (65536 - uint w div 65536) mod 65536"
    unfolding uint_mask_BASE uint_ops32 uint_HHALF by (subst mod_mod_cancel) simp_all
  ultimately show "uint (dg (LHALF w)) = uint x - uint y * uint qhat - uint t + 65536 * uint ((BASE - HHALF w) AND (BASE - 1))"
    unfolding uint_dg_LHALF using b by (simp only:)
qed

text \<open>The value of the \<open>k\<close> digits from index \<open>a\<close> on, most significant first.\<close>

fun dig :: "digit list \<Rightarrow> nat \<Rightarrow> nat \<Rightarrow> int" where
  "dig ds a 0 = 0"
| "dig ds a (Suc k) = dig ds a k * 65536 + uint (ds ! (a + k))"

lemma dig_cong: "\<forall>i. a \<le> i \<and> i < a + k \<longrightarrow> ds ! i = es ! i \<Longrightarrow> dig ds a k = dig es a k"
  by (induction k) auto

lemma dig_upd [simp]: "i < a \<or> a + k \<le> i \<Longrightarrow> dig (ds[i := x]) a k = dig ds a k"
  by (rule dig_cong) auto

lemma dig_append: "dig ds a (j + k) = dig ds a j * 65536 ^ k + dig ds (a + j) k"
  by (induction k) (auto simp: algebra_simps)

lemma dig_high: "dig ds a (Suc k) = uint (ds ! a) * 65536 ^ k + dig ds (Suc a) k"
  using dig_append [of ds a 1 k] by simp

lemma dig_bounds: "0 \<le> dig ds a k" "dig ds a k < 65536 ^ k"
proof (induction k)
  case (Suc k)
  {
    case 1
    then show ?case using Suc.IH(1) by simp
  next
    case 2
    have "dig ds a k * 65536 \<le> (65536 ^ k - 1) * 65536" using Suc.IH(2) by simp
    then show ?case using uint16(2) [of "ds ! (a + k)"] by (simp add: algebra_simps)
  }
qed simp_all

lemma mul_sub_spec:
  assumes "a + i < length us" "b + i < length vs" "uint qhat < 65536" "uint t < 65536"
  shows "\<exists>t' us'. mul_sub i a b vs qhat t us = Some (t', us') \<and> uint t' < 65536 \<and> length us' = length us \<and>
    (\<forall>k. k \<le> a \<or> a + i < k \<longrightarrow> us' ! k = us ! k) \<and>
    dig us' (a + 1) i = dig us (a + 1) i - uint qhat * dig vs (b + 1) i - uint t + 65536 ^ i * uint t'"
  using assms
proof (induction i arbitrary: t us)
  case (Suc i)
  let ?w = "ud (us ! (a + Suc i)) - ud (vs ! (b + Suc i)) * qhat - t"
  let ?t = "(BASE - HHALF ?w) AND (BASE - 1)" and ?us = "us[a + Suc i := dg (LHALF ?w)]"
  note m = mul_digit [OF Suc.prems(3,4), of "us ! (a + Suc i)" "vs ! (b + Suc i)"]
  obtain t' us' where ih: "mul_sub i a b vs qhat ?t ?us = Some (t', us')" "uint t' < 65536" "length us' = length us"
      "\<forall>k. k \<le> a \<or> a + i < k \<longrightarrow> us' ! k = ?us ! k"
      "dig us' (a + 1) i = dig ?us (a + 1) i - uint qhat * dig vs (b + 1) i - uint ?t + 65536 ^ i * uint t'"
    using Suc.IH [of ?us ?t] Suc.prems m(1) by auto
  have "us' ! (a + Suc i) = dg (LHALF ?w)" using ih(4) Suc.prems(1) by simp
  then have "dig us' (a + 1) (Suc i) = dig us (a + 1) (Suc i) - uint qhat * dig vs (b + 1) (Suc i) - uint t + 65536 ^ Suc i * uint t'"
    using ih(5) m(2) by (simp add: algebra_simps del: uint_dg_LHALF)
  moreover have "mul_sub (Suc i) a b vs qhat t us = Some (t', us')" using ih(1) Suc.prems(1,2) by simp
  ultimately show ?case using ih(2-4) by (intro exI [of _ t'] exI [of _ us']) simp
qed simp

lemma add_digit:
  fixes t :: u32 and x y :: digit
  defines "w \<equiv> t + (ud x + ud y)"
  assumes "uint t < 65536"
  shows "uint (HHALF w) < 65536" "uint (dg (LHALF w)) = uint x + uint y + uint t - 65536 * uint (HHALF w)"
proof -
  have "uint x + uint y + uint t < 4294967296" "0 \<le> uint x + uint y + uint t" using uint16 [of x] uint16 [of y] assms(2) by simp_all
  then have w: "uint w = uint x + uint y + uint t" by (simp add: w_def uint_ops32 mod_simps ac_simps)
  then show "uint (HHALF w) < 65536" using uint16 [of x] uint16 [of y] assms(2) by (simp add: uint_HHALF)
  show "uint (dg (LHALF w)) = uint x + uint y + uint t - 65536 * uint (HHALF w)"
    unfolding uint_dg_LHALF uint_HHALF w by (simp add: minus_mult_div_eq_mod)
qed

lemma add_back_spec:
  assumes "a + i < length us" "b + i < length vs" "uint t < 65536"
  shows "\<exists>t' us'. add_back i a b vs t us = Some (t', us') \<and> uint t' < 65536 \<and> length us' = length us \<and>
    (\<forall>k. k \<le> a \<or> a + i < k \<longrightarrow> us' ! k = us ! k) \<and>
    dig us' (a + 1) i + 65536 ^ i * uint t' = dig us (a + 1) i + dig vs (b + 1) i + uint t"
  using assms
proof (induction i arbitrary: t us)
  case (Suc i)
  let ?w = "t + (ud (us ! (a + Suc i)) + ud (vs ! (b + Suc i)))"
  let ?us = "us[a + Suc i := dg (LHALF ?w)]"
  note m = add_digit [OF Suc.prems(3), of "us ! (a + Suc i)" "vs ! (b + Suc i)"]
  obtain t' us' where ih: "add_back i a b vs (HHALF ?w) ?us = Some (t', us')" "uint t' < 65536" "length us' = length us"
      "\<forall>k. k \<le> a \<or> a + i < k \<longrightarrow> us' ! k = ?us ! k"
      "dig us' (a + 1) i + 65536 ^ i * uint t' = dig ?us (a + 1) i + dig vs (b + 1) i + uint (HHALF ?w)"
    using Suc.IH [of ?us "HHALF ?w"] Suc.prems m(1) by auto
  have "us' ! (a + Suc i) = dg (LHALF ?w)" using ih(4) Suc.prems(1) by simp
  then have "dig us' (a + 1) (Suc i) + 65536 ^ Suc i * uint t' = dig us (a + 1) (Suc i) + dig vs (b + 1) (Suc i) + uint t"
    using ih(5) m(2) by (simp add: algebra_simps del: uint_dg_LHALF)
  moreover have "add_back (Suc i) a b vs t us = Some (t', us')" using ih(1) Suc.prems(1,2) by simp
  ultimately show ?case using ih(2-4) by (intro exI [of _ t'] exI [of _ us']) simp
qed simp

section \<open>The estimate of a quotient digit\<close>

text \<open>\<open>r\<close> is the greatest digit whose product with the two leading digits of the divisor does not exceed the three
  leading digits of the dividend.\<close>

definition greatest_digit :: "int \<Rightarrow> int \<Rightarrow> int \<Rightarrow> bool" where
  "greatest_digit vv top3 r \<longleftrightarrow> 0 \<le> r \<and> r < 65536 \<and> r * vv \<le> top3 \<and> (\<forall>p. p < 65536 \<and> p * vv \<le> top3 \<longrightarrow> p \<le> r)"

lemma qhat_overshoot:
  fixes q v1 v2 r u2 :: int
  assumes "q < 65536" "0 \<le> q" "0 \<le> v2" "v2 < 65536" "65536 \<le> r" "0 \<le> u2"
  shows "q * (v1 * 65536 + v2) \<le> (q * v1 + r) * 65536 + u2"
proof -
  have "q * v2 \<le> 65535 * 65535" using assms by (intro mult_mono) simp_all
  moreover have "65536 * 65536 \<le> r * 65536" using assms(5) by simp
  ultimately show ?thesis using assms(6) by (simp add: algebra_simps)
qed

lemma qhat_loop_spec:
  fixes v1 v2 uj2 :: digit
  defines "vv \<equiv> uint v1 * 65536 + uint v2"
  assumes "0 < uint v1" "uint qhat * uint v1 + uint rhat = u2" "uint rhat < 65536" "uint qhat < 65536"
    "\<forall>p. p < 65536 \<and> p * vv \<le> u2 * 65536 + uint uj2 \<longrightarrow> p \<le> uint qhat"
  shows "\<exists>r. qhat_loop v1 v2 uj2 qhat rhat = Some r \<and> greatest_digit vv (u2 * 65536 + uint uj2) (uint r)"
  using assms(3-)
proof (induction "nat (65536 - uint rhat)" arbitrary: qhat rhat rule: less_induct)
  case less
  have t: "COMBINE rhat (ud uj2) < ud v2 * qhat \<longleftrightarrow> uint rhat * 65536 + uint uj2 < uint v2 * uint qhat"
  proof -
    have "uint v2 * uint qhat \<le> 65535 * 65535" using uint16 [of v2] less.prems(3) by (intro mult_mono) simp_all
    then show ?thesis using less.prems(2) uint16(2) [of uj2] by (simp add: word_less_def uint_COMBINE uint_ops32)
  qed
  have top: "u2 * 65536 + uint uj2 = uint qhat * (uint v1 * 65536) + (uint rhat * 65536 + uint uj2)"
    using less.prems(1) by (simp add: algebra_simps)
  show ?case
  proof (cases "uint rhat * 65536 + uint uj2 < uint v2 * uint qhat")
    case False
    then have "uint qhat * vv \<le> u2 * 65536 + uint uj2" unfolding top vv_def by (simp add: algebra_simps)
    then have "greatest_digit vv (u2 * 65536 + uint uj2) (uint qhat)" using less.prems by (simp add: greatest_digit_def)
    moreover have "qhat_loop v1 v2 uj2 qhat rhat = Some qhat" using False t by (subst qhat_loop.simps) simp
    ultimately show ?thesis by blast
  next
    case True
    have "0 \<le> uint rhat * 65536 + uint uj2" by simp
    then have "uint v2 * uint qhat \<noteq> 0" using True by linarith
    then have pos: "1 \<le> uint qhat" using uint_ge_0 [of qhat] by (cases "uint qhat = 0") (simp, linarith)
    then have q: "uint (qhat - 1) = uint qhat - 1" using less.prems(3) by (simp add: uint_ops32)
    have r: "uint (rhat + ud v1) = uint rhat + uint v1" using less.prems(2) uint16(2) [of v1] by (simp add: uint_ops32)
    have "u2 * 65536 + uint uj2 < uint qhat * vv" using True unfolding top vv_def by (simp add: algebra_simps)
    then have p: "\<forall>p. p < 65536 \<and> p * vv \<le> u2 * 65536 + uint uj2 \<longrightarrow> p \<le> uint (qhat - 1)"
      using less.prems(4) q by (metis int_one_le_iff_zero_less le_less linorder_not_less zle_diff1_eq)
    have u2: "uint (qhat - 1) * uint v1 + uint (rhat + ud v1) = u2" unfolding q r using less.prems(1) by (simp add: algebra_simps)
    have step: "qhat_loop v1 v2 uj2 qhat rhat = (if BASE \<le> rhat + ud v1 then Some (qhat - 1) else qhat_loop v1 v2 uj2 (qhat - 1) (rhat + ud v1))"
      using True t by (subst qhat_loop.simps) simp
    show ?thesis
    proof (cases "BASE \<le> rhat + ud v1")
      case True
      then have "65536 \<le> uint (rhat + ud v1)" by (simp add: word_le_def)
      then have "uint (qhat - 1) * vv \<le> u2 * 65536 + uint uj2"
        unfolding u2 [symmetric] vv_def using q less.prems(3) pos uint16 [of v2] uint16 [of uj2] by (intro qhat_overshoot) simp_all
      then show ?thesis using True step p q less.prems(3) pos by (auto simp: greatest_digit_def)
    next
      case False
      then have "uint (rhat + ud v1) < 65536" by (simp add: word_le_def)
      then show ?thesis
        using less.hyps [of "rhat + ud v1" "qhat - 1"] False step p u2 q r less.prems(3) assms(2) by auto
    qed
  qed
qed

lemma div_bounds:
  fixes a b c :: int
  assumes "0 < c"
  shows "a < b * c \<Longrightarrow> a div c < b" "b * c \<le> a \<Longrightarrow> b \<le> a div c"
proof -
  assume "a < b * c"
  moreover have "b * c \<le> (a div c) * c" if "b \<le> a div c" using that assms by simp
  moreover have "(a div c) * c \<le> a" using pos_mod_sign [OF assms, of a] div_mult_mod_eq [of a c] by linarith
  ultimately show "a div c < b" by linarith
next
  assume "b * c \<le> a"
  then have "(b * c) div c \<le> a div c" using assms by (rule zdiv_mono1)
  then show "b \<le> a div c" using assms by simp
qed

lemma drop_digit: "x * 65536 \<le> y * 65536 + z \<Longrightarrow> z < 65536 \<Longrightarrow> x \<le> (y :: int)"
  by linarith

lemma guess_q_spec:
  assumes "0 < uint v1" "uint uj0 \<le> uint v1"
  shows "\<exists>r. guess_q v1 v2 uj0 uj1 uj2 = Some r \<and>
    greatest_digit (uint v1 * 65536 + uint v2) ((uint uj0 * 65536 + uint uj1) * 65536 + uint uj2) (uint r)"
proof (cases "uj0 = v1")
  case True
  let ?u2 = "uint v1 * 65536 + uint uj1" and ?vv = "uint v1 * 65536 + uint v2"
  have r: "uint (ud uj1 + ud v1) = uint uj1 + uint v1" using uint16(2) [of uj1] uint16(2) [of v1] by (simp add: uint_ops32)
  have q: "uint (BASE - 1) = 65535" by simp
  have u2: "uint (BASE - 1) * uint v1 + uint (ud uj1 + ud v1) = ?u2" unfolding q r by simp
  show ?thesis
  proof (cases "BASE \<le> ud uj1 + ud v1")
    case True
    then have "65536 \<le> uint (ud uj1 + ud v1)" by (simp add: word_le_def)
    then have "65535 * ?vv \<le> ?u2 * 65536 + uint uj2"
      unfolding u2 [symmetric] q using uint16 [of v2] uint16 [of uj2] by (intro qhat_overshoot) simp_all
    then show ?thesis using True \<open>uj0 = v1\<close> by (simp add: guess_q_def qhat_too_big_def greatest_digit_def)
  next
    case False
    then have "uint (ud uj1 + ud v1) < 65536" by (simp add: word_le_def)
    then show ?thesis
      using qhat_loop_spec [OF assms(1) u2, of v2 uj2] False \<open>uj0 = v1\<close> by (simp add: guess_q_def qhat_too_big_def)
  qed
next
  case False
  let ?u2 = "uint uj0 * 65536 + uint uj1" and ?vv = "uint v1 * 65536 + uint v2" and ?nn = "COMBINE (ud uj0) (ud uj1)"
  have lt: "uint uj0 < uint v1" using False assms(2) by (metis order_le_less word_uint_eqI)
  have nn: "uint ?nn = ?u2" using uint16 by (simp add: uint_COMBINE)
  have "?u2 < uint v1 * 65536" using lt uint16(2) [of uj1] by linarith
  then have "?u2 div uint v1 < 65536" using assms(1) by (intro div_bounds) (simp_all add: mult.commute)
  moreover have "p \<le> ?u2 div uint v1" if "p * ?vv \<le> ?u2 * 65536 + uint uj2" "p < 65536" for p
  proof (cases "0 \<le> p")
    case True
    then have "0 \<le> p * uint v2" by simp
    moreover have "p * ?vv = p * uint v1 * 65536 + p * uint v2" by (simp add: algebra_simps)
    ultimately have "p * uint v1 * 65536 \<le> ?u2 * 65536 + uint uj2" using that(1) by linarith
    then have "p * uint v1 \<le> ?u2" by (rule drop_digit [OF _ uint16(2)])
    then show ?thesis using assms(1) by (intro div_bounds)
  next
    case False
    moreover have "0 \<le> ?u2 div uint v1" using assms(1) by (simp add: pos_imp_zdiv_nonneg_iff)
    ultimately show ?thesis by linarith
  qed
  ultimately have "\<exists>r. qhat_loop v1 v2 uj2 (?nn div ud v1) (?nn mod ud v1) = Some r \<and> greatest_digit ?vv (?u2 * 65536 + uint uj2) (uint r)"
    using assms(1) uint16(2) [of v1] by (intro qhat_loop_spec) (auto simp: uint_div uint_mod nn intro: order_less_trans [OF pos_mod_bound])
  moreover have "ud v1 \<noteq> 0" using assms(1) uint_ud [of v1] by force
  ultimately show ?thesis using False by (simp add: guess_q_def div32_def mod32_def)
qed

lemma estimate_close:
  fixes W V P top3 vv w0 v0 r :: int
  assumes "W = top3 * P + w0" "V = vv * P + v0" "0 \<le> w0" "w0 < P" "0 \<le> v0" "v0 < P" "65536 \<le> vv" "0 \<le> W" "W < 65536 * V"
    "greatest_digit vv top3 r"
  shows "r = W div V \<or> r = W div V + 1"
proof -
  have V: "0 < V" using assms(2-7) mult_pos_pos [of vv P] by linarith
  note r = assms(10) [unfolded greatest_digit_def]
  define q where "q = W div V"
  have q: "q < 65536" "0 \<le> q" using div_bounds(1) [OF V assms(9)] assms(8) V by (simp_all add: q_def pos_imp_zdiv_nonneg_iff)
  have qV: "q * V \<le> W" using pos_mod_sign [OF V, of W] div_mult_mod_eq [of W V] unfolding q_def by linarith
  have "q * vv * P \<le> q * V" using q(2) assms(2,5) by (simp add: algebra_simps)
  then have "q * vv * P < (top3 + 1) * P" using qV assms(1,4) by (simp add: algebra_simps)
  then have "q * vv \<le> top3" using assms(3,4) by (simp add: mult_less_cancel_right)
  then have "q \<le> r" using r q(1) by blast
  moreover have "r - 1 \<le> q"
  proof (cases "r = 0")
    case False
    then have r1: "0 \<le> r - 1" using r by simp
    have "(r - 1) * V \<le> (r - 1) * ((vv + 1) * P)" using assms(2,6) r1 by (intro mult_left_mono) (simp_all add: algebra_simps)
    also have "\<dots> = (r * vv + r - vv - 1) * P" by (simp add: algebra_simps)
    also have "\<dots> \<le> top3 * P" using r assms(3,4,7) by (intro mult_right_mono) linarith+
    also have "\<dots> \<le> W" using assms(1,3) by simp
    finally show ?thesis unfolding q_def by (rule div_bounds(2) [OF V])
  qed (use q(2) in simp)
  ultimately show ?thesis unfolding q_def by linarith
qed

text \<open>A number between \<open>- P\<close> and \<open>P\<close> written with a low part below \<open>P\<close>.\<close>

lemma top_part:
  fixes k d P :: int
  assumes "0 \<le> d" "d < P"
  shows "0 \<le> k * P + d \<Longrightarrow> k * P + d < P \<Longrightarrow> k = 0" "- P \<le> k * P + d \<Longrightarrow> k * P + d < 0 \<Longrightarrow> k = - 1"
proof -
  assume "0 \<le> k * P + d" "k * P + d < P"
  then have "(k * P + d) div P = 0" by simp
  then show "k = 0" using assms by simp
next
  assume a: "- P \<le> k * P + d" "k * P + d < 0"
  have "(k * P + d + P) div P = 0" using a by simp
  moreover have "(k * P + d + P) div P = (d + (k + 1) * P) div P" by (simp add: algebra_simps)
  ultimately show "k = - 1" using assms by simp
qed

lemma dig_pos: "0 < uint (ds ! a) \<Longrightarrow> 0 < dig ds a (Suc k)"
  unfolding dig_high using dig_bounds(1) [of ds "Suc a" k] by (intro add_pos_nonneg mult_pos_pos) simp_all

lemma estimate_digit:
  assumes "0 < uint (vs ! (b + 1))" "dig us a (n + 3) < 65536 * dig vs (b + 1) (n + 2)"
  shows "\<exists>r. guess_q (vs ! (b + 1)) (vs ! (b + 2)) (us ! a) (us ! (a + 1)) (us ! (a + 2)) = Some r \<and> uint r < 65536 \<and>
    (uint r = dig us a (n + 3) div dig vs (b + 1) (n + 2) \<or> uint r = dig us a (n + 3) div dig vs (b + 1) (n + 2) + 1)"
proof -
  let ?W = "dig us a (n + 3)" and ?V = "dig vs (b + 1) (n + 2)" and ?v1 = "uint (vs ! (b + 1))"
  let ?top3 = "(uint (us ! a) * 65536 + uint (us ! (a + 1))) * 65536 + uint (us ! (a + 2))"
  let ?vv = "?v1 * 65536 + uint (vs ! (b + 2))"
  have W: "?W = ?top3 * 65536 ^ n + dig us (a + 3) n" using dig_append [of us a 3 n] by (simp add: numeral_3_eq_3 add.commute)
  have V: "?V = ?vv * 65536 ^ n + dig vs (b + 3) n" using dig_append [of vs "b + 1" 2 n] by (simp add: numeral_2_eq_2 add.commute numeral_3_eq_3)
  have "uint (us ! a) \<le> ?v1"
  proof -
    have "uint (us ! a) * 65536 ^ (n + 2) \<le> ?W" using dig_high [of us a "n + 2"] dig_bounds(1) [of us "Suc a" "n + 2"] by (simp add: numeral_3_eq_3)
    also have "\<dots> < 65536 * ?V" by (rule assms(2))
    also have "\<dots> \<le> 65536 * ((?v1 + 1) * 65536 ^ (n + 1))"
      using dig_high [of vs "b + 1" "n + 1"] dig_bounds(2) [of vs "Suc (b + 1)" "n + 1"] by (simp add: algebra_simps)
    finally have "uint (us ! a) * 65536 ^ (n + 2) < (?v1 + 1) * 65536 ^ (n + 2)" by (simp add: algebra_simps)
    then show ?thesis by (simp add: mult_less_cancel_right)
  qed
  then obtain r where r: "guess_q (vs ! (b + 1)) (vs ! (b + 2)) (us ! a) (us ! (a + 1)) (us ! (a + 2)) = Some r"
      "greatest_digit ?vv ?top3 (uint r)"
    using guess_q_spec [OF assms(1)] by blast
  moreover have "uint r = ?W div ?V \<or> uint r = ?W div ?V + 1"
    by (rule estimate_close [OF W V dig_bounds dig_bounds _ dig_bounds(1) assms(2) r(2)]) (use assms(1) in \<open>simp add: order_trans [of _ "?v1 * 65536"]\<close>)
  ultimately show ?thesis by (auto simp: greatest_digit_def)
qed

lemma div_digit_spec:
  fixes us vs :: "digit list" and a b n :: nat
  defines "V \<equiv> dig vs (b + 1) (n + 2)" and "W \<equiv> dig us a (n + 3)"
  assumes "a + n + 2 < length us" "b + n + 2 < length vs" "0 < uint (vs ! (b + 1))" "W < 65536 * V"
  shows "\<exists>q us'. div_digit (n + 2) b vs (vs ! (b + 1)) (vs ! (b + 2)) a us = Some (q, us') \<and> uint q = W div V \<and> uint q < 65536 \<and>
    length us' = length us \<and> (\<forall>k. k < a \<or> a + n + 2 < k \<longrightarrow> us' ! k = us ! k) \<and> dig us' a (n + 3) = W mod V"
proof -
  let ?P = "65536 ^ (n + 2) :: int"
  obtain r where r: "guess_q (vs ! (b + 1)) (vs ! (b + 2)) (us ! a) (us ! (a + 1)) (us ! (a + 2)) = Some r" "uint r < 65536"
      "uint r = W div V \<or> uint r = W div V + 1"
    using estimate_digit [OF assms(5,6) [unfolded V_def W_def]] unfolding V_def W_def by blast
  obtain t us1 where m: "mul_sub (n + 2) a b vs r 0 us = Some (t, us1)" "uint t < 65536" "length us1 = length us"
      "\<forall>k. k \<le> a \<or> a + (n + 2) < k \<longrightarrow> us1 ! k = us ! k"
      "dig us1 (a + 1) (n + 2) = dig us (a + 1) (n + 2) - uint r * V + ?P * uint t"
    using mul_sub_spec [of a "n + 2" us b vs r 0] assms(3,4) r(2) unfolding V_def by auto
  let ?k = "uint (us ! a) - uint t" and ?t = "ud (us ! a) - t"
  have W: "W = uint (us ! a) * ?P + dig us (a + 1) (n + 2)" using dig_high [of us a "n + 2"] by (simp add: W_def numeral_3_eq_3)
  have X: "?k * ?P + dig us1 (a + 1) (n + 2) = W - uint r * V" unfolding m(5) W by (simp add: algebra_simps)
  have V: "0 < V" "V < ?P"
    using dig_pos [OF assms(5), of "n + 1"] dig_bounds(2) [of vs "b + 1" "n + 2"] unfolding V_def by simp_all
  have mod: "0 \<le> W mod V" "W mod V < V" using V(1) by simp_all
  define P where "P = ?P"
  have "V < P" using V(2) by (simp only: P_def)
  then have modP: "W mod V < P" "- P \<le> W mod V - V" "W mod V - V < 0" using mod by linarith+
  have a1: "us1 ! a = us ! a" using m(4) by simp
  let ?us2 = "us1[a := dg (LHALF ?t)]"
  have len: "a < length us1" using assms(3) m(3) by simp
  show ?thesis
  proof (cases "uint r = W div V")
    case True
    then have x: "W - uint r * V = W mod V" by (simp add: minus_div_mult_eq_mod)
    have k: "?k = 0"
      by (rule top_part(1) [OF dig_bounds [of us1 "a + 1" "n + 2"]]) (unfold X x, use mod modP in \<open>simp_all add: P_def\<close>)
    then have "?t = 0" by (metis uint_ud right_minus_eq word_uint_eqI)
    moreover have "dig ?us2 a (n + 3) = W mod V"
      using dig_high [of ?us2 a "n + 2"] X x k len calculation by (simp add: numeral_3_eq_3 HHALF_def LHALF_def)
    ultimately show ?thesis using r(1,2) m a1 len True assms(3,4)
      by (intro exI [of _ r] exI [of _ ?us2]) (simp add: div_digit_def HHALF_def)
  next
    case False
    then have rq: "uint r = W div V + 1" using r(3) by simp
    then have x: "W - uint r * V = W mod V - V" by (simp add: minus_div_mult_eq_mod [symmetric] algebra_simps)
    have k: "?k = - 1"
      by (rule top_part(2) [OF dig_bounds [of us1 "a + 1" "n + 2"]]) (unfold X x, use mod modP in \<open>simp_all add: P_def\<close>)
    then have t: "uint ?t = 4294967295" by (simp add: uint_ops32)
    obtain t2 us3 where b: "add_back (n + 2) a b vs 0 ?us2 = Some (t2, us3)" "uint t2 < 65536" "length us3 = length us"
        "\<forall>k. k \<le> a \<or> a + (n + 2) < k \<longrightarrow> us3 ! k = ?us2 ! k"
        "dig us3 (a + 1) (n + 2) + ?P * uint t2 = dig us1 (a + 1) (n + 2) + V"
      using add_back_spec [of a "n + 2" ?us2 b vs 0] assms(3,4) m(3) unfolding V_def by auto
    have "dig us1 (a + 1) (n + 2) = W mod V - V + ?P" using X unfolding x k by linarith
    then have "(uint t2 - 1) * ?P + dig us3 (a + 1) (n + 2) = W mod V" using b(5) by (simp only: left_diff_distrib mult.commute)
    note s = this
    have t2: "uint t2 - 1 = 0"
      by (rule top_part(1) [OF dig_bounds [of us3 "a + 1" "n + 2"]]) (unfold s, use mod modP in \<open>simp_all add: P_def\<close>)
    then have d: "dig us3 (a + 1) (n + 2) = W mod V" using s by (simp only: mult_zero_left add_0)
    let ?us4 = "us3[a := dg (LHALF (ud (us3 ! a) + t2))]"
    have "us3 ! a = dg (LHALF ?t)" using b(4) len by simp
    then have a3: "uint (us3 ! a) = 65535" using t by simp
    have "uint (dg (LHALF (ud (us3 ! a) + t2))) = 0" using a3 t2 by (simp add: uint_ops32)
    then have "dig ?us4 a (n + 3) = W mod V" using dig_high [of ?us4 a "n + 2"] d b(3) m(3) len by (simp add: numeral_3_eq_3)
    moreover have "uint (r - 1) = W div V" using rq r(2) mod V dig_bounds(1) [of us a "n + 3"] unfolding W_def
      by (simp add: uint_ops32 pos_imp_zdiv_nonneg_iff)
    moreover have "HHALF ?t \<noteq> 0" using t uint_HHALF [of ?t] by auto
    ultimately show ?thesis using r(1,2) m b a1 len rq assms(3,4)
      by (intro exI [of _ "r - 1"] exI [of _ ?us4]) (simp add: div_digit_def)
  qed
qed

section \<open>All digits of the quotient\<close>

lemma dig_zero_head: "dig ds a (Suc k) < 65536 ^ k \<Longrightarrow> uint (ds ! a) = 0 \<and> dig ds (Suc a) k = dig ds a (Suc k)"
proof -
  assume "dig ds a (Suc k) < 65536 ^ k"
  then have "uint (ds ! a) * 65536 ^ k < 1 * 65536 ^ k" unfolding dig_high using dig_bounds(1) [of ds "Suc a" k] by linarith
  then have "uint (ds ! a) < 1" by (simp add: mult_less_cancel_right)
  then have "uint (ds ! a) = 0" using uint16(1) [of "ds ! a"] by linarith
  then show ?thesis unfolding dig_high by simp
qed

lemma one_digit:
  fixes us vs :: "digit list" and a b n :: nat
  defines "V \<equiv> dig vs (b + 1) (n + 2)"
  assumes "a + n + 2 < length us" "b + n + 2 < length vs" "0 < uint (vs ! (b + 1))" "dig us a (n + 2) < V"
  shows "\<exists>q us'. div_digit (n + 2) b vs (vs ! (b + 1)) (vs ! (b + 2)) a us = Some (q, us') \<and> uint (dg q) = dig us a (n + 3) div V \<and>
    length us' = length us \<and> (\<forall>k. k < a \<or> a + n + 2 < k \<longrightarrow> us' ! k = us ! k) \<and> uint (us' ! a) = 0 \<and>
    dig us' (a + 1) (n + 2) = dig us a (n + 3) mod V \<and> dig us' (a + 1) (n + 2) < V"
proof -
  have V: "0 < V" "V < 65536 ^ (n + 2)"
    using dig_pos [OF assms(4), of "n + 1"] dig_bounds(2) [of vs "b + 1" "n + 2"] unfolding V_def by simp_all
  have "dig us a (Suc (n + 2)) < 65536 * V" using assms(5) uint16(2) [of "us ! (a + (n + 2))"] unfolding dig.simps by linarith
  then have "dig us a (n + 3) < 65536 * V" by (simp only: add_Suc_right [symmetric] eval_nat_numeral)
  then obtain q us' where d: "div_digit (n + 2) b vs (vs ! (b + 1)) (vs ! (b + 2)) a us = Some (q, us')"
      "uint q = dig us a (n + 3) div V" "uint q < 65536" "length us' = length us" "\<forall>k. k < a \<or> a + n + 2 < k \<longrightarrow> us' ! k = us ! k"
      "dig us' a (n + 3) = dig us a (n + 3) mod V"
    using div_digit_spec [OF assms(2,3,4)] unfolding V_def by blast
  have "dig us' a (n + 3) < V" using d(6) V(1) by simp
  moreover have "n + 3 = Suc (n + 2)" by simp
  ultimately have "uint (us' ! a) = 0 \<and> dig us' (a + 1) (n + 2) = dig us' a (n + 3)"
    using dig_zero_head [of us' a "n + 2"] V(2) by (metis Suc_eq_plus1 order_less_trans)
  moreover have "uint (dg q) = uint q" using d(3) by (simp add: uint_dg)
  ultimately show ?thesis using d V(1) by (simp del: dig.simps)
qed

lemma div_loop_spec:
  fixes vs :: "digit list" and b n :: nat
  defines "V \<equiv> dig vs (b + 1) (n + 2)"
  assumes "b + n + 2 < length vs" "0 < uint (vs ! (b + 1))"
    "a + left + n + 2 < length us" "q + left < length qs" "dig us a (n + 2) < V"
  shows "\<exists>us' qs'. div_loop (n + 2) b vs (vs ! (b + 1)) (vs ! (b + 2)) left a q us qs = Some (us', qs') \<and>
    length us' = length us \<and> length qs' = length qs \<and> (\<forall>k. k < a \<or> a + left + n + 2 < k \<longrightarrow> us' ! k = us ! k) \<and>
    (\<forall>k. k < q \<or> q + left < k \<longrightarrow> qs' ! k = qs ! k) \<and> (\<forall>k. a \<le> k \<and> k \<le> a + left \<longrightarrow> uint (us' ! k) = 0) \<and>
    dig qs' q (left + 1) = dig us a (n + 2 + (left + 1)) div V \<and>
    dig us' (a + left + 1) (n + 2) = dig us a (n + 2 + (left + 1)) mod V"
  using assms(4-)
proof (induction left arbitrary: a q us qs)
  case 0
  have "a + n + 2 < length us" using 0(1) by simp
  from one_digit [OF this assms(2,3) 0(3) [unfolded V_def]]
  obtain w us' where d: "div_digit (n + 2) b vs (vs ! (b + 1)) (vs ! (b + 2)) a us = Some (w, us')" "uint (dg w) = dig us a (n + 3) div V"
      "length us' = length us" "\<forall>k. k < a \<or> a + n + 2 < k \<longrightarrow> us' ! k = us ! k" "uint (us' ! a) = 0"
      "dig us' (a + 1) (n + 2) = dig us a (n + 3) mod V"
    unfolding V_def by blast
  moreover have "\<forall>k. a \<le> k \<and> k \<le> a + 0 \<longrightarrow> uint (us' ! k) = 0" using d(5) by (metis add_0_right le_antisym)
  moreover have "n + 2 + (0 + 1) = n + 3" by simp
  moreover have "dig (qs[q := dg w]) q (0 + 1) = uint (dg w)" using 0(2) by simp
  ultimately show ?case using 0(2)
    by - (rule exI [of _ us'], rule exI [of _ "qs[q := dg w]"], simp add: add.commute [of 3] del: dig.simps One_nat_def add_2_eq_Suc')
next
  case (Suc l)
  let ?N = "dig us a (n + 2 + (Suc l + 1))" and ?W = "dig us a (n + 3)" and ?B = "65536 ^ (l + 1) :: int"
  have "a + n + 2 < length us" using Suc.prems(1) by simp
  from one_digit [OF this assms(2,3) Suc.prems(3) [unfolded V_def]]
  obtain w us1 where d: "div_digit (n + 2) b vs (vs ! (b + 1)) (vs ! (b + 2)) a us = Some (w, us1)" "uint (dg w) = ?W div V"
      "length us1 = length us" "\<forall>k. k < a \<or> a + n + 2 < k \<longrightarrow> us1 ! k = us ! k" "uint (us1 ! a) = 0"
      "dig us1 (a + 1) (n + 2) = ?W mod V" "dig us1 (a + 1) (n + 2) < V"
    unfolding V_def by blast
  let ?qs = "qs[q := dg w]" and ?N1 = "dig us1 (a + 1) (n + 2 + (l + 1))"
  obtain us' qs' where ih: "div_loop (n + 2) b vs (vs ! (b + 1)) (vs ! (b + 2)) l (a + 1) (q + 1) us1 ?qs = Some (us', qs')"
      "length us' = length us" "length qs' = length qs" "\<forall>k. k < a + 1 \<or> a + 1 + l + n + 2 < k \<longrightarrow> us' ! k = us1 ! k"
      "\<forall>k. k < q + 1 \<or> q + 1 + l < k \<longrightarrow> qs' ! k = ?qs ! k" "\<forall>k. a + 1 \<le> k \<and> k \<le> a + 1 + l \<longrightarrow> uint (us' ! k) = 0"
      "dig qs' (q + 1) (l + 1) = ?N1 div V" "dig us' (a + 1 + l + 1) (n + 2) = ?N1 mod V"
    using Suc.IH [of "a + 1" us1 "q + 1" ?qs] Suc.prems(1,2) d(3,7) by auto
  have N: "?N = ?W * ?B + dig us (a + n + 3) (l + 1)" 
  proof -
    have "n + 2 + (Suc l + 1) = n + 3 + (l + 1)" by simp
    then show ?thesis using dig_append [of us a "n + 3" "l + 1"] by (simp only: add.assoc)
  qed
  have "dig us1 (a + n + 3) (l + 1) = dig us (a + n + 3) (l + 1)" by (rule dig_cong) (use d(4) in auto)
  then have "?N1 = ?W mod V * ?B + dig us (a + n + 3) (l + 1)"

  proof -
    have "a + 1 + (n + 2) = a + n + 3" by simp
    then show ?thesis using dig_append [of us1 "a + 1" "n + 2" "l + 1"] d(6) \<open>dig us1 (a + n + 3) (l + 1) = dig us (a + n + 3) (l + 1)\<close>
      by (simp only:)
  qed
  then have "?N = ?N1 + (?W div V * ?B) * V" unfolding N by (simp add: minus_div_mult_eq_mod [symmetric] algebra_simps del: dig.simps)
  moreover have "0 < V" using dig_pos [OF assms(3), of "n + 1"] unfolding V_def by simp
  ultimately have div: "?N div V = ?W div V * ?B + ?N1 div V" "?N mod V = ?N1 mod V" by simp_all
  have "qs' ! q = dg w" using ih(5) Suc.prems(2) by simp
  then have "dig qs' q (Suc l + 1) = ?N div V" using dig_high [of qs' q "l + 1"] ih(7) d(2) unfolding div by (simp del: dig.simps)
  moreover have "uint (us' ! a) = 0" using ih(4) d(5) by simp
  then have "\<forall>k. a \<le> k \<and> k \<le> a + Suc l \<longrightarrow> uint (us' ! k) = 0" using ih(6) by (metis Suc_eq_plus1 add_Suc_shift le_neq_implies_less less_eq_Suc_le)
  moreover have "\<forall>k. k < a \<or> a + Suc l + n + 2 < k \<longrightarrow> us' ! k = us ! k" using ih(4) d(4) by simp
  moreover have "\<forall>k. k < q \<or> q + Suc l < k \<longrightarrow> qs' ! k = qs ! k" using ih(5) by simp
  moreover have "div_loop (n + 2) b vs (vs ! (b + 1)) (vs ! (b + 2)) (Suc l) a q us qs = Some (us', qs')"
    using ih(1) d(1) Suc.prems(2) by simp
  moreover have "dig us' (a + Suc l + 1) (n + 2) = ?N mod V" using ih(8) unfolding div by (simp del: dig.simps)
  ultimately show ?case using ih(2,3) by - (rule exI [of _ us'], rule exI [of _ qs'], simp only: simp_thms)
qed

end
