(* ===== verification/Qdivrem_Correct.thy ===== *)
theory Qdivrem_Correct
  imports Qdivrem
begin

text \<open>
  The shifts before and after algorithm D, the leading zeros, and the result: \<^verbatim>\<open>__qdivrem\<close> computes the quotient and
  the remainder, and the four routines that call it are the division operators of the C language.
\<close>

section \<open>Shifting digits\<close>

lemma uint_disjoint: "a AND b = 0 \<Longrightarrow> uint a + uint b < 4294967296 \<Longrightarrow> uint (a OR b :: u32) = uint a + uint b"
  by (simp add: disjunctive_add_eq_or [symmetric] uint_ops32)

lemma uint_push_digit: "uint (push_bit k (ud x)) = uint x * 2 ^ k" if "k \<le> 16"
proof -
  have "(2 :: int) ^ k \<le> 2 ^ 16" using that by (intro power_increasing) simp_all
  then have "uint x * 2 ^ k \<le> 65535 * 65536" using uint16 [of x] by (intro mult_mono) simp_all
  then show ?thesis unfolding unsigned_push_bit_eq by (simp add: push_bit_eq_mult take_bit_int_eq_self)
qed

lemma uint_drop_digit: "uint (drop_bit k (ud x)) = uint x div 2 ^ k"
proof -
  have "take_bit 32 (uint x) = uint x" using uint16 [of x] by (simp add: take_bit_int_eq_self_iff)
  then show ?thesis unfolding unsigned_drop_bit_eq by (simp add: drop_bit_eq_div)
qed

lemma uint_dg_small: "uint z < 65536 \<Longrightarrow> uint (dg z) = uint z"
  by (simp add: uint_dg)

lemma below16: "(\<And>k. 16 \<le> k \<Longrightarrow> \<not> bit (w :: u32) k) \<Longrightarrow> uint w < 65536"
proof -
  assume "\<And>k. 16 \<le> k \<Longrightarrow> \<not> bit w k"
  then have "LHALF w = w" by (auto simp: LHALF_eq bit_eq_iff bit_take_bit_iff simp flip: not_le)
  then show ?thesis by (metis uint_LHALF pos_mod_bound zero_less_numeral)
qed

text \<open>The low bits of a digit moved up, and the high bits of a digit moved down, in the same digit.\<close>

lemma shifted_digit:
  assumes "0 < sh" "sh < 16"
  shows "uint (dg (LHALF (push_bit sh (ud x)) OR drop_bit (16 - sh) (ud y))) =
    uint x * 2 ^ sh - 65536 * (uint x div 2 ^ (16 - sh)) + uint y div 2 ^ (16 - sh)"
proof -
  let ?a = "LHALF (push_bit sh (ud x))" and ?b = "drop_bit (16 - sh) (ud y)"
  have s: "(2 :: int) ^ (16 - sh) * 2 ^ sh = 65536" using assms(2) by (simp add: power_add [symmetric])
  have "uint ?a = uint x * 2 ^ sh - 65536 * (uint x * 2 ^ sh div 65536)"
    using assms by (simp add: uint_LHALF uint_push_digit minus_mult_div_eq_mod)
  also have "uint x * 2 ^ sh div 65536 = uint x div 2 ^ (16 - sh)" by (simp add: s [symmetric])
  finally have a: "uint ?a = uint x * 2 ^ sh - 65536 * (uint x div 2 ^ (16 - sh))" .
  have "\<not> (bit ?a k \<and> bit ?b k)" for k
  proof (cases "k < sh")
    case True
    then show ?thesis by (simp add: LHALF_eq bit_simps)
  next
    case False
    then show ?thesis using assms(2) by (auto simp: bit_simps dest: bit_imp_le_length)
  qed
  then have dis: "?a AND ?b = 0" by (auto simp: bit_eq_iff bit_and_iff)
  have small: "uint (?a OR ?b) < 65536"
  proof -
    have "\<not> bit (?a OR ?b) k" if "16 \<le> k" for k using that assms by (auto simp: LHALF_eq bit_simps dest: bit_imp_le_length)
    then show ?thesis by (intro below16) simp
  qed
  have "uint ?b < 65536" by (rule below16) (auto simp: bit_simps dest: bit_imp_le_length)
  moreover have "uint ?a < 65536" by (simp add: uint_LHALF)
  ultimately have "uint (?a OR ?b) = uint ?a + uint ?b" by (intro uint_disjoint dis) simp
  then show ?thesis using uint_dg_small [OF small] a by (simp add: uint_drop_digit)
qed

lemma last_digit: "sh < 16 \<Longrightarrow> uint (dg (LHALF (push_bit sh (ud x)))) = uint x * 2 ^ sh - 65536 * (uint x div 2 ^ (16 - sh))"
proof -
  assume "sh < 16"
  then have "(2 :: int) ^ (16 - sh) * 2 ^ sh = 65536" by (simp add: power_add [symmetric])
  then have "uint x * 2 ^ sh div 65536 = uint x div 2 ^ (16 - sh)" by (metis div_mult_mult2 power_not_zero zero_neq_numeral)
  then show ?thesis using \<open>sh < 16\<close> minus_mult_div_eq_mod [of "uint x * 2 ^ sh" 65536] by (simp add: uint_push_digit)
qed

lemma shl_carry:
  fixes x s c c' e D D' P :: int
  assumes "e = x * s - 65536 * c + c'" "D' = D * s - P * c'"
  shows "e * P + D' = (x * P + D) * s - 65536 * P * c"
  unfolding assms by (simp add: algebra_simps)

lemma shl_from_spec:
  assumes "0 < sh" "sh < 16" "p + left < length ds"
  shows "\<exists>ds'. shl_from p left sh ds = Some ds' \<and> length ds' = length ds \<and> (\<forall>k. k < p \<or> p + left < k \<longrightarrow> ds' ! k = ds ! k) \<and>
    dig ds' p (left + 1) = dig ds p (left + 1) * 2 ^ sh - 65536 ^ (left + 1) * (uint (ds ! p) div 2 ^ (16 - sh))"
  using assms(3)
proof (induction left arbitrary: p ds)
  case 0
  then show ?case using last_digit [OF assms(2), of "ds ! p"] by simp
next
  case (Suc l)
  let ?x = "ds ! p" and ?y = "ds ! (p + 1)"
  let ?d = "dg (LHALF (push_bit sh (ud ?x)) OR drop_bit (16 - sh) (ud ?y))"
  let ?ds = "ds[p := ?d]"
  obtain ds' where ih: "shl_from (p + 1) l sh ?ds = Some ds'" "length ds' = length ds"
      "\<forall>k. k < p + 1 \<or> p + 1 + l < k \<longrightarrow> ds' ! k = ?ds ! k"
      "dig ds' (p + 1) (l + 1) = dig ds (p + 1) (l + 1) * 2 ^ sh - 65536 ^ (l + 1) * (uint ?y div 2 ^ (16 - sh))"
    using Suc.IH [of "p + 1" ?ds] Suc.prems by auto
  have "ds' ! p = ?d" using ih(3) Suc.prems by simp
  then have "dig ds' p (Suc l + 1) = dig ds p (Suc l + 1) * 2 ^ sh - 65536 ^ (Suc l + 1) * (uint ?x div 2 ^ (16 - sh))"
    using shl_carry [OF shifted_digit [OF assms(1,2), of ?x ?y] ih(4)] dig_high [of ds' p "l + 1"] dig_high [of ds p "l + 1"]
    by (simp del: dig.simps)
  moreover have "shl_from p (Suc l) sh ds = Some ds'" using ih(1) Suc.prems by simp
  moreover have "\<forall>k. k < p \<or> p + Suc l < k \<longrightarrow> ds' ! k = ds ! k" using ih(3) by simp
  ultimately show ?case using ih(2) by blast
qed

text \<open>Shifting right what was shifted left.\<close>

lemma rem_digit:
  assumes "0 < d" "d < 16"
  shows "uint (dg (drop_bit d (ud x) OR LHALF (push_bit (16 - d) (ud y)))) = uint x div 2 ^ d + (uint y mod 2 ^ d) * 2 ^ (16 - d)"
proof -
  have "drop_bit d (ud x) OR LHALF (push_bit (16 - d) (ud y)) = LHALF (push_bit (16 - d) (ud y)) OR drop_bit (16 - (16 - d)) (ud x)"
    using assms by (simp add: or.commute)
  moreover have "uint y * 2 ^ (16 - d) - 65536 * (uint y div 2 ^ d) = (uint y mod 2 ^ d) * 2 ^ (16 - d)"
  proof -
    have g: "y * s - (t * s) * k = (y - t * k) * s" for y s t k :: int by (simp add: algebra_simps)
    have "(2 :: int) ^ d * 2 ^ (16 - d) = 65536" using assms by (simp add: power_add [symmetric])
    then show ?thesis using g [of "uint y" "2 ^ (16 - d)" "2 ^ d" "uint y div 2 ^ d"] by (simp only: minus_mult_div_eq_mod)
  qed
  ultimately show ?thesis using shifted_digit [of "16 - d" y x] assms by simp
qed

lemma shr_carry:
  fixes H x y :: int
  assumes "0 < d" "d < 16" "H mod 2 ^ d = y mod 2 ^ d"
  shows "(H * 65536 + x) div 2 ^ d = H div 2 ^ d * 65536 + (x div 2 ^ d + y mod 2 ^ d * 2 ^ (16 - d))"
proof -
  have e: "(65536 :: int) = 2 ^ (16 - d) * 2 ^ d" using assms by (simp add: power_add [symmetric])
  have "H * 65536 + x = x + (H * 2 ^ (16 - d)) * 2 ^ d" unfolding e by (simp add: ac_simps)
  then have "(H * 65536 + x) div 2 ^ d = H * 2 ^ (16 - d) + x div 2 ^ d" by (simp only:) (rule div_mult_self1, simp)
  moreover have "H * 2 ^ (16 - d) = (H div 2 ^ d * 2 ^ d + y mod 2 ^ d) * 2 ^ (16 - d)"
    unfolding assms(3) [symmetric] div_mult_mod_eq ..
  ultimately show ?thesis unfolding e by (simp add: algebra_simps)
qed

lemma dig_mod: "d \<le> 16 \<Longrightarrow> dig ds a (Suc k) mod 2 ^ d = uint (ds ! (a + k)) mod 2 ^ d"
proof -
  assume "d \<le> 16"
  then have "(65536 :: int) = 2 ^ (16 - d) * 2 ^ d" by (simp add: power_add [symmetric])
  then have "dig ds a (Suc k) = uint (ds ! (a + k)) + (dig ds a k * 2 ^ (16 - d)) * 2 ^ d" by simp
  then show ?thesis by (simp only: mod_mult_self1)
qed

lemma rem_shift_spec:
  assumes "0 < d" "d < 16" "a + left < length us" "uint (us ! a) = 0"
  shows "\<exists>us'. rem_shift d left (a + left) us = Some us' \<and> length us' = length us \<and> (\<forall>k. k < a \<or> a + left < k \<longrightarrow> us' ! k = us ! k) \<and>
    uint (us' ! a) = 0 \<and> dig us' (a + 1) left = dig us a (left + 1) div 2 ^ d"
  using assms(3-)
proof (induction left arbitrary: us)
  case (Suc l)
  let ?x = "us ! (a + Suc l)" and ?y = "us ! (a + l)" and ?H = "dig us a (l + 1)"
  let ?e = "dg (drop_bit d (ud ?x) OR LHALF (push_bit (16 - d) (ud ?y)))"
  obtain us' where ih: "rem_shift d l (a + l) (us[a + Suc l := ?e]) = Some us'" "length us' = length us"
      "\<forall>k. k < a \<or> a + l < k \<longrightarrow> us' ! k = us[a + Suc l := ?e] ! k" "uint (us' ! a) = 0" "dig us' (a + 1) l = ?H div 2 ^ d"
    using Suc.IH [of "us[a + Suc l := ?e]"] Suc.prems by auto
  have "us' ! (a + Suc l) = ?e" using ih(3) Suc.prems(1) by simp
  moreover have "?H mod 2 ^ d = uint ?y mod 2 ^ d" using dig_mod [of d us a l] assms(2) by (simp del: dig.simps)
  from shr_carry [OF assms(1,2) this, of "uint ?x"]
  have "dig us a (Suc l + 1) div 2 ^ d = ?H div 2 ^ d * 65536 + uint ?e"
    unfolding rem_digit [OF assms(1,2)] by (simp add: dig.simps(2) [of us a "Suc l"] del: dig.simps)
  ultimately have "dig us' (a + 1) (Suc l) = dig us a (Suc l + 1) div 2 ^ d" using ih(5) by (simp add: dig.simps(2) [of us' "Suc a" l] del: dig.simps)
  moreover have "rem_shift d (Suc l) (a + Suc l) us = Some us'" using ih(1) Suc.prems by simp
  moreover have "\<forall>k. k < a \<or> a + Suc l < k \<longrightarrow> us' ! k = us ! k" using ih(3) by simp
  ultimately show ?case using ih(2,4) by blast
qed simp

section \<open>Leading zeros and normalisation\<close>

lemma norm_shift_spec:
  assumes "0 < uint t" "uint t < 65536"
  shows "\<exists>d. norm_shift t d0 = Some (d0 + d) \<and> d < 16 \<and> 32768 \<le> uint t * 2 ^ d \<and> uint t * 2 ^ d < 65536"
  using assms
proof (induction "nat (65536 - uint t)" arbitrary: t d0 rule: less_induct)
  case less
  show ?case
  proof (cases "uint t < 32768")
    case True
    then have u: "uint (push_bit 1 t) = 2 * uint t" using less.prems(2) by (simp add: push_bit_eq_mult uint_ops32)
    then obtain d where d: "norm_shift (push_bit 1 t) (d0 + 1) = Some (d0 + 1 + d)" "32768 \<le> uint t * 2 ^ (d + 1)" "uint t * 2 ^ (d + 1) < 65536"
      using less.hyps [of "push_bit 1 t" "d0 + 1"] True less.prems by (auto simp: ac_simps)
    have "norm_shift t d0 = Some (d0 + (d + 1))"
      using d(1) True by (subst norm_shift.simps) (simp add: word_less_def)
    moreover have "d + 1 < 16"
    proof -
      have "1 * 2 ^ (d + 1) \<le> uint t * 2 ^ (d + 1)" using less.prems(1) by (intro mult_right_mono) simp_all
      then have "(2 :: int) ^ (d + 1) < 65536" using d(3) by linarith
      moreover have "(2 :: int) ^ 16 = 65536" by simp
      ultimately have "(2 :: int) ^ (d + 1) < 2 ^ 16" by (simp only:)
      then show ?thesis by (rule power_less_imp_less_exp [rotated]) simp
    qed
    ultimately show ?thesis using d(2,3) by blast
  next
    case False
    then have "norm_shift t d0 = Some (d0 + 0)" by (subst norm_shift.simps) (simp add: word_less_def)
    then show ?thesis using False less.prems by (intro exI [of _ 0]) simp
  qed
qed

lemma skip_v_digits:
  "skip_v 4 0 [vj, d1, d2, d3, d4] =
     Some (if d1 \<noteq> 0 then (4, 0) else if d2 \<noteq> 0 then (3, 1) else if d3 \<noteq> 0 then (2, 2) else (1, 2))"
  by (simp add: skip_v.simps [of 4] skip_v.simps [of 3] skip_v.simps [of 2] rd_def del: skip_v.simps)

lemma skip_u_spec:
  assumes "\<exists>i. uo < i \<and> i < length us \<and> us ! i \<noteq> 0"
  shows "\<exists>k. skip_u m uo us = Some (m - int k, uo + k) \<and> uo + k + 1 < length us \<and> us ! (uo + k + 1) \<noteq> 0 \<and>
    (\<forall>i. uo < i \<and> i \<le> uo + k \<longrightarrow> us ! i = 0)"
  using assms
proof (induction m uo us rule: skip_u.induct)
  case (1 m uo us)
  then have l: "uo + 1 < length us" by auto
  show ?case
  proof (cases "us ! (uo + 1) = 0")
    case True
    obtain i where i: "uo < i" "i < length us" "us ! i \<noteq> 0" using "1.prems" by blast
    then have "uo + 1 < i" using True by (metis Suc_eq_plus1 Suc_lessI)
    then obtain k where k: "skip_u (m - 1) (uo + 1) us = Some (m - 1 - int k, uo + 1 + k)" "uo + 1 + k + 1 < length us"
        "us ! (uo + 1 + k + 1) \<noteq> 0" "\<forall>i. uo + 1 < i \<and> i \<le> uo + 1 + k \<longrightarrow> us ! i = 0"
      using "1.IH" [of 0] True l i by auto
    have "skip_u m uo us = Some (m - int (k + 1), uo + (k + 1))" using k(1) True l by (subst skip_u.simps) simp
    moreover have "\<forall>i. uo < i \<and> i \<le> uo + (k + 1) \<longrightarrow> us ! i = 0" using k(4) True by (metis Suc_eq_plus1 Suc_lessI add.assoc add.commute)
    ultimately show ?thesis using k(2,3) by (intro exI [of _ "k + 1"]) (simp del: skip_u.simps)
  next
    case False
    then have "skip_u m uo us = Some (m - int 0, uo + 0)" using l by (subst skip_u.simps) simp
    then show ?thesis using l False by (intro exI [of _ 0]) (auto simp del: skip_u.simps)
  qed
qed

lemma zero_q_spec:
  "i \<le> length qs \<Longrightarrow> \<exists>qs'. zero_q i qs = Some qs' \<and> length qs' = length qs \<and> (\<forall>k<i. qs' ! k = 0) \<and> (\<forall>k\<ge>i. qs' ! k = qs ! k)"
proof (induction i arbitrary: qs)
  case (Suc i)
  obtain qs' where "zero_q i (qs[i := 0]) = Some qs'" "length qs' = length qs" "\<forall>k<i. qs' ! k = 0" "\<forall>k\<ge>i. qs' ! k = qs[i := 0] ! k"
    using Suc.IH [of "qs[i := 0]"] Suc.prems by auto
  then show ?case using Suc.prems by (auto simp: less_Suc_eq)
qed simp

lemma dig_zeros: "\<forall>i. a \<le> i \<and> i < a + k \<longrightarrow> uint (ds ! i) = 0 \<Longrightarrow> dig ds a k = 0"
  by (induction k) auto

lemma uint_uu: "uint (uu h l) = uint h * 4294967296 + uint l"
  unfolding uint_nat unat_uu by simp

lemma dig4: "dig ds a 4 = ((uint (ds ! a) * 65536 + uint (ds ! (a + 1))) * 65536 + uint (ds ! (a + 2))) * 65536 + uint (ds ! (a + 3))"
  by (simp add: eval_nat_numeral)

lemma uint_pair: "uint (COMBINE (ud x) (ud y)) = uint x * 65536 + uint y"
  using uint16 [of x] uint16 [of y] by (simp add: uint_COMBINE)

lemma whole_spec: "length ds = 5 \<Longrightarrow> \<exists>w. whole ds = Some w \<and> uint w = dig ds 1 4"
  by (simp add: whole_def dig4 uint_uu uint_pair numeral_2_eq_2 numeral_3_eq_3 algebra_simps) (simp add: eval_nat_numeral)

lemma uint_dg_halves: "uint (dg (HHALF x)) * 65536 + uint (dg (LHALF x)) = uint x"
proof -
  have "uint x < 4294967296" using uint_lt2p [of x] by simp
  then have "uint (HHALF x) < 65536" unfolding uint_HHALF by (intro div_bounds) simp_all
  then show ?thesis by (simp add: uint_dg_small uint_HHALF)
qed

lemma digits_spec: "length (digits x w) = 5" "digits x w ! 0 = x" "dig (digits x w) 1 4 = uint w"
proof -
  have "uint w = uint (ui_H w) * 4294967296 + uint (ui_L w)" using uint_uu [of "ui_H w" "ui_L w"] by simp
  then show "dig (digits x w) 1 4 = uint w"
    using uint_dg_halves [of "ui_H w"] uint_dg_halves [of "ui_L w"] by (simp add: digits_def dig4 numeral_2_eq_2 numeral_3_eq_3 algebra_simps)
qed (simp_all add: digits_def)

section \<open>A divisor of one digit\<close>

lemma div_step:
  fixes A x t :: int
  assumes "0 < t"
  shows "(A * 65536 + x) div t = A div t * 65536 + (A mod t * 65536 + x) div t" "(A * 65536 + x) mod t = (A mod t * 65536 + x) mod t"
proof -
  have e: "A * 65536 + x = (A mod t * 65536 + x) + (A div t * 65536) * t" by (simp add: minus_div_mult_eq_mod [symmetric] algebra_simps)
  show "(A * 65536 + x) div t = A div t * 65536 + (A mod t * 65536 + x) div t" by (subst e, rule div_mult_self1) (use assms in simp)
  show "(A * 65536 + x) mod t = (A mod t * 65536 + x) mod t" by (subst e, rule mod_mult_self1)
qed

lemma short_step:
  fixes r t :: u32 and u :: digit
  assumes "uint r < uint t" "uint t < 65536"
  defines "w \<equiv> COMBINE r (ud u)"
  shows "div32 w t = Some (w div t)" "mod32 w t = Some (w mod t)" "uint (ud (dg (w div t))) = (uint r * 65536 + uint u) div uint t"
    "uint (w mod t) = (uint r * 65536 + uint u) mod uint t" "uint (w mod t) < uint t"
proof -
  have t: "0 < uint t" using assms(1) uint_ge_0 [of r] by linarith
  then have "t \<noteq> 0" by auto
  then show "div32 w t = Some (w div t)" "mod32 w t = Some (w mod t)" by (simp_all add: div32_def mod32_def)
  have w: "uint w = uint r * 65536 + uint u" unfolding w_def using assms(1,2) uint16 [of u] by (simp add: uint_COMBINE)
  have "uint r * 65536 + uint u < 65536 * uint t" using assms(1) uint16(2) [of u] by linarith
  then have "(uint r * 65536 + uint u) div uint t < 65536" by (intro div_bounds t)
  then show "uint (ud (dg (w div t))) = (uint r * 65536 + uint u) div uint t" using w by (simp add: uint_dg_small uint_div)
  show "uint (w mod t) = (uint r * 65536 + uint u) mod uint t" "uint (w mod t) < uint t" using w t by (simp_all add: uint_mod)
qed

lemma uint_pos: "x \<noteq> 0 \<Longrightarrow> 0 < uint (x :: digit)"
proof -
  assume "x \<noteq> 0"
  then have "uint x \<noteq> uint (0 :: digit)" using word_uint_eqI [of x 0] by blast
  then have "uint x \<noteq> 0" by simp
  then show ?thesis using uint16(1) [of x] by linarith
qed

lemma COMBINE_zero: "COMBINE 0 x = x"
  by (simp add: COMBINE_def)

lemma uint_ucast64: "uint (ucast (x :: u32) :: u64) = uint x"
  using uint_lt2p [of x] by (simp add: unsigned_ucast_eq take_bit_int_eq_self_iff)

lemma short_division_spec:
  assumes "length us = 5" "v2 \<noteq> 0"
  shows "\<exists>q r. short_division us v2 = Some (q, r) \<and> uint q = dig us 1 4 div uint v2 \<and> uint r = dig us 1 4 mod uint v2"
proof -
  let ?t = "ud v2"
  have t: "uint ?t < 65536" "0 < uint v2" using uint16 [of v2] uint_pos [OF assms(2)] by simp_all
  have z: "uint 0 < uint ?t" using t(2) by simp
  define r1 where "r1 = COMBINE 0 (ud (us ! 1)) mod ?t"
  note s1 = short_step [OF z t(1), of "us ! 1", folded r1_def]
  define r2 where "r2 = COMBINE r1 (ud (us ! 2)) mod ?t"
  note s2 = short_step [OF s1(5) t(1), of "us ! 2", folded r2_def]
  define r3 where "r3 = COMBINE r2 (ud (us ! 3)) mod ?t"
  note s3 = short_step [OF s2(5) t(1), of "us ! 3", folded r3_def]
  define r4 where "r4 = COMBINE r3 (ud (us ! 4)) mod ?t"
  note s4 = short_step [OF s3(5) t(1), of "us ! 4", folded r4_def]
  define D where "D = (\<lambda>k. dig us 1 k)"
  have D: "dig us 1 4 = D 4" "D 1 = uint (us ! 1)" "D 2 = D 1 * 65536 + uint (us ! 2)" "D 3 = D 2 * 65536 + uint (us ! 3)" "D 4 = D 3 * 65536 + uint (us ! 4)"
    by (simp_all add: D_def eval_nat_numeral)
  note d2 = div_step [OF t(2), of "D 1" "uint (us ! 2)", folded D(3)] and d3 = div_step [OF t(2), of "D 2" "uint (us ! 3)", folded D(4)]
    and d4 = div_step [OF t(2), of "D 3" "uint (us ! 4)", folded D(5)]
  have m1: "uint r1 = D 1 mod uint v2" using s1(4) D(2) by simp
  have m2: "uint r2 = D 2 mod uint v2" using s2(4) unfolding m1 d2(2) by simp
  have m3: "uint r3 = D 3 mod uint v2" using s3(4) unfolding m2 d3(2) by simp
  have m4: "uint r4 = D 4 mod uint v2" using s4(4) unfolding m3 d4(2) by simp
  let ?q1 = "ud (us ! 1) div ?t" and ?q2 = "COMBINE r1 (ud (us ! 2)) div ?t" and ?q3 = "COMBINE r2 (ud (us ! 3)) div ?t"
    and ?q4 = "COMBINE r3 (ud (us ! 4)) div ?t"
  have q1: "D 1 div uint v2 = uint (dg ?q1)" using s1(3) D(2) by (simp add: COMBINE_zero)
  have q2: "D 2 div uint v2 = uint (dg ?q1) * 65536 + uint (dg ?q2)" using s2(3) unfolding d2(1) q1 m1 by simp
  have q3: "D 3 div uint v2 = (uint (dg ?q1) * 65536 + uint (dg ?q2)) * 65536 + uint (dg ?q3)" using s3(3) unfolding d3(1) q2 m2 by simp
  have q4: "D 4 div uint v2 = ((uint (dg ?q1) * 65536 + uint (dg ?q2)) * 65536 + uint (dg ?q3)) * 65536 + uint (dg ?q4)"
    using s4(3) unfolding d4(1) q3 m3 by simp
  have "uint (ucast r4 :: u64) = uint r4" by (rule uint_ucast64)
  moreover have "short_division us v2 = Some (uu (COMBINE (ud (dg ?q1)) (ud (dg ?q2))) (COMBINE (ud (dg ?q3)) (ud (dg ?q4))), ucast r4)"
    using assms(1) s1(1,2) s2(1,2) s3(1,2) s4(1,2) by (simp add: short_division_def COMBINE_zero)
  moreover have "uint (uu (COMBINE (ud (dg ?q1)) (ud (dg ?q2))) (COMBINE (ud (dg ?q3)) (ud (dg ?q4)))) = D 4 div uint v2"
    unfolding uint_uu uint_pair q4 by (simp add: algebra_simps)
  ultimately show ?thesis using m4 D(1) by simp
qed

section \<open>Algorithm D\<close>

lemma normalise:
  assumes "d < 16" "p + len < length ds" "uint (ds ! p) * 2 ^ d < 65536"
  shows "\<exists>ds'. (if 0 < d then shl p len d ds else Some ds) = Some ds' \<and> length ds' = length ds \<and>
    (\<forall>k. k < p \<or> p + len < k \<longrightarrow> ds' ! k = ds ! k) \<and> dig ds' p (len + 1) = dig ds p (len + 1) * 2 ^ d"
proof (cases "0 < d")
  case True
  have "(2 :: int) ^ (16 - d) * 2 ^ d = 65536" using assms(1) by (simp add: power_add [symmetric])
  then have "uint (ds ! p) < 2 ^ (16 - d)" using assms(3) by (metis mult_less_cancel_right_pos zero_less_numeral zero_less_power)
  then have "uint (ds ! p) div 2 ^ (16 - d) = 0" by simp
  then show ?thesis using shl_from_spec [OF True assms(1,2)] True by (simp add: shl_def del: dig.simps)
qed simp

lemma unnormalise:
  assumes "d < 16" "a + n < length us" "uint (us ! a) = 0"
  shows "\<exists>us'. (if d \<noteq> 0 then rem_shift d n (a + n) us else Some us) = Some us' \<and> length us' = length us \<and>
    (\<forall>k. k < a \<longrightarrow> us' ! k = us ! k) \<and> uint (us' ! a) = 0 \<and> dig us' (a + 1) n = dig us (a + 1) n div 2 ^ d"
proof (cases "d = 0")
  case False
  moreover have "dig us a (n + 1) = dig us (a + 1) n" using dig_high [of us a n] assms(3) by simp
  ultimately show ?thesis using rem_shift_spec [of d a n us] assms by fastforce
qed (use assms in simp)

text \<open>Leading zero digits do not count.\<close>

lemma dig_skip: "\<forall>i. a \<le> i \<and> i < a + j \<longrightarrow> uint (ds ! i) = 0 \<Longrightarrow> dig ds a (j + k) = dig ds (a + j) k"
  using dig_zeros [of a j ds] by (simp add: dig_append)

lemma dig_lead: "0 < uint (ds ! a) \<Longrightarrow> 65536 ^ k \<le> dig ds a (Suc k)"
proof -
  assume "0 < uint (ds ! a)"
  then have "1 * 65536 ^ k \<le> uint (ds ! a) * 65536 ^ k" by (intro mult_right_mono) simp_all
  then show ?thesis unfolding dig_high using dig_bounds(1) [of ds "Suc a" k] by linarith
qed

lemma dig_lead_zero: "uint (ds ! a) = 0 \<Longrightarrow> dig ds a (Suc k) = dig ds (Suc a) k"
  unfolding dig_high by simp

lemma whole_zeros:
  assumes "length ds = 5" "\<forall>i<j. uint (ds ! i) = 0" "0 < j" "j + k = 5"
  shows "\<exists>w. whole ds = Some w \<and> uint w = dig ds j k"
proof -
  have "dig ds 0 (j + k) = dig ds j k" using dig_skip [of 0 j ds k] assms(2) by simp
  moreover have "j + k = Suc 4" using assms(4) by simp
  moreover have "dig ds 0 (Suc 4) = dig ds (Suc 0) 4" using assms(2,3) by (intro dig_lead_zero) simp
  ultimately show ?thesis using whole_spec [OF assms(1)] by simp
qed

lemma quotient_bound:
  fixes U V s P Q x y :: int
  assumes "U * s = x * Q + y" "0 \<le> y" "U < P * Q" "P \<le> V" "0 < s" "0 < Q"
  shows "x < V * s"
proof -
  have "x * Q \<le> U * s" using assms(1,2) by simp
  also have "\<dots> < (P * Q) * s" using assms(3,5) by simp
  also have "\<dots> \<le> (V * s) * Q" using assms(4-6) by (simp add: ac_simps)
  finally show ?thesis using assms(6) by simp
qed

text \<open>After the leading zeros are skipped, \<open>M + 1\<close> quotient digits remain.\<close>

lemma algorithm_D_main:
  fixes us vs :: "digit list" and n vo uo M :: nat
  defines "U \<equiv> dig us 1 4" and "V \<equiv> dig vs (vo + 1) (n + 2)"
  assumes "vo + n + 2 = 4" "uo + M + n + 2 = 4" "length us = 5" "length vs = 5" "length qs = 5" "vs ! (vo + 1) \<noteq> 0"
    "\<forall>i\<le>uo. us ! i = 0" "skip_u (4 - int (n + 2)) 0 us = Some (int M, uo)"
  shows "\<exists>q r. algorithm_D (n + 2) vo us vs qs arq = Some (q, if arq then Some r else None) \<and> uint q = U div V \<and> uint r = U mod V"
proof -
  have v1: "0 < uint (vs ! (vo + 1))" by (rule uint_pos [OF assms(8)])
  then have V: "65536 ^ (n + 1) \<le> V" using dig_lead [of vs "vo + 1" "n + 1"] by (simp add: V_def)
  have U: "dig us uo (M + (n + 2) + 1) = U"
  proof -
    have "dig us 0 (Suc 4) = U" unfolding U_def using assms(9) by (subst dig_lead_zero) simp_all
    moreover have "Suc 4 = uo + (M + (n + 2) + 1)" using assms(4) by simp
    moreover have "dig us 0 (uo + (M + (n + 2) + 1)) = dig us (0 + uo) (M + (n + 2) + 1)" by (rule dig_skip) (use assms(9) in simp)
    ultimately show ?thesis by (simp only: add_0)
  qed
  have "uint (us ! uo) = 0" using assms(9) by simp
  then have Uless: "U < 65536 ^ (n + 1) * 65536 ^ (M + 1)"
    using dig_lead_zero [of us uo "M + (n + 2)"] dig_bounds(2) [of us "Suc uo" "M + (n + 2)"] U by (simp add: power_add ac_simps del: dig.simps)
  obtain d where d: "norm_shift (ud (vs ! (vo + 1))) 0 = Some d" "d < 16" "uint (vs ! (vo + 1)) * 2 ^ d < 65536"
    using norm_shift_spec [of "ud (vs ! (vo + 1))" 0] v1 uint16(2) [of "vs ! (vo + 1)"] by auto
  have "uo + (M + (n + 2)) < length us" "vo + 1 + (n + 1) < length vs" using assms(3-6) by simp_all
  obtain us1 where us1: "(if 0 < d then shl uo (M + (n + 2)) d us else Some us) = Some us1" "length us1 = 5"
      "\<forall>k. k < uo \<or> uo + (M + (n + 2)) < k \<longrightarrow> us1 ! k = us ! k" "dig us1 uo (M + (n + 2) + 1) = U * 2 ^ d"
    using normalise [OF d(2) \<open>uo + (M + (n + 2)) < length us\<close>] \<open>uint (us ! uo) = 0\<close> U assms(5) by auto
  obtain vs1 where vs1: "(if 0 < d then shl (vo + 1) (n + 1) d vs else Some vs) = Some vs1" "length vs1 = 5"
      "dig vs1 (vo + 1) (n + 2) = V * 2 ^ d"
    using normalise [OF d(2) \<open>vo + 1 + (n + 1) < length vs\<close> d(3)] assms(6) by (auto simp: V_def simp del: dig.simps)
  have s: "(0 :: int) < 2 ^ d" by simp
  have lead: "0 < uint (vs1 ! (vo + 1))"
  proof (rule ccontr)
    assume "\<not> ?thesis"
    then have "uint (vs1 ! (vo + 1)) = 0" using uint16(1) [of "vs1 ! (vo + 1)"] by linarith
    then have "V * 2 ^ d < 65536 ^ (n + 1)"
      using vs1(3) dig_lead_zero [of vs1 "vo + 1" "n + 1"] dig_bounds(2) [of vs1 "Suc (vo + 1)" "n + 1"] by (simp del: dig.simps)
    moreover have "V * 1 \<le> V * 2 ^ d" using dig_bounds(1) [of vs "vo + 1" "n + 2", folded V_def] by (intro mult_left_mono) simp_all
    ultimately show False using V by linarith
  qed
  have e: "n + 2 + (M + 1) = M + (n + 2) + 1" by simp
  have x: "U * 2 ^ d = dig us1 uo (n + 2) * 65536 ^ (M + 1) + dig us1 (uo + (n + 2)) (M + 1)"
    using dig_append [of us1 uo "n + 2" "M + 1"] us1(4) by (simp only: e)
  have "dig us1 uo (n + 2) < dig vs1 (vo + 1) (n + 2)"
    unfolding vs1(3) by (rule quotient_bound [OF x dig_bounds(1) Uless V s]) simp
  moreover have "uo + M + n + 2 < length us1" "4 - M + M < length qs'" "vo + n + 2 < length vs1" if "length qs' = 5" for qs' :: "digit list"
    using assms(3,4) us1(2) vs1(2) that by simp_all
  moreover have "4 - M \<le> length qs" using assms(7) by simp
  then obtain qs1 where qs1: "zero_q (4 - M) qs = Some qs1" "length qs1 = 5" "\<forall>k<4 - M. qs1 ! k = 0"
    using zero_q_spec [of "4 - M" qs] assms(7) by auto
  ultimately obtain us2 qs2 where l: "div_loop (n + 2) vo vs1 (vs1 ! (vo + 1)) (vs1 ! (vo + 2)) M uo (4 - M) us1 qs1 = Some (us2, qs2)"
      "length us2 = 5" "length qs2 = 5" "\<forall>k. k < uo \<or> uo + M + n + 2 < k \<longrightarrow> us2 ! k = us1 ! k"
      "\<forall>k. k < 4 - M \<or> 4 - M + M < k \<longrightarrow> qs2 ! k = qs1 ! k" "\<forall>k. uo \<le> k \<and> k \<le> uo + M \<longrightarrow> uint (us2 ! k) = 0"
      "dig qs2 (4 - M) (M + 1) = U * 2 ^ d div (V * 2 ^ d)" "dig us2 (uo + M + 1) (n + 2) = U * 2 ^ d mod (V * 2 ^ d)"
    using div_loop_spec [OF _ lead, of n uo M us1 "4 - M" qs1] us1(2,4) vs1(3) unfolding e by (metis (no_types, lifting) qs1(2))
  have r2: "dig us2 (uo + M + 1) (n + 2) = U mod V * 2 ^ d" using l(8) by (simp only: mod_mult_mult2)
  have q2: "dig qs2 (4 - M) (M + 1) = U div V" unfolding l(7) by (rule div_mult_mult2) simp
  have "uo + M + (n + 2) < length us2" "uint (us2 ! (uo + M)) = 0" using assms(4) l(2,6) by simp_all
  then obtain us3 where us3: "(if d \<noteq> 0 then rem_shift d (n + 2) (uo + M + (n + 2)) us2 else Some us2) = Some us3" "length us3 = 5"
      "\<forall>k. k < uo + M \<longrightarrow> us3 ! k = us2 ! k" "uint (us3 ! (uo + M)) = 0" "dig us3 (uo + M + 1) (n + 2) = U mod V"
    using unnormalise [OF d(2), of "uo + M" "n + 2" us2] l(2) r2 by (auto simp del: dig.simps)
  have "uint (us3 ! i) = 0" if "i < uo + M + 1" for i
  proof (cases "i < uo")
    case True
    then have "us3 ! i = us ! i" using us3(3) l(4) us1(3) by simp
    then show ?thesis using assms(9) True by simp
  next
    case False
    then show ?thesis using that us3(3,4) l(6) by (cases "i = uo + M") simp_all
  qed
  then obtain r where r: "whole us3 = Some r" "uint r = U mod V"
    using whole_zeros [of us3 "uo + M + 1" "n + 2"] us3(2,5) assms(4) by (auto simp del: dig.simps)
  obtain q where q: "whole qs2 = Some q" "uint q = U div V"
    using whole_zeros [of qs2 "4 - M" "M + 1"] l(3,5) q2 qs1(3) assms(4) by (auto simp del: dig.simps)
  have n4: "nat (4 - int M) = 4 - M" "n + 2 - 1 = n + 1" by simp_all
  have v: "rd vs (vo + 1) = Some (vs ! (vo + 1))" "rd vs1 (vo + 1) = Some (vs1 ! (vo + 1))" "rd vs1 (vo + 2) = Some (vs1 ! (vo + 2))"
    using assms(3,6) vs1(2) by simp_all
  have "algorithm_D (n + 2) vo us vs qs arq = (if arq then Some (q, Some r) else Some (q, None))"
    by (cases arq; simp only: algorithm_D_def assms(10) Option.bind.simps prod.case nat_int n4 qs1(1) v d(1) us1(1) vs1(1) l(1) us3(1) r(1) q(1) if_True if_False)
  then have "algorithm_D (n + 2) vo us vs qs arq = Some (q, if arq then Some r else None)" by simp
  then show ?thesis using q(2) r(2) by blast
qed

lemma algorithm_D_spec:
  fixes us vs :: "digit list" and n vo :: nat
  defines "U \<equiv> dig us 1 4" and "V \<equiv> dig vs (vo + 1) (n + 2)"
  assumes "vo + n + 2 = 4" "length us = 5" "length vs = 5" "length qs = 5" "us ! 0 = 0" "vs ! (vo + 1) \<noteq> 0" "V \<le> U"
  shows "\<exists>q r. algorithm_D (n + 2) vo us vs qs arq = Some (q, if arq then Some r else None) \<and> uint q = U div V \<and> uint r = U mod V"
proof -
  have V: "65536 ^ (n + 1) \<le> V" using dig_lead [OF uint_pos [OF assms(8)], of "n + 1"] by (simp add: V_def)
  have "(0 :: int) < 65536 ^ (n + 1)" by simp
  then have "0 < U" using V assms(9) by linarith
  have "\<exists>i. 0 < i \<and> i < length us \<and> us ! i \<noteq> 0"
  proof (rule ccontr)
    assume "\<not> ?thesis"
    then have "dig us 1 4 = 0" using assms(4) by (intro dig_zeros) auto
    then show False using \<open>0 < U\<close> by (simp add: U_def)
  qed
  then obtain uo where uo: "skip_u (4 - int (n + 2)) 0 us = Some (4 - int (n + 2) - int uo, uo)" "uo + 1 < 5" "us ! (uo + 1) \<noteq> 0"
      "\<forall>i. 0 < i \<and> i \<le> uo \<longrightarrow> us ! i = 0"
    using skip_u_spec [of 0 us "4 - int (n + 2)"] assms(4) by auto
  have z: "\<forall>i\<le>uo. us ! i = 0" using uo(4) assms(7) by (metis gr0I)
  have "U < 65536 ^ (4 - uo)"
  proof -
    have "dig us 1 (uo + (4 - uo)) = dig us (1 + uo) (4 - uo)" by (rule dig_skip) (use z in simp)
    then show ?thesis using dig_bounds(2) [of us "1 + uo" "4 - uo"] uo(2) by (simp add: U_def)
  qed
  then have "(65536 :: int) ^ (n + 1) < 65536 ^ (4 - uo)" using V assms(9) by linarith
  then have "n + 1 < 4 - uo" by (rule power_less_imp_less_exp [rotated]) simp
  then have "uo + (4 - uo - n - 2) + n + 2 = 4" "int (4 - uo - n - 2) = 4 - int (n + 2) - int uo" by simp_all
  then show ?thesis
    using algorithm_D_main [OF assms(3) _ assms(4-6,8) z] uo(1) unfolding U_def V_def by metis
qed

section \<open>Correctness\<close>

lemma skip_v_cases:
  assumes "vll \<noteq> 0"
  obtains (short) "skip_v 4 0 (digits vj vll) = Some (1, 2)" "digits vj vll ! 4 \<noteq> 0" "uint vll = uint (digits vj vll ! 4)"
  | (long) n vo where "skip_v 4 0 (digits vj vll) = Some (n + 2, vo)" "vo + n + 2 = 4" "digits vj vll ! (vo + 1) \<noteq> 0"
      "uint vll = dig (digits vj vll) (vo + 1) (n + 2)"
proof -
  obtain d1 d2 d3 d4 where d: "digits vj vll = [vj, d1, d2, d3, d4]" by (simp add: digits_def)
  have u: "uint vll = ((uint d1 * 65536 + uint d2) * 65536 + uint d3) * 65536 + uint d4"
    using digits_spec(3) [of vj vll] unfolding d by (simp add: dig4 numeral_2_eq_2 numeral_3_eq_3)
  have "uint vll \<noteq> 0" using assms word_uint_eqI [of vll 0] by force
  consider "d1 \<noteq> 0" | "d1 = 0" "d2 \<noteq> 0" | "d1 = 0" "d2 = 0" "d3 \<noteq> 0" | "d1 = 0" "d2 = 0" "d3 = 0" by blast
  then show thesis
  proof cases
    case 1
    then show thesis using u by (intro long [of 2 0]) ((simp add: d skip_v_digits del: skip_v.simps; fail) | simp add: d eval_nat_numeral)+
  next
    case 2
    then show thesis using u by (intro long [of 1 1]) ((simp add: d skip_v_digits del: skip_v.simps; fail) | simp add: d eval_nat_numeral)+
  next
    case 3
    then show thesis using u by (intro long [of 0 2]) ((simp add: d skip_v_digits del: skip_v.simps; fail) | simp add: d eval_nat_numeral)+
  next
    case 4
    then show thesis using u \<open>uint vll \<noteq> 0\<close> by (intro short) ((simp add: d skip_v_digits del: skip_v.simps; fail) | auto simp: d)+
  qed
qed

lemma qdivrem_exact:
  assumes "length qj = 5"
  shows "qdivrem vj qj u v arq = (if v = 0 then None else Some (u div v, if arq then Some (u mod v) else None))"
proof -
  consider "v = 0" | "v \<noteq> 0" "u < v" | "v \<noteq> 0" "v \<le> u" by force
  then show ?thesis
  proof cases
    case 2
    then have "u div v = 0" "u mod v = u" by (simp_all add: word_div_def word_mod_def word_less_def)
    then show ?thesis using 2 by (simp add: qdivrem_def)
  next
    case 3
    have word: "w = u div v" if "uint w = uint u div uint v" for w using that by (intro word_uint_eqI) (simp add: uint_div)
    have wordm: "w = u mod v" if "uint w = uint u mod uint v" for w using that by (intro word_uint_eqI) (simp add: uint_mod)
    show ?thesis using \<open>v \<noteq> 0\<close>
    proof (cases rule: skip_v_cases [of v vj])
      case short
      then show ?thesis
        using short_division_spec [of "digits 0 u" "digits vj v ! 4"] digits_spec [of 0 u] digits_spec(1) [of vj v] 3 word wordm
        by (auto simp: qdivrem_def simp del: skip_v.simps dig.simps)
    next
      case (long n vo)
      have le: "uint v \<le> uint u" using 3(2) by (simp add: word_le_def)
      then show ?thesis
        using algorithm_D_spec [of vo n "digits 0 u" "digits vj v" qj arq] long digits_spec [of 0 u] digits_spec(1) [of vj v] assms 3 word wordm
        by (auto simp: qdivrem_def simp del: skip_v.simps dig.simps)
    qed
  qed (simp add: qdivrem_def)
qed

text \<open>The magnitude of a signed number, as the routines compute it.\<close>

definition magnitude :: "u64 \<Rightarrow> u64" where
  "magnitude a = (if sint a < 0 then - a else a)"

lemma uint_magnitude: "uint (magnitude a) = \<bar>sint a\<bar>"
proof (cases "bit a 63")
  case True
  have b: "uint a < 18446744073709551616" "0 \<le> uint a" using uint_lt2p [of a] by simp_all
  then have s: "sint a = uint a - 18446744073709551616"
    using True by (simp add: sint_uint signed_take_bit_eq_take_bit_minus bit_unsigned_iff take_bit_int_eq_self_iff)
  have "uint a \<noteq> 0" using True word_uint_eqI [of a 0] by force
  then have "uint (- a) = 18446744073709551616 - uint a" using b by (simp add: uint_word_ariths zmod_zminus1_eq_if)
  then show ?thesis using s b by (simp add: magnitude_def)
next
  case False
  then have "sint a = uint a" using uint_lt2p [of a] by (simp add: sint_uint signed_take_bit_eq_take_bit_minus bit_unsigned_iff take_bit_int_eq_self_iff)
  then show ?thesis by (simp add: magnitude_def)
qed

lemma magnitude_zero: "magnitude a = 0 \<longleftrightarrow> a = 0"
  by (simp add: magnitude_def)

lemma word_of_uint_div: "word_of_int (\<bar>sint a\<bar> div \<bar>sint b\<bar>) = magnitude a div magnitude b"
  by (simp add: uint_magnitude [symmetric] word_div_def)

lemma word_of_uint_mod: "word_of_int (\<bar>sint a\<bar> mod \<bar>sint b\<bar>) = magnitude a mod magnitude b"
  by (simp add: uint_magnitude [symmetric] word_mod_def)

text \<open>C1: for a divisor other than 0, \<^verbatim>\<open>__qdivrem\<close> returns without leaving its arrays, whatever they held before, and gives the
  quotient and the remainder; \<^verbatim>\<open>__udivdi3\<close> and \<^verbatim>\<open>__umoddi3\<close> are the unsigned operators, \<^verbatim>\<open>__divdi3\<close> and \<^verbatim>\<open>__moddi3\<close>
  the signed ones, rounding towards zero and wrapping where the quotient overflows.  A divisor of 0 traps.\<close>

theorem qdivrem_correct:
  assumes "length qj = 5"
  shows "qdivrem vj qj u v arq = (if v = 0 then None else Some (u div v, if arq then Some (u mod v) else None)) \<and>
    udivdi3 vj qj u v = (if v = 0 then None else Some (u div v)) \<and>
    umoddi3 vj qj u v = (if v = 0 then None else Some (u mod v)) \<and>
    divdi3 vj qj u v = (if v = 0 then None else Some (word_of_int (sint u sdiv sint v))) \<and>
    moddi3 vj qj u v = (if v = 0 then None else Some (word_of_int (sint u smod sint v)))"
proof -
  note q = qdivrem_exact [OF assms]
  have "divdi3 vj qj u v = (if v = 0 then None else Some (if (sint u < 0) \<noteq> (sint v < 0) then - (magnitude u div magnitude v) else magnitude u div magnitude v))"
    by (auto simp: divdi3_def q magnitude_def)
  moreover have "moddi3 vj qj u v = (if v = 0 then None else Some (if sint u < 0 then - (magnitude u mod magnitude v) else magnitude u mod magnitude v))"
    by (auto simp: moddi3_def q magnitude_def)
  moreover have "word_of_int (sint u sdiv sint v) = (if (sint u < 0) \<noteq> (sint v < 0) then - (magnitude u div magnitude v) else magnitude u div magnitude v)"
    unfolding word_of_uint_div [symmetric] by (auto simp: signed_divide_int_def sgn_if)
  moreover have "word_of_int (sint u smod sint v) = (if sint u < 0 then - (magnitude u mod magnitude v) else magnitude u mod magnitude v)"
    unfolding word_of_uint_mod [symmetric] by (auto simp: signed_modulo_int_def sgn_if)
  ultimately show ?thesis by (simp add: q udivdi3_def umoddi3_def)
qed

theorem qdivrem_correct_witness:
  "qdivrem 7 [1, 2, 3, 4, 5] 0x123456789abcdef0 0x1234567890 True = Some (0x1000000, Some 0xabcdef0)"
  using qdivrem_correct [of "[1, 2, 3, 4, 5]" 7 "0x123456789abcdef0" "0x1234567890" True] by simp

end
