(* ===== verification/Kmalloc.thy ===== *)
theory Kmalloc
  imports Coremap
begin

text \<open>
  \<^verbatim>\<open>kern/vm/kmalloc.c\<close>: the subpage allocator and the two entry points.  The 256 page references are a list, and a
  pointer to one of them is its index; memory is a function from addresses to 32-bit words, of which the allocator
  reads and writes the first word of free blocks.  The consistency checks are compiled to nothing (\<^verbatim>\<open>SLOW\<close> is not
  defined).  Pages come from \<^verbatim>\<open>alloc_kpages\<close> and go back to \<^verbatim>\<open>free_kpages\<close> of the coremap.
\<close>

section \<open>Definitions\<close>

definition sizes :: "nat list" where
  "sizes = [16, 32, 64, 128, 256, 512, 1024, 2048]"

abbreviation (input) NSIZES :: nat where "NSIZES \<equiv> 8"
abbreviation (input) LARGEST_SUBPAGE_SIZE :: nat where "LARGEST_SUBPAGE_SIZE \<equiv> 2048"
abbreviation (input) INVALID_OFFSET :: nat where "INVALID_OFFSET \<equiv> 65535"
abbreviation (input) NPAGEREFS :: nat where "NPAGEREFS \<equiv> 256"
abbreviation (input) INUSE_WORDS :: nat where "INUSE_WORDS \<equiv> 8"

record pageref =
  next_samesize :: "nat option"
  next_all :: "nat option"
  pageaddr_and_blocktype :: nat
  freelist_offset :: nat
  nfree :: nat

record kmst =
  pagerefs :: "pageref list"
  pagerefs_inuse :: "u32 list"
  sizebases :: "nat option list"
  allbase :: "nat option"
  words :: "nat \<Rightarrow> nat"
  kmalloc_spinlock :: spinlock
  phys :: pmem

definition PR_PAGEADDR :: "pageref \<Rightarrow> nat" where
  "PR_PAGEADDR pr = page_frame (pageaddr_and_blocktype pr)"

definition PR_BLOCKTYPE :: "pageref \<Rightarrow> nat" where
  "PR_BLOCKTYPE pr = pageaddr_and_blocktype pr mod PAGE_SIZE"

definition MKPAB :: "nat \<Rightarrow> nat \<Rightarrow> nat" where
  "MKPAB pa blk = page_frame pa + blk mod PAGE_SIZE"

text \<open>\<open>len\<close> bytes from \<open>ptr\<close> on.\<close>

definition fill_deadbeef :: "nat \<Rightarrow> nat \<Rightarrow> (nat \<Rightarrow> nat) \<Rightarrow> nat \<Rightarrow> nat" where
  "fill_deadbeef ptr len m = (\<lambda>a. if ptr \<le> a \<and> a < ptr + 4 * (len div 4) \<and> 4 dvd a - ptr then 0xdeadbeef else m a)"

text \<open>The loop over the bits of a word ends when the mask is shifted out, which is an assertion failure.\<close>

partial_function (option) find_clear :: "u32 \<Rightarrow> nat \<Rightarrow> u32 \<Rightarrow> (nat \<times> u32) option" where
  "find_clear k j w = (if k = 0 then None else if w AND k = 0 then Some (j, w OR k) else find_clear (push_bit 1 k) (j + 1) w)"

function allocpageref_from :: "nat \<Rightarrow> u32 list \<Rightarrow> (nat option \<times> u32 list) option" where
  "allocpageref_from i inuse =
     (if i < INUSE_WORDS then do {
        w \<leftarrow> rd inuse i;
        if w = 0xffffffff then allocpageref_from (i + 1) inuse
        else do {
          (j, w) \<leftarrow> find_clear 1 0 w;
          inuse \<leftarrow> wr inuse i w;
          Some (Some (i * 32 + j), inuse)
        }
      }
      else Some (None, inuse))"
  by pat_completeness auto
termination
  by (relation "measure (\<lambda>(i, inuse). INUSE_WORDS - i)") auto

definition allocpageref :: "kmst \<Rightarrow> (nat option \<times> kmst) option" where
  "allocpageref k = do {
     (r, inuse) \<leftarrow> allocpageref_from 0 (pagerefs_inuse k);
     Some (r, k\<lparr>pagerefs_inuse := inuse\<rparr>)
   }"

definition freepageref :: "nat \<Rightarrow> kmst \<Rightarrow> kmst option" where
  "freepageref j k = do {
     KASSERT (j < NPAGEREFS);
     w \<leftarrow> rd (pagerefs_inuse k) (j div 32);
     KASSERT (w AND push_bit (j mod 32) 1 \<noteq> 0);
     inuse \<leftarrow> wr (pagerefs_inuse k) (j div 32) (w AND NOT (push_bit (j mod 32) 1));
     Some (k\<lparr>pagerefs_inuse := inuse\<rparr>)
   }"

text \<open>The walk of \<^verbatim>\<open>remove_lists\<close> over one of the two lists, given by its link field.  \<open>prev\<close> is the page reference whose
  link \<^verbatim>\<open>guy\<close> points to, or \<open>None\<close> for the base of the list.\<close>

partial_function (option) unlink ::
  "(pageref \<Rightarrow> nat option) \<Rightarrow> (nat option \<Rightarrow> pageref \<Rightarrow> pageref) \<Rightarrow> nat \<Rightarrow> nat option \<Rightarrow> nat option \<Rightarrow> nat option \<Rightarrow> pageref list \<Rightarrow>
   (nat option \<times> pageref list) option" where
  "unlink nx put pr prev guy base prs =
     (case guy of
        None \<Rightarrow> Some (base, prs)
      | Some g \<Rightarrow> do {
          gr \<leftarrow> rd prs g;
          if g = pr then
            (case prev of
               None \<Rightarrow> Some (nx gr, prs)
             | Some h \<Rightarrow> do { hr \<leftarrow> rd prs h; prs \<leftarrow> wr prs h (put (nx gr) hr); Some (base, prs) })
          else unlink nx put pr (Some g) (nx gr) base prs
        })"

definition put_samesize :: "nat option \<Rightarrow> pageref \<Rightarrow> pageref" where
  "put_samesize p r = r\<lparr>next_samesize := p\<rparr>"

definition put_all :: "nat option \<Rightarrow> pageref \<Rightarrow> pageref" where
  "put_all p r = r\<lparr>next_all := p\<rparr>"

definition remove_lists :: "nat \<Rightarrow> nat \<Rightarrow> kmst \<Rightarrow> kmst option" where
  "remove_lists pr blktype k = do {
     KASSERT (blktype < NSIZES);
     base \<leftarrow> rd (sizebases k) blktype;
     (base, prs) \<leftarrow> unlink next_samesize put_samesize pr None base base (pagerefs k);
     sb \<leftarrow> wr (sizebases k) blktype base;
     (ab, prs) \<leftarrow> unlink next_all put_all pr None (allbase k) (allbase k) prs;
     Some (k\<lparr>sizebases := sb, allbase := ab, pagerefs := prs\<rparr>)
   }"

function blocktype_from :: "nat \<Rightarrow> nat \<Rightarrow> nat option" where
  "blocktype_from i sz = (if i < NSIZES then if sz \<le> sizes ! i then Some i else blocktype_from (i + 1) sz else None)"
  by pat_completeness auto
termination
  by (relation "measure (\<lambda>(i, sz). NSIZES - i)") auto

definition blocktype :: "nat \<Rightarrow> nat option" where
  "blocktype sz = blocktype_from 0 sz"

definition km_lock :: "nat option \<Rightarrow> kmst \<Rightarrow> kmst option" where
  "km_lock cpu k = do {
     (lk, s) \<leftarrow> spinlock_acquire 0 cpu (kmalloc_spinlock k) (cur_spl (phys k));
     Some (k\<lparr>kmalloc_spinlock := lk, phys := (phys k)\<lparr>cur_spl := s\<rparr>\<rparr>)
   }"

definition km_unlock :: "nat option \<Rightarrow> kmst \<Rightarrow> kmst option" where
  "km_unlock cpu k = do {
     (lk, s) \<leftarrow> spinlock_release cpu (kmalloc_spinlock k) (cur_spl (phys k));
     Some (k\<lparr>kmalloc_spinlock := lk, phys := (phys k)\<lparr>cur_spl := s\<rparr>\<rparr>)
   }"

text \<open>The search for a page of the right size with a free block.\<close>

partial_function (option) find_page :: "pageref list \<Rightarrow> nat \<Rightarrow> nat option \<Rightarrow> nat option option" where
  "find_page prs blktype p =
     (case p of
        None \<Rightarrow> Some None
      | Some i \<Rightarrow> do {
          pr \<leftarrow> rd prs i;
          KASSERT (PR_BLOCKTYPE pr = blktype);
          if 0 < nfree pr then Some (Some i) else find_page prs blktype (next_samesize pr)
        })"

text \<open>From the label \<^verbatim>\<open>doalloc\<close> on.\<close>

definition doalloc :: "nat option \<Rightarrow> nat \<Rightarrow> kmst \<Rightarrow> (nat \<times> kmst) option" where
  "doalloc cpu i k = do {
     pr \<leftarrow> rd (pagerefs k) i;
     KASSERT (freelist_offset pr < PAGE_SIZE);
     prpage \<leftarrow> Some (PR_PAGEADDR pr);
     retptr \<leftarrow> Some (u32 (prpage + freelist_offset pr));
     fl \<leftarrow> Some (words k retptr);
     pr \<leftarrow> Some (pr\<lparr>nfree := (nfree pr + 65535) mod 65536\<rparr>);
     pr \<leftarrow> (if fl \<noteq> 0 then do {
              KASSERT (0 < nfree pr);
              KASSERT (usub fl prpage < PAGE_SIZE);
              Some (pr\<lparr>freelist_offset := usub fl prpage\<rparr>)
            }
            else do {
              KASSERT (nfree pr = 0);
              Some (pr\<lparr>freelist_offset := INVALID_OFFSET\<rparr>)
            });
     prs \<leftarrow> wr (pagerefs k) i pr;
     k \<leftarrow> km_unlock cpu (k\<lparr>pagerefs := prs\<rparr>);
     Some (retptr, k)
   }"

text \<open>The free list of a fresh page.\<close>

function carve :: "nat \<Rightarrow> nat \<Rightarrow> nat \<Rightarrow> nat \<Rightarrow> (nat \<Rightarrow> nat) \<Rightarrow> (nat \<Rightarrow> nat) option" where
  "carve fla sz i n m =
     (if i < n then do {
        KASSERT (u32 (fla + i * sz) \<noteq> u32 (fla + (i - 1) * sz));
        carve fla sz (i + 1) n (m(u32 (fla + i * sz) := u32 (fla + (i - 1) * sz)))
      }
      else Some m)"
  by pat_completeness auto
termination
  by (relation "measure (\<lambda>(fla, sz, i, n, m). n - i)") auto

definition fresh_page :: "nat \<Rightarrow> nat \<Rightarrow> nat \<Rightarrow> kmst \<Rightarrow> kmst option" where
  "fresh_page blktype prpage i k = do {
     pr \<leftarrow> rd (pagerefs k) i;
     sz \<leftarrow> rd sizes blktype;
     n \<leftarrow> Some (PAGE_SIZE div sz);
     m \<leftarrow> carve prpage sz 1 n ((words k)(prpage := 0));
     off \<leftarrow> Some (usub (if 1 < n then u32 (prpage + (n - 1) * sz) else prpage) prpage);
     KASSERT (off = (n - 1) * sz);
     base \<leftarrow> rd (sizebases k) blktype;
     prs \<leftarrow> wr (pagerefs k) i (pr\<lparr>pageaddr_and_blocktype := MKPAB prpage blktype, nfree := n, freelist_offset := off,
       next_samesize := base, next_all := allbase k\<rparr>);
     sb \<leftarrow> wr (sizebases k) blktype (Some i);
     Some (k\<lparr>words := m, pagerefs := prs, sizebases := sb, allbase := Some i\<rparr>)
   }"

text \<open>From the release of the lock after the search on: a fresh page is set up, and the block is taken from it.\<close>

definition alloc_fresh :: "nat option \<Rightarrow> nat \<Rightarrow> kmst \<Rightarrow> (nat \<times> kmst) option" where
  "alloc_fresh cpu blktype k = do {
     k \<leftarrow> km_unlock cpu k;
     (prpage, p) \<leftarrow> alloc_kpages cpu 1 (phys k);
     k \<leftarrow> Some (k\<lparr>phys := p\<rparr>);
     if prpage = 0 then Some (0, k)
     else do {
       k \<leftarrow> km_lock cpu k;
       (r, k) \<leftarrow> allocpageref k;
       case r of
         None \<Rightarrow> do {
           k \<leftarrow> km_unlock cpu k;
           p \<leftarrow> free_kpages cpu prpage (phys k);
           Some (0, k\<lparr>phys := p\<rparr>)
         }
       | Some i \<Rightarrow> do {
           k \<leftarrow> fresh_page blktype prpage i k;
           doalloc cpu i k
         }
     }
   }"

definition subpage_kmalloc :: "nat option \<Rightarrow> nat \<Rightarrow> kmst \<Rightarrow> (nat \<times> kmst) option" where
  "subpage_kmalloc cpu sz k = do {
     blktype \<leftarrow> blocktype sz;
     k \<leftarrow> km_lock cpu k;
     base \<leftarrow> rd (sizebases k) blktype;
     r \<leftarrow> find_page (pagerefs k) blktype base;
     case r of
       Some i \<Rightarrow> doalloc cpu i k
     | None \<Rightarrow> alloc_fresh cpu blktype k
   }"

text \<open>The search for the page of a block.\<close>

partial_function (option) find_owner :: "pageref list \<Rightarrow> nat \<Rightarrow> nat option \<Rightarrow> nat option option" where
  "find_owner prs ptr p =
     (case p of
        None \<Rightarrow> Some None
      | Some i \<Rightarrow> do {
          pr \<leftarrow> rd prs i;
          KASSERT (PR_BLOCKTYPE pr < NSIZES);
          if PR_PAGEADDR pr \<le> ptr \<and> ptr < u32 (PR_PAGEADDR pr + PAGE_SIZE) then Some (Some i)
          else find_owner prs ptr (next_all pr)
        })"

definition subpage_kfree :: "nat option \<Rightarrow> nat \<Rightarrow> kmst \<Rightarrow> (int \<times> kmst) option" where
  "subpage_kfree cpu ptr k = do {
     k \<leftarrow> km_lock cpu k;
     r \<leftarrow> find_owner (pagerefs k) ptr (allbase k);
     case r of
       None \<Rightarrow> do { k \<leftarrow> km_unlock cpu k; Some (- 1, k) }
     | Some i \<Rightarrow> do {
         pr \<leftarrow> rd (pagerefs k) i;
         prpage \<leftarrow> Some (PR_PAGEADDR pr);
         blktype \<leftarrow> Some (PR_BLOCKTYPE pr);
         sz \<leftarrow> rd sizes blktype;
         offset \<leftarrow> Some (ptr - prpage);
         KASSERT (\<not> (PAGE_SIZE \<le> offset \<or> offset mod sz \<noteq> 0));
         m \<leftarrow> Some (fill_deadbeef ptr sz (words k));
         fl \<leftarrow> Some (if freelist_offset pr = INVALID_OFFSET then 0 else u32 (prpage + freelist_offset pr));
         m \<leftarrow> Some (m(u32 (prpage + offset) := fl));
         pr \<leftarrow> Some (pr\<lparr>freelist_offset := offset, nfree := (nfree pr + 1) mod 65536\<rparr>);
         prs \<leftarrow> wr (pagerefs k) i pr;
         k \<leftarrow> Some (k\<lparr>words := m, pagerefs := prs\<rparr>);
         KASSERT (nfree pr \<le> PAGE_SIZE div sz);
         if nfree pr = PAGE_SIZE div sz then do {
           k \<leftarrow> remove_lists i blktype k;
           k \<leftarrow> freepageref i k;
           k \<leftarrow> km_unlock cpu k;
           p \<leftarrow> free_kpages cpu prpage (phys k);
           Some (0, k\<lparr>phys := p\<rparr>)
         }
         else do {
           k \<leftarrow> km_unlock cpu k;
           Some (0, k)
         }
       }
   }"

definition kmalloc :: "nat option \<Rightarrow> nat \<Rightarrow> kmst \<Rightarrow> (nat \<times> kmst) option" where
  "kmalloc cpu sz k =
     (if LARGEST_SUBPAGE_SIZE \<le> sz then do {
        (address, p) \<leftarrow> alloc_kpages cpu (int (usub (u32 (sz + PAGE_SIZE)) 1 div PAGE_SIZE)) (phys k);
        Some (address, k\<lparr>phys := p\<rparr>)
      }
      else subpage_kmalloc cpu sz k)"

definition kfree :: "nat option \<Rightarrow> nat \<Rightarrow> kmst \<Rightarrow> kmst option" where
  "kfree cpu ptr k =
     (if ptr = 0 then Some k
      else do {
        (r, k) \<leftarrow> subpage_kfree cpu ptr k;
        if r \<noteq> 0 then do {
          KASSERT (ptr mod PAGE_SIZE = 0);
          p \<leftarrow> free_kpages cpu ptr (phys k);
          Some (k\<lparr>phys := p\<rparr>)
        }
        else Some k
      })"

text \<open>The loops unfold only where a proof asks for it.\<close>

lemmas km_loops [simp del] = allocpageref_from.simps blocktype_from.simps carve.simps

end
