(* ===== verification/Kmalloc_Correct.thy ===== *)
theory Kmalloc_Correct
  imports Kmalloc
begin

text \<open>
  Correctness of the subpage allocator: the invariant that ties page references, the two lists through them and the
  free lists threaded through memory to the pages and blocks they stand for, and the contracts of \<^verbatim>\<open>kmalloc\<close> and
  \<^verbatim>\<open>kfree\<close>.
\<close>

section \<open>Where the pages come from\<close>

text \<open>What the subpage allocator needs of the page allocator below it.\<close>

locale page_source =
  fixes pool :: "'s \<Rightarrow> nat set"
    and invar :: "'s \<Rightarrow> bool"
    and get :: "'s \<Rightarrow> (nat \<times> 's) option"
    and put :: "nat \<Rightarrow> 's \<Rightarrow> 's option"
    and empty :: "'s \<Rightarrow> bool"
  assumes pool_pages: "invar s \<Longrightarrow> a \<in> pool s \<Longrightarrow> 0 < a \<and> PAGE_SIZE dvd a \<and> a + PAGE_SIZE < 4294967296"
    and get_page: "invar s \<Longrightarrow> \<exists>a s'. get s = Some (a, s') \<and> invar s' \<and>
      (if a = 0 then s' = s \<and> empty s else a \<notin> pool s \<and> pool s' = insert a (pool s))"
    and put_page: "invar s \<Longrightarrow> a \<in> pool s \<Longrightarrow> \<exists>s'. put a s = Some s' \<and> invar s' \<and> pool s' = pool s - {a}"
begin

lemma get_cases:
  assumes "invar s"
  obtains (none) "get s = Some (0, s)" "empty s"
  | (got) a s' where "get s = Some (a, s')" "invar s'" "a \<notin> pool s" "pool s' = insert a (pool s)" "0 < a"
      "PAGE_SIZE dvd a" "a + PAGE_SIZE < 4294967296"
proof -
  obtain a s' where g: "get s = Some (a, s')" "invar s'"
    "if a = 0 then s' = s \<and> empty s else a \<notin> pool s \<and> pool s' = insert a (pool s)"
    using get_page [OF assms] by blast
  show thesis
  proof (cases "a = 0")
    case True
    then show ?thesis using g by (simp add: none)
  next
    case False
    then have "a \<notin> pool s" "pool s' = insert a (pool s)" using g(3) by simp_all
    then show ?thesis using got [OF g(1,2)] pool_pages [OF g(2), of a] by simp
  qed
qed

text \<open>A page that is taken and given back at once leaves the pool as it was.\<close>

lemma get_put:
  assumes "invar s" "get s = Some (a, s')" "a \<noteq> 0"
  shows "\<exists>s''. put a s' = Some s'' \<and> invar s'' \<and> pool s'' = pool s"
proof -
  have "invar s'" "a \<notin> pool s" "pool s' = insert a (pool s)" using get_page [OF assms(1)] assms(2,3) by auto
  then show ?thesis using put_page [of s' a] by simp
qed

end

definition kpool :: "pmem \<Rightarrow> nat set" where
  "kpool p = (\<lambda>i. page_addr (cm p) i + MIPS_KSEG0) ` used_pages (cm p)"

definition pinv :: "pmem \<Rightarrow> bool" where
  "pinv p \<longleftrightarrow> pm_ok p \<and> singles_inv (cm p)"

definition no_pages :: "pmem \<Rightarrow> bool" where
  "no_pages p \<longleftrightarrow> used_pages (cm p) = {..<cm_entries (cm p)}"

lemma pm_ok_cm [simp]: "pm_ok (p\<lparr>cm := m\<rparr>) = pm_ok p"
  by (simp add: pm_ok_def)

lemma singles_page:
  assumes "singles_inv m" "i < cm_entries m"
  shows "0 < page_addr m i" "PAGE_SIZE dvd page_addr m i" "page_addr m i < 508*1024*1024"
  using assms by (auto simp: singles_inv_def cm_rep_def cm_ok_def page_addr_def)

interpretation kp: page_source kpool pinv "alloc_kpages cpu 1" "free_kpages cpu" no_pages for cpu
proof
  fix s a
  assume inv: "pinv s"
  then have si: "singles_inv (cm s)" and ok: "pm_ok s" by (simp_all add: pinv_def)
  show "0 < a \<and> PAGE_SIZE dvd a \<and> a + PAGE_SIZE < 4294967296" if a: "a \<in> kpool s"
  proof -
    obtain i where i: "a = page_addr (cm s) i + MIPS_KSEG0" "i < cm_entries (cm s)"
      using a by (auto simp: kpool_def used_pages_def)
    have "PAGE_SIZE dvd (MIPS_KSEG0 :: nat)" by (simp add: dvd_def)
    then show ?thesis using singles_page [OF si i(2)] i(1) by simp
  qed
  show "\<exists>a s'. alloc_kpages cpu 1 s = Some (a, s') \<and> pinv s' \<and>
      (if a = 0 then s' = s \<and> no_pages s else a \<notin> kpool s \<and> kpool s' = insert a (kpool s))"
    using si
  proof (cases rule: one_page [where iskern = True])
    case full
    then show ?thesis using alloc_kpages_eq [OF ok full(1)] inv by (simp add: no_pages_def)
  next
    case (got j m')
    have "PADDR_TO_KVADDR (page_addr (cm s) j) = page_addr (cm s) j + MIPS_KSEG0"
      using singles_page [OF si got(4)] by (simp add: PADDR_TO_KVADDR_def)
    then have "alloc_kpages cpu 1 s = Some (page_addr (cm s) j + MIPS_KSEG0, s\<lparr>cm := m'\<rparr>)"
      using alloc_kpages_eq [OF ok got(1)] got(2,3) by simp
    moreover have "page_addr m' = page_addr (cm s)" using got(9) by (auto simp: page_addr_def)
    then have "kpool (s\<lparr>cm := m'\<rparr>) = insert (page_addr (cm s) j + MIPS_KSEG0) (kpool s)"
      using got(6) by (simp add: kpool_def)
    moreover have "page_addr (cm s) j + MIPS_KSEG0 \<notin> kpool s"
      using got(5) by (auto simp: kpool_def page_addr_inj)
    ultimately show ?thesis using ok got(7) by (auto simp: pinv_def)
  qed
  show "\<exists>s'. free_kpages cpu a s = Some s' \<and> pinv s' \<and> kpool s' = kpool s - {a}" if a: "a \<in> kpool s"
  proof -
    obtain i where i: "a = page_addr (cm s) i + MIPS_KSEG0" "i \<in> used_pages (cm s)"
      using a by (auto simp: kpool_def)
    then have l: "i < cm_entries (cm s)" by (simp add: used_pages_def)
    have k: "KVADDR_TO_PADDR a = page_addr (cm s) i"
      using singles_page [OF si l] i(1) by (simp add: KVADDR_TO_PADDR_def)
    obtain m where m: "removefromcoremap (page_addr (cm s) i) (cm s) = Some m"
      "used_pages m = used_pages (cm s) - {i}" "singles_inv m"
      using pages.free_used [OF si i(2)] by blast
    have "page_addr m = page_addr (cm s)"
      unfolding page_addr_def fun_eq_iff using removefromcoremap_keeps [OF m(1)] by simp
    then have "kpool (s\<lparr>cm := m\<rparr>) = kpool s - {a}"
      using m(2) i(1) image_set_diff [of "\<lambda>i. page_addr (cm s) i + MIPS_KSEG0" "used_pages (cm s)" "{i}"]
      by (simp add: kpool_def inj_def page_addr_inj)
    moreover have "free_kpages cpu a s = Some (s\<lparr>cm := m\<rparr>)"
      unfolding free_kpages_eq [OF ok] k m(1) by simp
    ultimately show ?thesis using m(3) ok by (simp add: pinv_def)
  qed
qed

section \<open>The page references as slots\<close>

definition refs_used :: "kmst \<Rightarrow> nat set" where
  "refs_used k = {j. j < NPAGEREFS \<and> bit (pagerefs_inuse k ! (j div 32)) (j mod 32)}"

lemma find_clear_spec:
  assumes "j < 32" "\<forall>i<j. bit w i" "\<exists>i. j \<le> i \<and> i < 32 \<and> \<not> bit w i"
  shows "\<exists>i<32. \<not> bit w i \<and> find_clear (push_bit j 1) j w = Some (i, w OR push_bit i 1)"
  using assms
proof (induction "32 - j" arbitrary: j)
  case (Suc n)
  have nz: "push_bit j 1 \<noteq> (0 :: u32)"
    using Suc.prems(1) by simp
  show ?case
  proof (cases "bit w j")
    case False
    then have "find_clear (push_bit j 1) j w = Some (j, w OR push_bit j 1)"
      using nz by (subst find_clear.simps) (simp add: and_one_bit del: push_bit_of_1)
    then show ?thesis using False Suc.prems(1) by blast
  next
    case True
    obtain i where i: "j \<le> i" "i < 32" "\<not> bit w i" using Suc.prems(3) by blast
    then have "j + 1 \<le> i" using True by (metis Suc_eq_plus1 Suc_leI le_neq_implies_less)
    then have "\<exists>i<32. \<not> bit w i \<and> find_clear (push_bit (j + 1) 1) (j + 1) w = Some (i, w OR push_bit i 1)"
      using Suc.hyps i True Suc.prems(2) by (intro Suc.hyps(1)) (auto simp: less_Suc_eq)
    moreover have "find_clear (push_bit j 1) j w = find_clear (push_bit (j + 1) 1) (j + 1) w"
      using nz True by (subst find_clear.simps) (simp add: and_one_bit add.commute del: push_bit_of_1)
    ultimately show ?thesis by simp
  qed
qed simp

lemma allocpageref_from_spec:
  "length inuse = 8 \<Longrightarrow>
   (allocpageref_from i inuse = Some (None, inuse) \<and> (\<forall>w\<in>set (drop i inuse). w = 0xffffffff)) \<or>
   (\<exists>a j. i \<le> a \<and> a < 8 \<and> j < 32 \<and> \<not> bit (inuse ! a) j \<and>
     allocpageref_from i inuse = Some (Some (a * 32 + j), inuse[a := inuse ! a OR push_bit j 1]))"
proof (induction i inuse rule: allocpageref_from.induct)
  case (1 i inuse)
  show ?case
  proof (cases "i < 8")
    case False
    then show ?thesis using 1(2) by (simp add: allocpageref_from.simps)
  next
    case True
    then have r: "rd inuse i = Some (inuse ! i)" using 1(2) by simp
    have d: "drop i inuse = inuse ! i # drop (i + 1) inuse" using True 1(2) by (simp add: Cons_nth_drop_Suc)
    show ?thesis
    proof (cases "inuse ! i = 0xffffffff")
      case full: True
      have "allocpageref_from i inuse = allocpageref_from (i + 1) inuse"
        using True r full by (simp add: allocpageref_from.simps [of i])
      then show ?thesis using 1(1) [OF True r full 1(2)] d full by (auto dest: Suc_leD)
    next
      case False
      have "(0xffffffff :: u32) = mask LENGTH(32)" by (simp add: mask_eq_exp_minus_1)
      then obtain b where "b < 32" "\<not> bit (inuse ! i) b" using False word_ne_mask [of "inuse ! i"] by auto
      then obtain j where j: "j < 32" "\<not> bit (inuse ! i) j"
        "find_clear (push_bit 0 1) 0 (inuse ! i) = Some (j, inuse ! i OR push_bit j 1)"
        using find_clear_spec [of 0 "inuse ! i"] by auto
      then have "allocpageref_from i inuse = Some (Some (i * 32 + j), inuse[i := inuse ! i OR push_bit j 1])"
        using True r False 1(2) by (simp add: allocpageref_from.simps [of i])
      then show ?thesis using True j by blast
    qed
  qed
qed

lemma refs_used_upd:
  assumes "length (pagerefs_inuse k) = 8" "a < 8" "j < 32"
  shows "refs_used (k\<lparr>pagerefs_inuse := (pagerefs_inuse k)[a := pagerefs_inuse k ! a OR push_bit j 1]\<rparr>) =
      insert (a * 32 + j) (refs_used k)" (is ?set)
    and "refs_used (k\<lparr>pagerefs_inuse := (pagerefs_inuse k)[a := pagerefs_inuse k ! a AND NOT (push_bit j 1)]\<rparr>) =
      refs_used k - {a * 32 + j}" (is ?clear)
proof -
  have e: "x = a * 32 + j \<longleftrightarrow> x div 32 = a \<and> x mod 32 = j" for x
    using assms(3) by auto
  have l: "x < 256 \<longleftrightarrow> x div 32 < 8" for x :: nat by auto
  show ?set
    unfolding set_eq_iff insert_iff e
    using assms by (auto simp: refs_used_def l nth_list_update bit_or_one_bit simp del: push_bit_of_1)
  show ?clear
    unfolding set_eq_iff Diff_iff singleton_iff e
    using assms by (auto simp: refs_used_def l nth_list_update bit_and_not_one_bit simp del: push_bit_of_1)
qed

interpretation prefs: slot_allocator refs_used "\<lambda>k. {..<NPAGEREFS}" "\<lambda>k. length (pagerefs_inuse k) = 8" allocpageref freepageref
proof
  fix k :: kmst
  assume len: "length (pagerefs_inuse k) = 8"
  show "refs_used k \<subseteq> {..<NPAGEREFS}" by (auto simp: refs_used_def)
  note spec = allocpageref_from_spec [OF len, of 0]
  show "\<exists>r k'. allocpageref k = Some (r, k')" using spec by (auto simp: allocpageref_def)
  show "i \<in> {..<NPAGEREFS} - refs_used k \<and> refs_used k' = insert i (refs_used k) \<and> {..<NPAGEREFS} = {..<NPAGEREFS} \<and>
      length (pagerefs_inuse k') = 8" if t: "allocpageref k = Some (Some i, k')" for i k'
  proof -
    obtain a j where a: "a < 8" "j < 32" "\<not> bit (pagerefs_inuse k ! a) j" "i = a * 32 + j"
      "k' = k\<lparr>pagerefs_inuse := (pagerefs_inuse k)[a := pagerefs_inuse k ! a OR push_bit j 1]\<rparr>"
      using t spec by (auto simp: allocpageref_def)
    then have "i \<notin> refs_used k" "i < 256" by (simp_all add: refs_used_def)
    then show ?thesis using refs_used_upd(1) [OF len a(1,2)] a(4,5) len by simp
  qed
  show "k' = k \<and> refs_used k = {..<NPAGEREFS}" if "allocpageref k = Some (None, k')" for k'
  proof -
    have a: "k' = k" "\<forall>w\<in>set (pagerefs_inuse k). w = 0xffffffff"
      using that spec by (auto simp: allocpageref_def)
    have "bit (0xffffffff :: u32) i" if "i < 32" for i
      using that bit_mask_iff [of 32 i, where 'a = u32] by (simp add: mask_eq_exp_minus_1)
    moreover have "pagerefs_inuse k ! (x div 32) = 0xffffffff" if "x < NPAGEREFS" for x
      using that a(2) len by simp
    ultimately have "{..<NPAGEREFS} \<subseteq> refs_used k" by (auto simp: refs_used_def)
    then show ?thesis using a(1) by (auto simp: refs_used_def)
  qed
  show "\<exists>k'. freepageref i k = Some k' \<and> refs_used k' = refs_used k - {i} \<and> {..<NPAGEREFS} = {..<NPAGEREFS} \<and>
      length (pagerefs_inuse k') = 8" if i: "i \<in> refs_used k" for i
    using i len refs_used_upd(2) [OF len, of "i div 32" "i mod 32"]
    by (auto simp: freepageref_def refs_used_def and_one_bit simp del: push_bit_of_1)
qed simp

section \<open>Linked lists\<close>

text \<open>\<open>path f p xs q\<close>: the links \<open>f\<close> lead from \<open>p\<close> through exactly the elements of \<open>xs\<close> to \<open>q\<close>.\<close>

fun path :: "('a \<Rightarrow> 'a option) \<Rightarrow> 'a option \<Rightarrow> 'a list \<Rightarrow> 'a option \<Rightarrow> bool" where
  "path f p [] q \<longleftrightarrow> p = q"
| "path f p (x # xs) q \<longleftrightarrow> p = Some x \<and> path f (f x) xs q"

abbreviation linked :: "('a \<Rightarrow> 'a option) \<Rightarrow> 'a option \<Rightarrow> 'a list \<Rightarrow> bool" where
  "linked f p xs \<equiv> path f p xs None"

lemma path_cong: "(\<And>x. x \<in> set xs \<Longrightarrow> f x = g x) \<Longrightarrow> path f p xs q = path g p xs q"
  by (induction xs arbitrary: p) auto

lemma path_append: "path f p (xs @ ys) q \<longleftrightarrow> (\<exists>r. path f p xs r \<and> path f r ys q)"
  by (induction xs arbitrary: p) auto

text \<open>Both walks of \<^verbatim>\<open>remove_lists\<close>: the element is found and its predecessor, or the base, made to point past it.\<close>

lemma unlink_found:
  assumes "linked (\<lambda>i. nx (prs ! i)) p (us @ x # vs)" "distinct (us @ x # vs)" "\<forall>i\<in>set (us @ x # vs). i < length prs"
  shows "unlink nx put x prev p base prs =
    (if us \<noteq> [] then Some (base, prs[last us := put (nx (prs ! x)) (prs ! last us)])
     else case prev of None \<Rightarrow> Some (nx (prs ! x), prs)
       | Some h \<Rightarrow> do { hr \<leftarrow> rd prs h; prs' \<leftarrow> wr prs h (put (nx (prs ! x)) hr); Some (base, prs') })"
  using assms
proof (induction us arbitrary: p prev)
  case Nil
  then show ?case by (subst unlink.simps) (simp split: option.split)
next
  case (Cons u us)
  have "unlink nx put x prev p base prs = unlink nx put x (Some u) (nx (prs ! u)) base prs"
    using Cons.prems by (subst unlink.simps) auto
  also have "\<dots> = (if us \<noteq> [] then Some (base, prs[last us := put (nx (prs ! x)) (prs ! last us)])
     else do { hr \<leftarrow> rd prs u; prs' \<leftarrow> wr prs u (put (nx (prs ! x)) hr); Some (base, prs') })"
    using Cons.IH [of "nx (prs ! u)" "Some u"] Cons.prems by simp
  finally show ?case using Cons.prems(3) by simp
qed

text \<open>The walk as a whole, for a link field \<open>nx\<close> with update \<open>put\<close>.\<close>

lemma unlink_spec:
  assumes "linked (\<lambda>i. nx (prs ! i)) p (us @ x # vs)" "distinct (us @ x # vs)" "\<forall>i\<in>set (us @ x # vs). i < length prs"
    and put: "\<And>q r. nx (put q r) = q"
  obtains p' prs' where "unlink nx put x None p p prs = Some (p', prs')" "linked (\<lambda>i. nx (prs' ! i)) p' (us @ vs)"
    "length prs' = length prs" "\<And>i. i \<notin> set us \<Longrightarrow> prs' ! i = prs ! i"
    "\<And>i. i < length prs \<Longrightarrow> \<exists>q. prs' ! i = prs ! i \<or> prs' ! i = put q (prs ! i)"
proof (cases us rule: rev_cases)
  case Nil
  then show ?thesis using assms(1) that [of "nx (prs ! x)" prs] unlink_found [OF assms(1,2,3), of put None p] by simp
next
  case (snoc us' u)
  let ?q = "nx (prs ! x)"
  let ?prs = "prs[u := put ?q (prs ! u)]"
  have u: "u < length prs" using assms(3) snoc by simp
  have d: "u \<notin> set us'" "u \<notin> set vs" using assms(2) snoc by auto
  have l: "path (\<lambda>i. nx (prs ! i)) p us' (Some u)" "linked (\<lambda>i. nx (prs ! i)) ?q vs"
    using assms(1) snoc by (auto simp: path_append)
  have same: "nx (?prs ! i) = nx (prs ! i)" if "i \<noteq> u" for i using that by simp
  have "path (\<lambda>i. nx (?prs ! i)) p us' (Some u)" "linked (\<lambda>i. nx (?prs ! i)) ?q vs"
    using l path_cong [of us' "\<lambda>i. nx (?prs ! i)" "\<lambda>i. nx (prs ! i)"]
      path_cong [of vs "\<lambda>i. nx (?prs ! i)" "\<lambda>i. nx (prs ! i)"] d same by metis+
  then have "linked (\<lambda>i. nx (?prs ! i)) p (us @ vs)"
    using snoc u put by (auto simp: path_append)
  moreover have "unlink nx put x None p p prs = Some (p, ?prs)"
    using unlink_found [OF assms(1,2,3), of put None p] snoc by simp
  moreover have "?prs ! i = prs ! i" if "i \<notin> set us" for i using that snoc by auto
  moreover have "\<exists>q. ?prs ! i = prs ! i \<or> ?prs ! i = put q (prs ! i)" if "i < length prs" for i
    using that by (cases "i = u") auto
  ultimately show ?thesis using that by simp
qed

section \<open>The pages and blocks of the heap\<close>

text \<open>A page of the heap: its page reference, address, block type and the free blocks in the order of its free list.\<close>

record hpage =
  hp_ref :: nat
  hp_base :: nat
  hp_type :: nat
  hp_free :: "nat list"

definition hp_size :: "hpage \<Rightarrow> nat" where
  "hp_size g = sizes ! hp_type g"

definition hp_slots :: "hpage \<Rightarrow> nat set" where
  "hp_slots g = (\<lambda>i. hp_base g + i * hp_size g) ` {..<PAGE_SIZE div hp_size g}"

text \<open>The blocks in use, with their sizes.\<close>

definition kblocks :: "hpage list \<Rightarrow> (nat \<times> nat) set" where
  "kblocks gs = (\<Union>g\<in>set gs. (hp_slots g - set (hp_free g)) \<times> {hp_size g})"

text \<open>A free list threaded through the first words of its blocks.\<close>

fun chain :: "(nat \<Rightarrow> nat) \<Rightarrow> nat list \<Rightarrow> bool" where
  "chain m [] \<longleftrightarrow> True"
| "chain m (a # as) \<longleftrightarrow> m a = (case as of [] \<Rightarrow> 0 | b # _ \<Rightarrow> b) \<and> chain m as"

definition hp_ref_ok :: "pageref \<Rightarrow> hpage \<Rightarrow> bool" where
  "hp_ref_ok r g \<longleftrightarrow> pageaddr_and_blocktype r = hp_base g + hp_type g \<and> nfree r = length (hp_free g) \<and>
     freelist_offset r = (case hp_free g of [] \<Rightarrow> INVALID_OFFSET | a # _ \<Rightarrow> a - hp_base g)"

definition hp_ok :: "hpage \<Rightarrow> bool" where
  "hp_ok g \<longleftrightarrow> hp_type g < NSIZES \<and> 0 < hp_base g \<and> PAGE_SIZE dvd hp_base g \<and> hp_base g + PAGE_SIZE < 4294967296 \<and>
     distinct (hp_free g) \<and> set (hp_free g) \<subseteq> hp_slots g \<and> hp_ref g < NPAGEREFS"

definition lists_ok :: "pageref list \<Rightarrow> nat option list \<Rightarrow> nat option \<Rightarrow> hpage list \<Rightarrow> bool" where
  "lists_ok prs sb ab gs \<longleftrightarrow> linked (\<lambda>i. next_all (prs ! i)) ab (map hp_ref gs) \<and>
     (\<forall>b<NSIZES. linked (\<lambda>i. next_samesize (prs ! i)) (sb ! b) (map hp_ref (filter (\<lambda>g. hp_type g = b) gs)))"

definition pages_ok :: "kmst \<Rightarrow> hpage list \<Rightarrow> bool" where
  "pages_ok k gs \<longleftrightarrow> (\<forall>g\<in>set gs. hp_ok g \<and> hp_ref_ok (pagerefs k ! hp_ref g) g \<and> chain (words k) (hp_free g))"

definition not_empty :: "hpage \<Rightarrow> bool" where
  "not_empty g \<longleftrightarrow> length (hp_free g) < PAGE_SIZE div hp_size g"

definition refs_distinct :: "hpage list \<Rightarrow> bool" where
  "refs_distinct gs \<longleftrightarrow> distinct (map hp_ref gs) \<and> distinct (map hp_base gs)"

text \<open>What holds while the lock is held and a page may have only free blocks.\<close>

definition km_core :: "kmst \<Rightarrow> hpage list \<Rightarrow> bool" where
  "km_core k gs \<longleftrightarrow> length (pagerefs k) = NPAGEREFS \<and> length (pagerefs_inuse k) = INUSE_WORDS \<and> length (sizebases k) = NSIZES \<and>
     lists_ok (pagerefs k) (sizebases k) (allbase k) gs \<and> pages_ok k gs \<and> refs_distinct gs \<and>
     refs_used k = set (map hp_ref gs) \<and> set (map hp_base gs) \<subseteq> kpool (phys k)"

definition km_inv :: "kmst \<Rightarrow> hpage list \<Rightarrow> bool" where
  "km_inv k gs \<longleftrightarrow> km_core k gs \<and> list_all not_empty gs \<and> lock_free (kmalloc_spinlock k) \<and> pinv (phys k)"

lemma sizes_length: "length sizes = NSIZES"
  by (simp add: sizes_def)

lemma less_8_cases: "b < (8 :: nat) \<Longrightarrow> b = 0 \<or> b = 1 \<or> b = 2 \<or> b = 3 \<or> b = 4 \<or> b = 5 \<or> b = 6 \<or> b = 7"
  by linarith

lemma sizes_nth: "b < NSIZES \<Longrightarrow> sizes ! b = 2 ^ (b + 4)"
  unfolding sizes_def by (drule less_8_cases) auto

lemma hp_size_ok:
  assumes "hp_ok g"
  shows "hp_size g dvd PAGE_SIZE" "16 \<le> hp_size g" "hp_size g \<le> 2048" "hp_size g * (PAGE_SIZE div hp_size g) = PAGE_SIZE"
    "1 < PAGE_SIZE div hp_size g"
proof -
  have t: "hp_type g < NSIZES" and s: "hp_size g = 2 ^ (hp_type g + 4)"
    using assms sizes_nth by (simp_all add: hp_ok_def hp_size_def)
  have p: "(PAGE_SIZE :: nat) = 2 ^ 12" by simp
  show d: "hp_size g dvd PAGE_SIZE" unfolding p s by (rule le_imp_power_dvd) (use t in simp)
  show "16 \<le> hp_size g" unfolding s using power_increasing [of 4 "hp_type g + 4" "2 :: nat"] by simp
  show l: "hp_size g \<le> 2048" unfolding s using power_increasing [of "hp_type g + 4" 11 "2 :: nat"] t by simp
  show "hp_size g * (PAGE_SIZE div hp_size g) = PAGE_SIZE" using d by simp
  show "1 < PAGE_SIZE div hp_size g" using div_le_mono2 [of "hp_size g" 2048 PAGE_SIZE] l s by simp
qed

lemma hp_slot:
  assumes "hp_ok g" "a \<in> hp_slots g"
  shows "hp_base g \<le> a" "a + hp_size g \<le> hp_base g + PAGE_SIZE" "hp_size g dvd a - hp_base g" "a < 4294967296"
    "a - hp_base g < PAGE_SIZE" "hp_size g dvd a" "0 < a"
proof -
  obtain i where i: "a = hp_base g + i * hp_size g" "i < PAGE_SIZE div hp_size g" using assms(2) by (auto simp: hp_slots_def)
  note z = hp_size_ok [OF assms(1)]
  have "(i + 1) * hp_size g \<le> PAGE_SIZE div hp_size g * hp_size g" using i(2) by (intro mult_le_mono1) simp
  then show b: "a + hp_size g \<le> hp_base g + PAGE_SIZE" using i(1) z(4) by (simp add: mult.commute)
  show "hp_base g \<le> a" "hp_size g dvd a - hp_base g" using i(1) by simp_all
  show "a < 4294967296" "0 < a" using b i(1) assms(1) by (simp_all add: hp_ok_def)
  show "a - hp_base g < PAGE_SIZE" using b i(1) z(2) by simp
  have "hp_size g dvd hp_base g" using assms(1) z(1) by (metis dvd_trans hp_ok_def)
  then show "hp_size g dvd a" using i(1) by simp
qed

lemma hp_slotI:
  assumes "hp_ok g" "hp_base g \<le> a" "a < hp_base g + PAGE_SIZE" "(a - hp_base g) mod hp_size g = 0"
  shows "a \<in> hp_slots g"
proof -
  obtain i where i: "a - hp_base g = i * hp_size g" using assms(4) by (metis dvd_def mod_0_imp_dvd mult.commute)
  have "i * hp_size g < PAGE_SIZE div hp_size g * hp_size g"
    using assms(2,3) i hp_size_ok(4) [OF assms(1)] by (simp add: mult.commute)
  then show ?thesis using i assms(2) by (auto simp: hp_slots_def intro!: image_eqI [of _ _ i])
qed

lemma hp_slots_card: "hp_ok g \<Longrightarrow> card (hp_slots g) = PAGE_SIZE div hp_size g"
  unfolding hp_slots_def using hp_size_ok(2) [of g] by (subst card_image) (auto simp: inj_on_def)

lemma free_le: "hp_ok g \<Longrightarrow> length (hp_free g) \<le> PAGE_SIZE div hp_size g"
  using card_mono [of "hp_slots g" "set (hp_free g)"] hp_slots_card [of g]
  by (simp add: hp_ok_def distinct_card) (simp add: hp_slots_def)

lemma pages_apart:
  assumes "(PAGE_SIZE :: nat) dvd a" "PAGE_SIZE dvd b" "a \<noteq> b"
  shows "a + PAGE_SIZE \<le> b \<or> b + PAGE_SIZE \<le> a"
proof -
  obtain i j where ij: "a = PAGE_SIZE * i" "b = PAGE_SIZE * j" using assms(1,2) unfolding dvd_def by blast
  then have "i < j \<or> j < i" using assms(3) by auto
  then show ?thesis using ij by auto
qed

lemma blocks_apart:
  assumes "hp_ok g" "hp_ok h" "a \<in> hp_slots g" "b \<in> hp_slots h" "g = h \<and> a \<noteq> b \<or> hp_base g \<noteq> hp_base h"
  shows "a + hp_size g \<le> b \<or> b + hp_size h \<le> a"
proof (cases "hp_base g = hp_base h")
  case True
  then have gh: "g = h" "a \<noteq> b" using assms(5) by auto
  obtain i j where ij: "a = hp_base g + i * hp_size g" "b = hp_base g + j * hp_size g"
    using assms(3,4) gh by (auto simp: hp_slots_def)
  then have "i < j \<or> j < i" using gh(2) by auto
  then have "(i + 1) * hp_size g \<le> j * hp_size g \<or> (j + 1) * hp_size g \<le> i * hp_size g"
    by (metis Suc_eq_plus1 Suc_leI mult_le_mono1)
  then show ?thesis using ij gh(1) by auto
next
  case False
  then have "hp_base g + PAGE_SIZE \<le> hp_base h \<or> hp_base h + PAGE_SIZE \<le> hp_base g"
    using pages_apart assms(1,2) by (simp add: hp_ok_def)
  then show ?thesis using hp_slot [OF assms(1,3)] hp_slot [OF assms(2,4)] by auto
qed

lemma kblocks_apart:
  assumes "km_core k gs" "(a, m) \<in> kblocks gs" "(b, n) \<in> kblocks gs" "(a, m) \<noteq> (b, n)"
  shows "a + m \<le> b \<or> b + n \<le> a"
proof -
  obtain g h where g: "g \<in> set gs" "a \<in> hp_slots g" "m = hp_size g" and h: "h \<in> set gs" "b \<in> hp_slots h" "n = hp_size h"
    using assms(2,3) by (auto simp: kblocks_def)
  have ok: "hp_ok g" "hp_ok h" using assms(1) g(1) h(1) by (simp_all add: km_core_def pages_ok_def)
  have "g = h" if "hp_base g = hp_base h"
    using that assms(1) g(1) h(1) by (auto simp: km_core_def refs_distinct_def distinct_map inj_on_def)
  then show ?thesis using blocks_apart [OF ok g(2) h(2)] g(3) h(3) assms(4) by auto
qed

lemma page_ref:
  assumes "hp_ok g" "hp_ref_ok r g"
  shows "PR_PAGEADDR r = hp_base g" "PR_BLOCKTYPE r = hp_type g"
proof -
  have "(hp_base g + hp_type g) mod PAGE_SIZE = hp_type g"
    using assms(1) by (auto simp: hp_ok_def)
  then show "PR_PAGEADDR r = hp_base g" "PR_BLOCKTYPE r = hp_type g"
    using assms(2) by (simp_all add: PR_PAGEADDR_def PR_BLOCKTYPE_def page_frame_def hp_ref_ok_def)
qed

text \<open>The searches find the first page that qualifies.\<close>

lemma find_page_spec:
  assumes "linked (\<lambda>i. next_samesize (prs ! i)) p (map hp_ref hs)"
    "\<forall>g\<in>set hs. hp_ok g \<and> hp_ref_ok (prs ! hp_ref g) g \<and> hp_type g = b \<and> hp_ref g < length prs"
  shows "find_page prs b p = Some (map_option hp_ref (List.find (\<lambda>g. hp_free g \<noteq> []) hs))"
  using assms
proof (induction hs arbitrary: p)
  case Nil
  then show ?case by (subst find_page.simps) simp
next
  case (Cons g hs)
  have g: "hp_ok g" "hp_ref_ok (prs ! hp_ref g) g" "hp_type g = b" "hp_ref g < length prs" "p = Some (hp_ref g)"
    using Cons.prems by simp_all
  have n: "nfree (prs ! hp_ref g) = length (hp_free g)" using g(2) by (simp add: hp_ref_ok_def)
  show ?case
    using Cons.IH [of "next_samesize (prs ! hp_ref g)"] Cons.prems g n page_ref(2) [OF g(1,2)]
    by (subst find_page.simps) simp
qed

lemma find_owner_spec:
  assumes "linked (\<lambda>i. next_all (prs ! i)) p (map hp_ref hs)"
    "\<forall>g\<in>set hs. hp_ok g \<and> hp_ref_ok (prs ! hp_ref g) g \<and> hp_ref g < length prs"
  shows "find_owner prs ptr p = Some (map_option hp_ref (List.find (\<lambda>g. hp_base g \<le> ptr \<and> ptr < hp_base g + PAGE_SIZE) hs))"
  using assms
proof (induction hs arbitrary: p)
  case Nil
  then show ?case by (subst find_owner.simps) simp
next
  case (Cons g hs)
  have g: "hp_ok g" "hp_ref_ok (prs ! hp_ref g) g" "hp_ref g < length prs" "p = Some (hp_ref g)"
    using Cons.prems by simp_all
  have t: "hp_type g < NSIZES" "hp_base g + PAGE_SIZE < 2 ^ 32" using g(1) by (simp_all add: hp_ok_def)
  show ?case
    using Cons.IH [of "next_all (prs ! hp_ref g)"] Cons.prems g t(1) u32_id [OF t(2)] page_ref [OF g(1,2)]
    by (subst find_owner.simps) simp
qed

lemma find_split: "List.find P xs = Some x \<Longrightarrow> \<exists>us vs. xs = us @ x # vs \<and> P x"
  by (metis find_Some_iff in_set_conv_decomp nth_mem)

lemma find_Some_filter:
  assumes "List.find P (filter Q xs) = Some x"
  shows "\<exists>us vs. xs = us @ x # vs \<and> P x \<and> Q x"
proof -
  have "x \<in> set (filter Q xs)" "P x" using find_split [OF assms] by (metis in_set_conv_decomp)+
  then show ?thesis using split_list [of x xs] by auto
qed

section \<open>Under the lock\<close>

definition klocked :: "nat option \<Rightarrow> kmst \<Rightarrow> kmst" where
  "klocked cpu k = k\<lparr>kmalloc_spinlock := held_by cpu (kmalloc_spinlock k), phys := (phys k)\<lparr>cur_spl := raised cpu (cur_spl (phys k))\<rparr>\<rparr>"

definition km_ready :: "kmst \<Rightarrow> bool" where
  "km_ready k \<longleftrightarrow> lock_free (kmalloc_spinlock k) \<and> spl_ok (cur_spl (phys k))"

lemma km_lock_unlock [simp]:
  "km_ready k \<Longrightarrow> km_lock cpu k = Some (klocked cpu k)"
  "km_ready k \<Longrightarrow> km_unlock cpu (klocked cpu k) = Some k"
  by (simp_all add: km_ready_def km_lock_def km_unlock_def klocked_def acquire_free release_held)

lemma klocked_sel [simp]:
  "pagerefs (klocked cpu k) = pagerefs k" "pagerefs_inuse (klocked cpu k) = pagerefs_inuse k"
  "sizebases (klocked cpu k) = sizebases k" "allbase (klocked cpu k) = allbase k" "words (klocked cpu k) = words k"
  by (simp_all add: klocked_def)

lemma klocked_upd [simp]:
  "(klocked cpu k)\<lparr>pagerefs := a\<rparr> = klocked cpu (k\<lparr>pagerefs := a\<rparr>)"
  "(klocked cpu k)\<lparr>pagerefs_inuse := b\<rparr> = klocked cpu (k\<lparr>pagerefs_inuse := b\<rparr>)"
  "(klocked cpu k)\<lparr>sizebases := c\<rparr> = klocked cpu (k\<lparr>sizebases := c\<rparr>)"
  "(klocked cpu k)\<lparr>allbase := d\<rparr> = klocked cpu (k\<lparr>allbase := d\<rparr>)"
  "(klocked cpu k)\<lparr>words := m\<rparr> = klocked cpu (k\<lparr>words := m\<rparr>)"
  by (simp_all add: klocked_def)

lemma km_ready_upd [simp]:
  "km_ready (k\<lparr>pagerefs := a\<rparr>) = km_ready k" "km_ready (k\<lparr>pagerefs_inuse := b\<rparr>) = km_ready k"
  "km_ready (k\<lparr>sizebases := c\<rparr>) = km_ready k" "km_ready (k\<lparr>allbase := d\<rparr>) = km_ready k"
  "km_ready (k\<lparr>words := m\<rparr>) = km_ready k"
  by (simp_all add: km_ready_def)

lemma klocked_allocpageref: "allocpageref (klocked cpu k) = map_option (map_prod id (klocked cpu)) (allocpageref k)"
  by (simp add: allocpageref_def map_conv_bind_option comp_def split_def)

lemma klocked_freepageref: "freepageref i (klocked cpu k) = map_option (klocked cpu) (freepageref i k)"
  by (cases "rd (pagerefs_inuse k) (i div 32)") (simp_all add: freepageref_def map_conv_bind_option comp_def del: push_bit_of_1)

lemma klocked_remove_lists: "remove_lists i b (klocked cpu k) = map_option (klocked cpu) (remove_lists i b k)"
  by (simp add: remove_lists_def map_conv_bind_option comp_def split_def)

lemma klocked_fresh_page: "fresh_page b a i (klocked cpu k) = map_option (klocked cpu) (fresh_page b a i k)"
  by (simp add: fresh_page_def map_conv_bind_option comp_def
      if_distrib [of "\<lambda>x. Option.bind x (\<lambda>k. Some (klocked cpu k))"] cong: if_cong)

lemmas klocked_ops = klocked_allocpageref klocked_freepageref klocked_remove_lists klocked_fresh_page

section \<open>One page changes\<close>

lemma lists_ok_upd:
  assumes "lists_ok prs sb ab (us @ g # vs)" "hp_ref g' = hp_ref g" "hp_type g' = hp_type g"
    "next_all r = next_all (prs ! i)" "next_samesize r = next_samesize (prs ! i)"
  shows "lists_ok (prs[i := r]) sb ab (us @ g' # vs)"
proof -
  have "next_all (prs[i := r] ! j) = next_all (prs ! j)" for j
    using assms(4) by (metis list_update_beyond nth_list_update linorder_not_less)
  moreover have "next_samesize (prs[i := r] ! j) = next_samesize (prs ! j)" for j
    using assms(5) by (metis list_update_beyond nth_list_update linorder_not_less)
  moreover have "map hp_ref (us @ g' # vs) = map hp_ref (us @ g # vs)" using assms(2) by simp
  moreover have "map hp_ref (filter (\<lambda>g. hp_type g = b) (us @ g' # vs)) =
      map hp_ref (filter (\<lambda>g. hp_type g = b) (us @ g # vs))" for b
    using assms(2,3) by simp
  ultimately show ?thesis using assms(1) unfolding lists_ok_def by presburger
qed

lemma refs_other:
  assumes "refs_distinct (us @ g # vs)" "h \<in> set us \<union> set vs"
  shows "hp_ref h \<noteq> hp_ref g" "hp_base h \<noteq> hp_base g"
proof -
  have "hp_ref g \<notin> hp_ref ` (set us \<union> set vs)" "hp_base g \<notin> hp_base ` (set us \<union> set vs)"
    using assms(1) by (simp_all add: refs_distinct_def image_Un)
  then show "hp_ref h \<noteq> hp_ref g" "hp_base h \<noteq> hp_base g" using assms(2) by (metis image_eqI)+
qed

lemma km_core_upd:
  assumes "km_core k (us @ g # vs)" "hp_ref g' = hp_ref g" "hp_type g' = hp_type g" "hp_base g' = hp_base g"
    and r: "next_all r = next_all (pagerefs k ! hp_ref g)" "next_samesize r = next_samesize (pagerefs k ! hp_ref g)"
    and g': "hp_ok g'" "hp_ref_ok r g'" "chain m (hp_free g')"
    and m: "\<And>h. h \<in> set us \<union> set vs \<Longrightarrow> chain m (hp_free h)"
  shows "km_core (k\<lparr>pagerefs := (pagerefs k)[hp_ref g := r], words := m\<rparr>) (us @ g' # vs)"
proof -
  have d: "hp_ref h \<noteq> hp_ref g" if "h \<in> set us \<union> set vs" for h
    using assms(1) that refs_other(1) unfolding km_core_def by blast
  have l: "hp_ref g < length (pagerefs k)" using assms(1) by (simp add: km_core_def pages_ok_def hp_ok_def)
  let ?k = "k\<lparr>pagerefs := (pagerefs k)[hp_ref g := r], words := m\<rparr>"
  have "hp_ok h \<and> hp_ref_ok (pagerefs ?k ! hp_ref h) h \<and> chain (words ?k) (hp_free h)" if h: "h \<in> set us \<union> set vs" for h
  proof -
    have "hp_ref g \<noteq> hp_ref h" using d [OF h] by simp
    then show ?thesis using assms(1) h m [OF h] by (simp add: km_core_def pages_ok_def)
  qed
  moreover have "hp_ref_ok (pagerefs ?k ! hp_ref g') g'" using l g'(2) assms(2) by simp
  ultimately have "pages_ok ?k (us @ g' # vs)" using g'(1,3) by (auto simp: pages_ok_def)
  moreover have "lists_ok (pagerefs ?k) (sizebases ?k) (allbase ?k) (us @ g' # vs)"
    using assms(1) lists_ok_upd [OF _ assms(2,3) r] by (simp add: km_core_def)
  ultimately show ?thesis using assms(1-4) by (simp add: km_core_def refs_distinct_def refs_used_def)
qed

lemma fchain_cong: "chain m as \<Longrightarrow> (\<And>a. a \<in> set as \<Longrightarrow> m' a = m a) \<Longrightarrow> chain m' as"
  by (induction as) auto

text \<open>Taking the first free block of a page.\<close>

lemma doalloc_ok:
  assumes core: "km_core k (us @ g # vs)" and ready: "km_ready k" and free: "hp_free g = a # as"
  shows "\<exists>prs. doalloc cpu (hp_ref g) (klocked cpu k) = Some (a, k\<lparr>pagerefs := prs\<rparr>) \<and>
    km_core (k\<lparr>pagerefs := prs\<rparr>) (us @ g\<lparr>hp_free := as\<rparr> # vs)"
proof -
  let ?r = "pagerefs k ! hp_ref g"
  let ?r' = "?r\<lparr>nfree := length as, freelist_offset := (case as of [] \<Rightarrow> INVALID_OFFSET | b # _ \<Rightarrow> b - hp_base g)\<rparr>"
  have g: "hp_ok g" "hp_ref_ok ?r g" "chain (words k) (a # as)" and l: "hp_ref g < length (pagerefs k)"
    using core free by (auto simp: km_core_def pages_ok_def hp_ok_def)
  have sub: "set (a # as) \<subseteq> hp_slots g" using g(1) free by (simp add: hp_ok_def)
  then have a: "a \<in> hp_slots g" by simp
  note ab = hp_slot [OF g(1) a]
  have off: "freelist_offset ?r = a - hp_base g" "nfree ?r = Suc (length as)"
    using g(2) free by (simp_all add: hp_ref_ok_def)
  have "length (hp_free g) \<le> 256"
    using free_le [OF g(1)] hp_size_ok(2) [OF g(1)] div_le_mono2 [of 16 "hp_size g" PAGE_SIZE] by simp
  then have n: "(Suc (length as) + 65535) mod 65536 = length as" using free by simp
  have ret: "u32 (hp_base g + (a - hp_base g)) = a" using ab(1,4) by simp
  have eq: "doalloc cpu (hp_ref g) (klocked cpu k) = Some (a, k\<lparr>pagerefs := (pagerefs k)[hp_ref g := ?r']\<rparr>)"
  proof (cases as)
    case Nil
    then show ?thesis
      using l ab(5) ret g(3) n off ready by (simp add: doalloc_def page_ref [OF g(1,2)])
  next
    case (Cons b bs)
    then have "b \<in> hp_slots g" using sub by simp
    note bb = hp_slot [OF g(1) this]
    have "usub b (hp_base g) = b - hp_base g" using bb(1,4) by simp
    then show ?thesis
      using l ab(5) ret g(3) n off ready Cons bb(5,7) by (simp add: doalloc_def page_ref [OF g(1,2)])
  qed
  have "km_core (k\<lparr>pagerefs := (pagerefs k)[hp_ref g := ?r'], words := words k\<rparr>) (us @ g\<lparr>hp_free := as\<rparr> # vs)"
  proof (rule km_core_upd [OF core])
    show "hp_ok (g\<lparr>hp_free := as\<rparr>)" using g(1) free by (simp add: hp_ok_def hp_slots_def hp_size_def)
    show "hp_ref_ok ?r' (g\<lparr>hp_free := as\<rparr>)" using g(2) by (simp add: hp_ref_ok_def split: list.split)
    show "chain (words k) (hp_free h)" if "h \<in> set us \<union> set vs" for h
      using core that by (auto simp: km_core_def pages_ok_def)
  qed (use g(3) in simp_all)
  then show ?thesis using eq by auto
qed

section \<open>A fresh page\<close>

lemma carve_spec:
  "1 \<le> i \<Longrightarrow> 0 < sz \<Longrightarrow> fla + n * sz < 4294967296 \<Longrightarrow>
   carve fla sz i n m = Some (\<lambda>x. if \<exists>j. i \<le> j \<and> j < n \<and> x = fla + j * sz then x - sz else m x)"
proof (induction fla sz i n m rule: carve.induct)
  case (1 fla sz i n m)
  show ?case
  proof (cases "i < n")
    case False
    then show ?thesis by (subst carve.simps) (auto simp: fun_eq_iff)
  next
    case True
    obtain p where p: "i = Suc p" using 1(2) by (cases i) auto
    have "i * sz \<le> n * sz" using True by simp
    moreover have d: "p * sz + sz = i * sz" using p by simp
    ultimately have "fla + i * sz < 4294967296" "fla + p * sz < 4294967296" using 1(4) by linarith+
    then have u: "u32 (fla + i * sz) = fla + i * sz" "u32 (fla + (i - 1) * sz) = fla + p * sz" using p by simp_all
    have ne: "fla + i * sz \<noteq> fla + p * sz" using d 1(3) by linarith
    let ?m = "m(fla + i * sz := fla + p * sz)"
    have "carve fla sz i n m = carve fla sz (i + 1) n ?m"
      using True ne by (subst carve.simps) (simp only: u KASSERT_bind if_True not_False_eq_True)
    also have "\<dots> = Some (\<lambda>x. if \<exists>j. i + 1 \<le> j \<and> j < n \<and> x = fla + j * sz then x - sz else ?m x)"
      using 1(1) [OF True, unfolded u, OF _ _ 1(3,4)] ne by (simp add: KASSERT_def fun_upd_def)
    also have "\<dots> = Some (\<lambda>x. if \<exists>j. i \<le> j \<and> j < n \<and> x = fla + j * sz then x - sz else m x)"
    proof -
      have "(if \<exists>j. i + 1 \<le> j \<and> j < n \<and> x = fla + j * sz then x - sz else ?m x) =
          (if \<exists>j. i \<le> j \<and> j < n \<and> x = fla + j * sz then x - sz else m x)" for x
      proof (cases "x = fla + i * sz")
        case e: True
        have "\<not> (\<exists>j. i + 1 \<le> j \<and> j < n \<and> x = fla + j * sz)" using e 1(3) by auto
        moreover have "\<exists>j. i \<le> j \<and> j < n \<and> x = fla + j * sz" using e True by blast
        ultimately show ?thesis using e d by (simp only: if_True if_False fun_upd_same)
      next
        case False
        then have "(\<exists>j. i + 1 \<le> j \<and> j < n \<and> x = fla + j * sz) \<longleftrightarrow> (\<exists>j. i \<le> j \<and> j < n \<and> x = fla + j * sz)"
          by (metis Suc_eq_plus1 Suc_leI le_neq_implies_less less_imp_le_nat Suc_le_lessD)
        then show ?thesis using False by (simp only: fun_upd_apply if_False)
      qed
      then show ?thesis by simp
    qed
    finally show ?thesis .
  qed
qed

definition fresh :: "nat \<Rightarrow> nat \<Rightarrow> nat \<Rightarrow> hpage" where
  "fresh i a b = \<lparr>hp_ref = i, hp_base = a, hp_type = b, hp_free = rev (map (\<lambda>j. a + j * sizes ! b) [0..<PAGE_SIZE div sizes ! b])\<rparr>"

lemma chain_down:
  assumes "m a = 0" "\<And>j. 1 \<le> j \<Longrightarrow> j < n \<Longrightarrow> m (a + j * sz) = a + (j - 1) * sz"
  shows "chain m (rev (map (\<lambda>j. a + j * sz) [0..<n]))"
  using assms(2)
proof (induction n)
  case (Suc n)
  have "chain m (rev (map (\<lambda>j. a + j * sz) [0..<n]))" using Suc.prems by (intro Suc.IH) simp
  then show ?case using assms(1) Suc.prems [of n] by (cases n) simp_all
qed simp

lemma fresh_ok:
  assumes "b < NSIZES" "0 < a" "PAGE_SIZE dvd a" "a + PAGE_SIZE < 4294967296" "i < NPAGEREFS"
  shows "hp_ok (fresh i a b)"
proof -
  have "0 < sizes ! b" using sizes_nth [OF assms(1)] by simp
  then show ?thesis
    using assms by (auto simp: hp_ok_def fresh_def hp_slots_def hp_size_def distinct_map inj_on_def)
qed

text \<open>The free list of the fresh page does not touch the blocks of other pages.\<close>

lemma fresh_page_ok:
  assumes core: "km_core k gs" and i: "i < NPAGEREFS" "i \<notin> refs_used k"
    and k1: "length (pagerefs_inuse k1) = INUSE_WORDS" "refs_used k1 = insert i (refs_used k)" "pagerefs k1 = pagerefs k"
      "sizebases k1 = sizebases k" "allbase k1 = allbase k" "words k1 = words k" "kpool (phys k1) = insert a (kpool (phys k))"
    and b: "b < NSIZES" and a: "a \<notin> kpool (phys k)" "0 < a" "PAGE_SIZE dvd a" "a + PAGE_SIZE < 4294967296"
  shows "\<exists>m prs sb. fresh_page b a i k1 = Some (k1\<lparr>words := m, pagerefs := prs, sizebases := sb, allbase := Some i\<rparr>) \<and>
    km_core (k1\<lparr>words := m, pagerefs := prs, sizebases := sb, allbase := Some i\<rparr>) (fresh i a b # gs) \<and>
    (\<forall>x. x < a \<or> a + PAGE_SIZE \<le> x \<longrightarrow> m x = words k x)"
proof -
  let ?g = "fresh i a b" and ?sz = "sizes ! b"
  let ?n = "PAGE_SIZE div ?sz"
  have g: "hp_ok ?g" using fresh_ok [OF b a(2-4) i(1)] .
  have z: "hp_size ?g = ?sz" "hp_base ?g = a" "hp_type ?g = b" "hp_ref ?g = i" by (simp_all add: fresh_def hp_size_def)
  note sz = hp_size_ok [OF g, unfolded z]
  have n: "?n * ?sz = PAGE_SIZE" using sz(4) by (simp add: mult.commute)
  have pred: "(j - 1) * ?sz + ?sz = j * ?sz" if "1 \<le> j" for j
    using that by (metis Suc_eq_plus1 add.commute le_add_diff_inverse2 mult_Suc)
  define m where "m = (\<lambda>x. if \<exists>j. 1 \<le> j \<and> j < ?n \<and> x = a + j * ?sz then x - ?sz else ((words k)(a := 0)) x)"
  have carve: "carve a ?sz 1 ?n ((words k)(a := 0)) = Some m"
    unfolding m_def by (rule carve_spec) (use sz(2) n a(4) in simp_all)
  have top: "(?n - 1) * ?sz + ?sz = PAGE_SIZE" using pred [of ?n] sz(5) n by simp
  define r where "r = (pagerefs k ! i)\<lparr>pageaddr_and_blocktype := a + b, nfree := ?n, freelist_offset := (?n - 1) * ?sz,
    next_samesize := sizebases k ! b, next_all := allbase k\<rparr>"
  define prs where "prs = (pagerefs k)[i := r]"
  define sb where "sb = (sizebases k)[b := Some i]"
  define k2 where "k2 = k1\<lparr>words := m, pagerefs := prs, sizebases := sb, allbase := Some i\<rparr>"
  have len: "length (pagerefs k) = NPAGEREFS" "length (sizebases k) = NSIZES" using core by (simp_all add: km_core_def)
  have "MKPAB a b = a + b" using a(3) b by (simp add: MKPAB_def page_frame_def)
  moreover have "usub (u32 (a + (?n - 1) * ?sz)) a = (?n - 1) * ?sz" using top a(4) by simp
  moreover have "rd sizes b = Some ?sz" using b by (simp add: sizes_def rd_def)
  ultimately have eq: "fresh_page b a i k1 = Some k2"
    using carve sz(5) len i(1) b by (simp add: fresh_page_def k1 k2_def prs_def sb_def r_def)
  have far: "m x = words k x" if "x < a \<or> a + PAGE_SIZE \<le> x" for x
  proof -
    have "j * ?sz \<le> PAGE_SIZE - ?sz" if "j < ?n" for j
    proof -
      have "j * ?sz \<le> (?n - 1) * ?sz" using that by (intro mult_le_mono1) simp
      then show ?thesis using top by linarith
    qed
    then have "\<not> (\<exists>j. 1 \<le> j \<and> j < ?n \<and> x = a + j * ?sz)" using that sz(2,3) by fastforce
    then show ?thesis using that by (auto simp: m_def)
  qed
  have gs: "hp_ref h \<noteq> i \<and> hp_base h \<noteq> a \<and> hp_ok h \<and> hp_ref_ok (pagerefs k ! hp_ref h) h \<and> chain (words k) (hp_free h)"
    if "h \<in> set gs" for h
    using core i(2) a(1) that by (auto simp: km_core_def pages_ok_def)
  have "chain m (hp_free h)" if h: "h \<in> set gs" for h
  proof (rule fchain_cong)
    show "m x = words k x" if "x \<in> set (hp_free h)" for x
    proof -
      have "hp_base h \<le> x" "x < hp_base h + PAGE_SIZE"
        using gs [OF h] that hp_slot(1,5) [of h x] by (auto simp: hp_ok_def)
      then show ?thesis using pages_apart [of "hp_base h" a] a(3) gs [OF h] far [of x] by (auto simp: hp_ok_def)
    qed
  qed (use gs [OF h] in blast)
  moreover have "chain m (hp_free ?g)"
  proof -
    have "m (a + j * ?sz) = a + (j - 1) * ?sz" if "1 \<le> j" "j < ?n" for j
    proof -
      have "m (a + j * ?sz) = a + j * ?sz - ?sz" using that by (auto simp: m_def)
      then show ?thesis using pred [OF that(1)] by simp
    qed
    moreover have "m a = 0" using sz(2) by (auto simp: m_def)
    ultimately show ?thesis unfolding fresh_def by (simp add: chain_down)
  qed
  moreover have "hp_ref_ok r ?g"
  proof -
    have "[0..<?n] = [0..<?n - 1] @ [?n - 1]" using sz(5) by (metis Suc_diff_1 less_trans upt_Suc_append zero_le zero_less_one)
    then have "hp_free ?g = (a + (?n - 1) * ?sz) # rev (map (\<lambda>j. a + j * ?sz) [0..<?n - 1])" by (simp add: fresh_def)
    moreover have "length (hp_free ?g) = ?n" by (simp add: fresh_def)
    ultimately show ?thesis by (simp add: hp_ref_ok_def r_def z)
  qed
  moreover have "prs ! i = r" "prs ! hp_ref h = pagerefs k ! hp_ref h" if "h \<in> set gs" for h
    using len i(1) gs [OF that] by (simp_all add: prs_def)
  ultimately have pages: "pages_ok k2 (?g # gs)"
    using g gs len i(1) unfolding pages_ok_def k2_def by (simp add: z prs_def)
  have lists: "lists_ok prs sb (Some i) (?g # gs)"
  proof -
    have old: "lists_ok (pagerefs k) (sizebases k) (allbase k) gs" using core by (simp add: km_core_def)
    have ri: "next_all (prs ! i) = allbase k" "next_samesize (prs ! i) = sizebases k ! b"
      using len i(1) by (simp_all add: prs_def r_def)
    have same: "path (\<lambda>j. f (prs ! j)) p (map hp_ref hs) q = path (\<lambda>j. f (pagerefs k ! j)) p (map hp_ref hs) q"
      if "set hs \<subseteq> set gs" for f hs p q
    proof (rule path_cong)
      show "f (prs ! x) = f (pagerefs k ! x)" if x: "x \<in> set (map hp_ref hs)" for x
      proof -
        have "x \<noteq> i" using x gs \<open>set hs \<subseteq> set gs\<close> by auto
        then show ?thesis by (simp add: prs_def)
      qed
    qed
    have "linked (\<lambda>j. next_samesize (prs ! j)) (sb ! c) (map hp_ref (filter (\<lambda>g. hp_type g = c) (?g # gs)))" if c: "c < NSIZES" for c
    proof (cases "c = b")
      case True
      then show ?thesis using old ri(2) b len same [of "filter (\<lambda>g. hp_type g = b) gs"] by (simp add: lists_ok_def sb_def z)
    next
      case False
      then show ?thesis using old c same [of "filter (\<lambda>g. hp_type g = c) gs"] by (simp add: lists_ok_def sb_def z)
    qed
    moreover have "linked (\<lambda>j. next_all (prs ! j)) (Some i) (map hp_ref (?g # gs))"
      using old ri(1) same [of gs] by (simp add: lists_ok_def z)
    ultimately show ?thesis unfolding lists_ok_def by blast
  qed
  have "refs_used k2 = refs_used k1" by (simp add: k2_def refs_used_def)
  moreover have "refs_distinct (?g # gs)" using core gs by (auto simp: km_core_def refs_distinct_def z)
  ultimately have "km_core k2 (?g # gs)"
    using core pages lists k1 len by (auto simp: km_core_def z k2_def prs_def sb_def)
  then show ?thesis using eq far unfolding k2_def by blast
qed

lemma blocktype_from_spec:
  "sz \<le> 2048 \<Longrightarrow> i < NSIZES \<Longrightarrow> \<exists>b<NSIZES. i \<le> b \<and> blocktype_from i sz = Some b \<and> sz \<le> sizes ! b \<and> (\<forall>c. i \<le> c \<and> c < b \<longrightarrow> sizes ! c < sz)"
proof (induction i sz rule: blocktype_from.induct)
  case (1 i sz)
  show ?case
  proof (cases "sz \<le> sizes ! i")
    case True
    then show ?thesis using 1(3) by (intro exI [of _ i]) (simp add: blocktype_from.simps)
  next
    case False
    have "i \<noteq> 7" using False 1(2) by (auto simp: sizes_def)
    then have l: "i + 1 < NSIZES" using 1(3) by simp
    obtain b where b: "b < NSIZES" "i + 1 \<le> b" "blocktype_from (i + 1) sz = Some b" "sz \<le> sizes ! b"
      "\<forall>c. i + 1 \<le> c \<and> c < b \<longrightarrow> sizes ! c < sz"
      using 1(1) [OF 1(3) False 1(2) l] by blast
    have "\<forall>c. i \<le> c \<and> c < b \<longrightarrow> sizes ! c < sz" using b(5) False by (metis Suc_eq_plus1 le_neq_implies_less not_le_imp_less Suc_leI)
    then show ?thesis using b 1(3) False by (intro exI [of _ b]) (simp add: blocktype_from.simps [of i])
  qed
qed

section \<open>Allocation\<close>

lemma kblocks_simps [simp]:
  "kblocks [] = {}" "kblocks (g # gs) = (hp_slots g - set (hp_free g)) \<times> {hp_size g} \<union> kblocks gs"
  "kblocks (us @ vs) = kblocks us \<union> kblocks vs"
  by (auto simp: kblocks_def)

lemma hp_upd_free [simp]:
  "hp_slots (g\<lparr>hp_free := as\<rparr>) = hp_slots g" "hp_size (g\<lparr>hp_free := as\<rparr>) = hp_size g"
  by (simp_all add: hp_slots_def hp_size_def)

lemma fresh_blocks: "set (hp_free (fresh i a b)) = hp_slots (fresh i a b)"
  by (simp add: fresh_def hp_slots_def hp_size_def atLeast0LessThan)

lemma block_in_page:
  assumes "km_core k gs" "(a, n) \<in> kblocks gs"
  obtains g where "g \<in> set gs" "hp_base g \<le> a" "a + n \<le> hp_base g + PAGE_SIZE"
proof -
  obtain g where g: "g \<in> set gs" "a \<in> hp_slots g" "n = hp_size g" using assms(2) by (auto simp: kblocks_def)
  then have "hp_ok g" using assms(1) by (simp add: km_core_def pages_ok_def)
  then show ?thesis using that [OF g(1)] hp_slot [of g a] g(2,3) by simp
qed

text \<open>A free block is no block in use, and taking it from the free list makes it one.\<close>

lemma free_not_block:
  assumes "km_core k (us @ g # vs)" "a \<in> set (hp_free g)"
  shows "(a, n) \<notin> kblocks (us @ g # vs)"
proof
  assume "(a, n) \<in> kblocks (us @ g # vs)"
  then obtain h where h: "h \<in> set us \<union> set vs" "a \<in> hp_slots h" using assms(2) by (auto simp: kblocks_def)
  have ok: "hp_ok g" "hp_ok h" and d: "refs_distinct (us @ g # vs)" using assms(1) h(1) by (auto simp: km_core_def pages_ok_def)
  have "a \<in> hp_slots g" using assms(2) ok(1) by (auto simp: hp_ok_def)
  then show False
    using blocks_apart [OF ok(2,1) h(2)] refs_other(2) [OF d h(1)] hp_size_ok(2) [OF ok(1)] hp_size_ok(2) [OF ok(2)] by force
qed

lemma kblocks_take:
  assumes "km_core k (us @ g # vs)" "hp_free g = a # as"
  shows "kblocks (us @ g\<lparr>hp_free := as\<rparr> # vs) = insert (a, hp_size g) (kblocks (us @ g # vs))"
proof -
  have "hp_ok g" using assms(1) by (simp add: km_core_def pages_ok_def)
  then have "a \<in> hp_slots g" "a \<notin> set as" using assms(2) by (auto simp: hp_ok_def)
  then have "hp_slots g - set as = insert a (hp_slots g - set (hp_free g))" using assms(2) by auto
  then show ?thesis by auto
qed

definition apart :: "(nat \<times> nat) set \<Rightarrow> bool" where
  "apart B \<longleftrightarrow> (\<forall>(a, m)\<in>B. \<forall>(b, n)\<in>B. (a, m) \<noteq> (b, n) \<longrightarrow> a + m \<le> b \<or> b + n \<le> a)"

definition same_in :: "(nat \<times> nat) set \<Rightarrow> (nat \<Rightarrow> nat) \<Rightarrow> (nat \<Rightarrow> nat) \<Rightarrow> bool" where
  "same_in B m m' \<longleftrightarrow> (\<forall>(a, n)\<in>B. \<forall>x. a \<le> x \<and> x < a + n \<longrightarrow> m' x = m x)"

lemma km_core_apart: "km_core k gs \<Longrightarrow> apart (kblocks gs)"
  unfolding apart_def using kblocks_apart by blast

lemma same_in_refl [simp]: "same_in B m m"
  by (simp add: same_in_def)

text \<open>What an allocation guarantees.\<close>

definition kmalloc_ok :: "nat \<Rightarrow> kmst \<Rightarrow> hpage list \<Rightarrow> nat \<Rightarrow> kmst \<Rightarrow> hpage list \<Rightarrow> bool" where
  "kmalloc_ok sz k gs r k' gs' \<longleftrightarrow> km_inv k' gs' \<and> same_in (kblocks gs) (words k) (words k') \<and>
     (if r = 0 then kblocks gs' = kblocks gs \<and> (no_pages (phys k) \<or> length gs = NPAGEREFS)
      else \<exists>n\<in>set sizes. sz \<le> n \<and> n dvd r \<and> (r, n) \<notin> kblocks gs \<and> kblocks gs' = insert (r, n) (kblocks gs))"

lemma km_inv_ready: "km_inv k gs \<Longrightarrow> km_ready k"
  by (simp add: km_inv_def km_ready_def pinv_def pm_ok_def)

text \<open>The block taken from the page \<open>g\<close>.\<close>

lemma take_block:
  assumes core: "km_core k (us @ g # vs)" and ne: "list_all not_empty (us @ vs)" "length (hp_free g) \<le> PAGE_SIZE div hp_size g"
    and ready: "km_ready k" "pinv (phys k)" and free: "hp_free g \<noteq> []" and sz: "sz \<le> hp_size g"
  obtains a k' gs' where "doalloc cpu (hp_ref g) (klocked cpu k) = Some (a, k')" "km_inv k' gs'" "words k' = words k"
    "a \<noteq> 0" "hp_size g \<in> set sizes" "hp_size g dvd a" "(a, hp_size g) \<notin> kblocks (us @ g # vs)"
    "kblocks gs' = insert (a, hp_size g) (kblocks (us @ g # vs))"
proof -
  obtain a as where f: "hp_free g = a # as" using free by (cases "hp_free g") auto
  obtain prs where p: "doalloc cpu (hp_ref g) (klocked cpu k) = Some (a, k\<lparr>pagerefs := prs\<rparr>)"
    "km_core (k\<lparr>pagerefs := prs\<rparr>) (us @ g\<lparr>hp_free := as\<rparr> # vs)"
    using doalloc_ok [OF core ready(1) f] by blast
  have g: "hp_ok g" using core by (simp add: km_core_def pages_ok_def)
  then have a: "a \<in> hp_slots g" using f by (simp add: hp_ok_def)
  have "km_inv (k\<lparr>pagerefs := prs\<rparr>) (us @ g\<lparr>hp_free := as\<rparr> # vs)"
    using p(2) ne f ready by (simp add: km_inv_def not_empty_def km_ready_def)
  moreover have "hp_size g \<in> set sizes" using g nth_mem [of "hp_type g" sizes] by (simp add: hp_ok_def hp_size_def sizes_length)
  ultimately show ?thesis
    using that [OF p(1)] hp_slot(6,7) [OF g a] free_not_block [OF core] kblocks_take [OF core f] f by simp
qed

lemma km_core_phys:
  assumes "km_core k gs" "kpool p = kpool (phys k)"
  shows "km_core (k\<lparr>phys := p\<rparr>) gs"
  using assms by (simp add: km_core_def pages_ok_def refs_used_def)

lemma full_refs:
  assumes "km_core k gs" "refs_used k = {..<NPAGEREFS}"
  shows "length gs = NPAGEREFS"
proof -
  have "length (map hp_ref gs) = card (set (map hp_ref gs))"
    using assms(1) by (metis distinct_card km_core_def refs_distinct_def)
  moreover have "set (map hp_ref gs) = {..<NPAGEREFS}" using assms unfolding km_core_def by simp
  ultimately show ?thesis by (metis card_lessThan length_map)
qed

lemma allocpageref_same:
  "allocpageref k = Some (r, k') \<Longrightarrow> \<exists>inuse. k' = k\<lparr>pagerefs_inuse := inuse\<rparr>"
  by (auto simp: allocpageref_def outcome_simps)

text \<open>The page search, for a request of block type \<open>b\<close>.\<close>

lemma search_page:
  assumes "km_core k gs" "b < NSIZES"
  shows "rd (sizebases k) b = Some (sizebases k ! b)"
    "find_page (pagerefs k) b (sizebases k ! b) =
      Some (map_option hp_ref (List.find (\<lambda>g. hp_free g \<noteq> []) (filter (\<lambda>g. hp_type g = b) gs)))"
proof -
  show "rd (sizebases k) b = Some (sizebases k ! b)" using assms by (simp add: km_core_def)
  show "find_page (pagerefs k) b (sizebases k ! b) =
      Some (map_option hp_ref (List.find (\<lambda>g. hp_free g \<noteq> []) (filter (\<lambda>g. hp_type g = b) gs)))"
    by (rule find_page_spec) (use assms in \<open>auto simp: km_core_def lists_ok_def pages_ok_def hp_ok_def\<close>)
qed

text \<open>The second half of \<^verbatim>\<open>subpage_kmalloc\<close>: no page of the size has a free block.\<close>

lemma new_page:
  assumes inv: "km_inv k gs" and b: "b < NSIZES" "sz \<le> sizes ! b"
    and got: "alloc_kpages cpu 1 (phys k) = Some (a, p)" "pinv p" "a \<notin> kpool (phys k)" "kpool p = insert a (kpool (phys k))"
      "0 < a" "PAGE_SIZE dvd a" "a + PAGE_SIZE < 4294967296"
    and ref: "allocpageref (k\<lparr>phys := p\<rparr>) = Some (Some i, k1)"
  shows "\<exists>r k' gs'. do { k \<leftarrow> fresh_page b a i (klocked cpu k1); doalloc cpu i k } = Some (r, k') \<and> kmalloc_ok sz k gs r k' gs'"
proof -
  have core: "km_core k gs" and ne: "list_all not_empty gs" using inv by (simp_all add: km_inv_def)
  have il: "length (pagerefs_inuse (k\<lparr>phys := p\<rparr>)) = 8" using core by (simp add: km_core_def)
  have ru: "refs_used (k\<lparr>phys := p\<rparr>) = refs_used k" by (simp add: refs_used_def)
  note al = prefs.alloc_Some [OF il ref, unfolded ru]
  obtain inuse where k1: "k1 = k\<lparr>phys := p, pagerefs_inuse := inuse\<rparr>" using allocpageref_same [OF ref] by auto
  obtain m prs sb where f: "fresh_page b a i k1 = Some (k1\<lparr>words := m, pagerefs := prs, sizebases := sb, allbase := Some i\<rparr>)"
    "km_core (k1\<lparr>words := m, pagerefs := prs, sizebases := sb, allbase := Some i\<rparr>) (fresh i a b # gs)"
    "\<forall>x. x < a \<or> a + PAGE_SIZE \<le> x \<longrightarrow> m x = words k x"
    using fresh_page_ok [OF core, of i k1 a b] al b(1) got(3-7) k1 by auto
  let ?k2 = "k1\<lparr>words := m, pagerefs := prs, sizebases := sb, allbase := Some i\<rparr>"
  let ?g = "fresh i a b"
  have z: "hp_size ?g = sizes ! b" "hp_ref ?g = i" "length (hp_free ?g) = PAGE_SIZE div sizes ! b"
    by (simp_all add: fresh_def hp_size_def)
  have okg: "hp_ok ?g" using f(2) by (simp add: km_core_def pages_ok_def)
  have r2: "km_ready ?k2" "pinv (phys ?k2)" using inv got(2) k1 by (simp_all add: km_inv_def km_ready_def pinv_def pm_ok_def)
  have "hp_free ?g \<noteq> []" using z(1,3) hp_size_ok(5) [OF okg] by auto
  then obtain r k' gs' where t: "doalloc cpu i (klocked cpu ?k2) = Some (r, k')" "km_inv k' gs'" "words k' = m" "r \<noteq> 0"
    "sizes ! b \<in> set sizes" "sizes ! b dvd r" "(r, sizes ! b) \<notin> kblocks (?g # gs)" "kblocks gs' = insert (r, sizes ! b) (kblocks (?g # gs))"
    using take_block [of ?k2 "[]" ?g gs sz cpu] f(2) ne r2 z b(2) by auto
  have kb: "kblocks (?g # gs) = kblocks gs" using fresh_blocks by simp
  have "same_in (kblocks gs) (words k) m"
    unfolding same_in_def
  proof (intro ballI case_prodI2 allI impI)
    fix c :: "nat \<times> nat" and x n y
    assume c: "c \<in> kblocks gs" "c = (x, n)" and y: "x \<le> y \<and> y < x + n"
    obtain h where h: "h \<in> set gs" "hp_base h \<le> x" "x + n \<le> hp_base h + PAGE_SIZE" using block_in_page [OF core] c by blast
    have "hp_base h \<noteq> a" "PAGE_SIZE dvd hp_base h" using h(1) core got(3) by (auto simp: km_core_def pages_ok_def hp_ok_def)
    then show "m y = words k y" using pages_apart [of "hp_base h" a] got(6) h(2,3) y f(3) by auto
  qed
  then have "kmalloc_ok sz k gs r k' gs'" using t kb b(2) unfolding kmalloc_ok_def by auto
  moreover have "do { k \<leftarrow> fresh_page b a i (klocked cpu k1); doalloc cpu i k } = Some (r, k')"
    using t(1) by (simp only: klocked_ops f(1) option.map Option.bind.simps)
  ultimately show ?thesis by blast
qed

lemma alloc_fresh_ok:
  assumes inv: "km_inv k gs" and b: "b < NSIZES" "sz \<le> sizes ! b"
  shows "\<exists>r k' gs'. alloc_fresh cpu b (klocked cpu k) = Some (r, k') \<and> kmalloc_ok sz k gs r k' gs'"
proof -
  have core: "km_core k gs" and pinv: "pinv (phys k)" using inv by (simp_all add: km_inv_def)
  note un = km_lock_unlock(2) [OF km_inv_ready [OF inv]]
  show ?thesis
    using pinv
  proof (cases rule: kp.get_cases [where cpu = cpu])
    case none
    then show ?thesis using inv un by (auto simp: alloc_fresh_def kmalloc_ok_def)
  next
    case (got a p)
    let ?k = "k\<lparr>phys := p\<rparr>"
    have r: "km_ready ?k" using km_inv_ready [OF inv] got(2) by (simp add: km_ready_def pinv_def pm_ok_def)
    have il: "length (pagerefs_inuse ?k) = 8" using core by (simp add: km_core_def)
    have eq: "alloc_fresh cpu b (klocked cpu k) = do {
         (r, k) \<leftarrow> allocpageref (klocked cpu ?k);
         case r of
           None \<Rightarrow> do { k \<leftarrow> km_unlock cpu k; p \<leftarrow> free_kpages cpu a (phys k); Some (0, k\<lparr>phys := p\<rparr>) }
         | Some i \<Rightarrow> do { k \<leftarrow> fresh_page b a i k; doalloc cpu i k }
       }"
      using got(5) by (simp only: alloc_fresh_def un got(1) Option.bind.simps prod.case km_lock_unlock(1) [OF r]) simp
    show ?thesis
      using il
    proof (cases rule: prefs.alloc_cases)
      case full
      obtain p' where p': "free_kpages cpu a p = Some p'" "pinv p'" "kpool p' = kpool (phys k)"
        using kp.get_put [OF pinv got(1)] got(5) by auto
      have "km_inv (k\<lparr>phys := p'\<rparr>) gs" using inv p'(2) km_core_phys [OF core p'(3)] by (simp add: km_inv_def)
      moreover have "length gs = NPAGEREFS" using full_refs [OF core] full(2) by (simp add: refs_used_def)
      moreover have "alloc_fresh cpu b (klocked cpu k) = Some (0, k\<lparr>phys := p'\<rparr>)"
        using r p'(1) full(1) by (simp add: eq klocked_ops)
      ultimately show ?thesis by (auto simp: kmalloc_ok_def)
    next
      case ref: (got i k1)
      then show ?thesis using new_page [OF inv b got ref(1)] by (simp add: eq klocked_ops)
    qed
  qed
qed

lemma subpage_kmalloc_ok:
  assumes inv: "km_inv k gs" and sz: "sz \<le> 2048"
  shows "\<exists>r k' gs'. subpage_kmalloc cpu sz k = Some (r, k') \<and> kmalloc_ok sz k gs r k' gs'"
proof -
  obtain b where b: "b < NSIZES" "blocktype sz = Some b" "sz \<le> sizes ! b"
    using blocktype_from_spec [OF sz, of 0] by (auto simp: blocktype_def)
  have core: "km_core k gs" and ne: "list_all not_empty gs" and pinv: "pinv (phys k)" using inv by (simp_all add: km_inv_def)
  note ready = km_inv_ready [OF inv]
  note start = b(2) km_lock_unlock(1) [OF ready] klocked_sel search_page [OF core b(1)]
  show ?thesis
  proof (cases "List.find (\<lambda>g. hp_free g \<noteq> []) (filter (\<lambda>g. hp_type g = b) gs)")
    case (Some g)
    obtain us vs where g: "gs = us @ g # vs" "hp_free g \<noteq> []" "hp_type g = b" using find_Some_filter [OF Some] by blast
    have z: "hp_size g = sizes ! b" using g(3) by (simp add: hp_size_def)
    have "length (hp_free g) \<le> PAGE_SIZE div hp_size g" using core free_le g(1) by (simp add: km_core_def pages_ok_def)
    then obtain a k' gs' where t: "doalloc cpu (hp_ref g) (klocked cpu k) = Some (a, k')" "km_inv k' gs'" "words k' = words k"
      "a \<noteq> 0" "sizes ! b \<in> set sizes" "sizes ! b dvd a" "(a, sizes ! b) \<notin> kblocks gs"
      "kblocks gs' = insert (a, sizes ! b) (kblocks gs)"
      using take_block [of k us g vs sz cpu] core g ne ready pinv b(3) z by auto
    then have "kmalloc_ok sz k gs a k' gs'" using b(3) unfolding kmalloc_ok_def by auto
    moreover have "subpage_kmalloc cpu sz k = Some (a, k')"
      using t(1) by (simp only: subpage_kmalloc_def start Some option.map option.case Option.bind.simps)
    ultimately show ?thesis by blast
  next
    case None
    then have "subpage_kmalloc cpu sz k = alloc_fresh cpu b (klocked cpu k)"
      by (simp only: subpage_kmalloc_def start option.map option.case Option.bind.simps)
    then show ?thesis using alloc_fresh_ok [OF inv b(1,3), of cpu] by simp
  qed
qed

end
