(* ===== verification/Kmalloc_Free.thy ===== *)
theory Kmalloc_Free
  imports Kmalloc_Correct
begin

text \<open>The other half of \<^verbatim>\<open>kern/vm/kmalloc.c\<close>: blocks that are freed, pages that are given back, and the contracts of the
  two entry points.\<close>

section \<open>A block goes back on the free list\<close>

definition given :: "nat \<Rightarrow> nat \<Rightarrow> nat list \<Rightarrow> (nat \<Rightarrow> nat) \<Rightarrow> nat \<Rightarrow> nat" where
  "given a n free m = (fill_deadbeef a n m)(a := (case free of [] \<Rightarrow> 0 | b # _ \<Rightarrow> b))"

lemma given_far:
  assumes "0 < n" "x < a \<or> a + n \<le> x"
  shows "given a n free m x = m x"
proof -
  have "4 * (n div 4) \<le> n" by simp
  then have "\<not> (a \<le> x \<and> x < a + 4 * (n div 4))" "x \<noteq> a" using assms by auto
  then show ?thesis by (auto simp: given_def fill_deadbeef_def)
qed

lemma give_block:
  assumes core: "km_core k (us @ g # vs)" and a: "a \<in> hp_slots g" "a \<notin> set (hp_free g)"
  shows "km_core (k\<lparr>pagerefs := (pagerefs k)[hp_ref g := (pagerefs k ! hp_ref g)\<lparr>freelist_offset := a - hp_base g,
      nfree := length (hp_free g) + 1\<rparr>], words := given a (hp_size g) (hp_free g) (words k)\<rparr>) (us @ g\<lparr>hp_free := a # hp_free g\<rparr> # vs)"
proof -
  have all: "hp_ok h \<and> hp_ref_ok (pagerefs k ! hp_ref h) h \<and> chain (words k) (hp_free h)" if "h \<in> set (us @ g # vs)" for h
    using core that by (auto simp: km_core_def pages_ok_def)
  then have g: "hp_ok g" "hp_ref_ok (pagerefs k ! hp_ref g) g" by simp_all
  note z = hp_size_ok(2) [OF g(1)]
  have keep: "given a (hp_size g) (hp_free g) (words k) x = words k x"
    if h: "h \<in> set (us @ g # vs)" and x: "x \<in> set (hp_free h)" for h x
  proof -
    have hs: "hp_ok h" "x \<in> hp_slots h" using all [OF h] x by (auto simp: hp_ok_def)
    have d: "refs_distinct (us @ g # vs)" using core by (simp add: km_core_def)
    have "g = h \<and> a \<noteq> x \<or> hp_base g \<noteq> hp_base h"
    proof (cases "h = g")
      case True
      then show ?thesis using a(2) x by auto
    next
      case False
      then show ?thesis using refs_other(2) [OF d, of h] h by auto
    qed
    from blocks_apart [OF g(1) hs(1) a(1) hs(2) this]
    have "x < a \<or> a + hp_size g \<le> x" using hp_size_ok(2) [OF hs(1)] by auto
    then show ?thesis using given_far z by simp
  qed
  have chains: "chain (given a (hp_size g) (hp_free g) (words k)) (hp_free h)" if h: "h \<in> set (us @ g # vs)" for h
    using fchain_cong [of "words k" "hp_free h"] all [OF h] keep [OF h] by blast
  show ?thesis
  proof (rule km_core_upd [OF core])
    show "hp_ok (g\<lparr>hp_free := a # hp_free g\<rparr>)" using g(1) a by (simp add: hp_ok_def)
    show "hp_ref_ok ((pagerefs k ! hp_ref g)\<lparr>freelist_offset := a - hp_base g, nfree := length (hp_free g) + 1\<rparr>)
        (g\<lparr>hp_free := a # hp_free g\<rparr>)" using g(2) by (simp add: hp_ref_ok_def)
    show "chain (given a (hp_size g) (hp_free g) (words k)) (hp_free (g\<lparr>hp_free := a # hp_free g\<rparr>))"
      using chains [of g] by (simp add: given_def)
  qed (use chains in auto)
qed

lemma same_in_given:
  assumes "km_core k gs" "(a, n) \<in> kblocks gs" "0 < n"
  shows "same_in (kblocks gs - {(a, n)}) m (given a n free m)"
  unfolding same_in_def
proof (intro ballI case_prodI2 allI impI)
  fix c :: "nat \<times> nat" and b n' y
  assume c: "c \<in> kblocks gs - {(a, n)}" "c = (b, n')" and y: "b \<le> y \<and> y < b + n'"
  then have "a + n \<le> b \<or> b + n' \<le> a" using kblocks_apart [OF assms(1,2), of b n'] by auto
  then show "given a n free m y = m y" using given_far [OF assms(3)] y by auto
qed

lemma kblocks_give:
  assumes "km_core k (us @ g # vs)" "a \<in> hp_slots g" "a \<notin> set (hp_free g)"
  shows "kblocks (us @ g\<lparr>hp_free := a # hp_free g\<rparr> # vs) = kblocks (us @ g # vs) - {(a, hp_size g)}"
proof -
  have d: "refs_distinct (us @ g # vs)" and ok: "\<forall>h\<in>set (us @ g # vs). hp_ok h" using assms(1) by (auto simp: km_core_def pages_ok_def)
  have "a \<notin> hp_slots h" if h: "h \<in> set us \<union> set vs" for h
  proof
    assume "a \<in> hp_slots h"
    then have "a + hp_size g \<le> a \<or> a + hp_size h \<le> a"
      using blocks_apart [of g h a a] refs_other(2) [OF d h] ok h assms(2) by auto
    then show False using hp_size_ok(2) [of g] hp_size_ok(2) [of h] ok h by auto
  qed
  then have "(a, hp_size g) \<notin> kblocks us \<union> kblocks vs" by (auto simp: kblocks_def)
  then show ?thesis by auto
qed

section \<open>A page goes back\<close>

lemma filter_refs_split:
  "map hp_ref (filter P (us @ g # vs)) = map hp_ref (filter P us) @ (if P g then [hp_ref g] else []) @ map hp_ref (filter P vs)"
  by simp

text \<open>What one walk keeps of the page references.\<close>

definition only_links :: "(nat option \<Rightarrow> pageref \<Rightarrow> pageref) \<Rightarrow> pageref list \<Rightarrow> pageref list \<Rightarrow> bool" where
  "only_links put prs prs' \<longleftrightarrow> length prs' = length prs \<and>
     (\<forall>i<length prs. \<exists>q. prs' ! i = prs ! i \<or> prs' ! i = put q (prs ! i))"

lemma only_links_samesize:
  "only_links put_samesize prs prs' \<Longrightarrow> i < length prs \<Longrightarrow> next_all (prs' ! i) = next_all (prs ! i)"
  "only_links put_samesize prs prs' \<Longrightarrow> i < length prs \<Longrightarrow> hp_ref_ok (prs' ! i) h = hp_ref_ok (prs ! i) h"
  by (fastforce simp: only_links_def put_samesize_def hp_ref_ok_def)+

lemma only_links_all:
  "only_links put_all prs prs' \<Longrightarrow> i < length prs \<Longrightarrow> next_samesize (prs' ! i) = next_samesize (prs ! i)"
  "only_links put_all prs prs' \<Longrightarrow> i < length prs \<Longrightarrow> hp_ref_ok (prs' ! i) h = hp_ref_ok (prs ! i) h"
  by (fastforce simp: only_links_def put_all_def hp_ref_ok_def)+

text \<open>The list of the pages of one size loses the page; those of the other sizes stay.\<close>

lemma unlink_samesize:
  assumes core: "km_core k (us @ g # vs)"
  obtains b prs where
    "unlink next_samesize put_samesize (hp_ref g) None (sizebases k ! hp_type g) (sizebases k ! hp_type g) (pagerefs k) = Some (b, prs)"
    "only_links put_samesize (pagerefs k) prs"
    "\<forall>c<NSIZES. linked (\<lambda>i. next_samesize (prs ! i)) ((sizebases k)[hp_type g := b] ! c) (map hp_ref (filter (\<lambda>h. hp_type h = c) (us @ vs)))"
proof -
  have t: "hp_type g < NSIZES" and len: "length (pagerefs k) = NPAGEREFS" "length (sizebases k) = NSIZES"
    using core by (auto simp: km_core_def pages_ok_def hp_ok_def)
  have d: "distinct (map hp_ref us @ hp_ref g # map hp_ref vs)" using core by (simp add: km_core_def refs_distinct_def)
  have bound: "hp_ref h < NPAGEREFS" if "h \<in> set (us @ g # vs)" for h
    using core that by (auto simp: km_core_def pages_ok_def hp_ok_def)
  let ?P = "\<lambda>h. hp_type h = hp_type g"
  let ?b = "sizebases k ! hp_type g"
  have l: "linked (\<lambda>i. next_samesize (pagerefs k ! i)) ?b (map hp_ref (filter ?P us) @ hp_ref g # map hp_ref (filter ?P vs))"
    using core t unfolding km_core_def lists_ok_def filter_refs_split by fastforce
  have d1: "distinct (map hp_ref (filter ?P us) @ hp_ref g # map hp_ref (filter ?P vs))"
    using d by (auto simp: distinct_map_filter)
  obtain b prs where u: "unlink next_samesize put_samesize (hp_ref g) None ?b ?b (pagerefs k) = Some (b, prs)"
    "linked (\<lambda>i. next_samesize (prs ! i)) b (map hp_ref (filter ?P us) @ map hp_ref (filter ?P vs))"
    "length prs = length (pagerefs k)" "\<And>i. i \<notin> set (map hp_ref (filter ?P us)) \<Longrightarrow> prs ! i = pagerefs k ! i"
    "\<And>i. i < length (pagerefs k) \<Longrightarrow> \<exists>q. prs ! i = pagerefs k ! i \<or> prs ! i = put_samesize q (pagerefs k ! i)"
  proof (rule unlink_spec [OF l d1, of put_samesize])
    show "\<forall>i\<in>set (map hp_ref (filter ?P us) @ hp_ref g # map hp_ref (filter ?P vs)). i < length (pagerefs k)" using bound len by auto
  qed (auto simp: put_samesize_def)
  have "linked (\<lambda>i. next_samesize (prs ! i)) ((sizebases k)[hp_type g := b] ! c) (map hp_ref (filter (\<lambda>h. hp_type h = c) (us @ vs)))"
    if c: "c < NSIZES" for c
  proof (cases "c = hp_type g")
    case True
    then show ?thesis using u(2) len t by simp
  next
    case False
    let ?l = "map hp_ref (filter (\<lambda>h. hp_type h = c) (us @ vs))"
    have "x \<notin> set (map hp_ref (filter ?P us))" if x: "x \<in> set ?l" for x
    proof
      assume "x \<in> set (map hp_ref (filter ?P us))"
      then obtain h' where h': "h' \<in> set (us @ vs)" "hp_ref h' = x" "hp_type h' = hp_type g" by auto
      obtain h where h: "h \<in> set (us @ vs)" "hp_ref h = x" "hp_type h = c" using x by auto
      have "distinct (map hp_ref (us @ vs))" using d by auto
      then have "h = h'" using h h' by (metis distinct_map inj_onD)
      then show False using h(3) h'(3) False by simp
    qed
    then have "linked (\<lambda>i. next_samesize (prs ! i)) p ?l = linked (\<lambda>i. next_samesize (pagerefs k ! i)) p ?l" for p
      using u(4) by (intro path_cong) auto
    moreover have "linked (\<lambda>i. next_samesize (pagerefs k ! i)) (sizebases k ! c) ?l"
      using core c False unfolding km_core_def lists_ok_def filter_refs_split by fastforce
    ultimately show ?thesis using False by simp
  qed
  then show ?thesis using that [OF u(1)] u(3,5) by (auto simp: only_links_def)
qed

lemma unlink_all:
  assumes core: "km_core k (us @ g # vs)" and prs: "only_links put_samesize (pagerefs k) prs"
  obtains ab prs' where "unlink next_all put_all (hp_ref g) None (allbase k) (allbase k) prs = Some (ab, prs')"
    "only_links put_all prs prs'" "linked (\<lambda>i. next_all (prs' ! i)) ab (map hp_ref (us @ vs))"
proof -
  have len: "length (pagerefs k) = NPAGEREFS" "length prs = NPAGEREFS" using core prs by (simp_all add: km_core_def only_links_def)
  have d: "distinct (map hp_ref us @ hp_ref g # map hp_ref vs)" using core by (simp add: km_core_def refs_distinct_def)
  have bound: "hp_ref h < NPAGEREFS" if "h \<in> set (us @ g # vs)" for h
    using core that by (auto simp: km_core_def pages_ok_def hp_ok_def)
  have "linked (\<lambda>i. next_all (prs ! i)) (allbase k) (map hp_ref (us @ g # vs)) =
      linked (\<lambda>i. next_all (pagerefs k ! i)) (allbase k) (map hp_ref (us @ g # vs))"
    by (rule path_cong) (use only_links_samesize(1) [OF prs] bound len in auto)
  then have l: "linked (\<lambda>i. next_all (prs ! i)) (allbase k) (map hp_ref us @ hp_ref g # map hp_ref vs)"
    using core by (simp add: km_core_def lists_ok_def)
  obtain ab prs' where u: "unlink next_all put_all (hp_ref g) None (allbase k) (allbase k) prs = Some (ab, prs')"
    "linked (\<lambda>i. next_all (prs' ! i)) ab (map hp_ref us @ map hp_ref vs)" "length prs' = length prs"
    "\<And>i. i < length prs \<Longrightarrow> \<exists>q. prs' ! i = prs ! i \<or> prs' ! i = put_all q (prs ! i)"
  proof (rule unlink_spec [OF l d, of put_all])
    show "\<forall>i\<in>set (map hp_ref us @ hp_ref g # map hp_ref vs). i < length prs" using bound len by auto
  qed (auto simp: put_all_def)
  then show ?thesis using that [OF u(1)] by (simp add: only_links_def)
qed

lemma remove_lists_ok:
  assumes core: "km_core k (us @ g # vs)"
  obtains sb ab prs where "remove_lists (hp_ref g) (hp_type g) k = Some (k\<lparr>sizebases := sb, allbase := ab, pagerefs := prs\<rparr>)"
    "lists_ok prs sb ab (us @ vs)" "length prs = NPAGEREFS" "length sb = NSIZES"
    "\<forall>h\<in>set (us @ vs). hp_ref_ok (prs ! hp_ref h) h"
proof -
  have t: "hp_type g < NSIZES" and len: "length (pagerefs k) = NPAGEREFS" "length (sizebases k) = NSIZES"
    using core by (auto simp: km_core_def pages_ok_def hp_ok_def)
  have all: "hp_ref_ok (pagerefs k ! hp_ref h) h \<and> hp_ref h < NPAGEREFS" if "h \<in> set (us @ vs)" for h
    using core that by (auto simp: km_core_def pages_ok_def hp_ok_def)
  obtain b prs1 where u1: "unlink next_samesize put_samesize (hp_ref g) None (sizebases k ! hp_type g) (sizebases k ! hp_type g) (pagerefs k) = Some (b, prs1)"
    "only_links put_samesize (pagerefs k) prs1"
    "\<forall>c<NSIZES. linked (\<lambda>i. next_samesize (prs1 ! i)) ((sizebases k)[hp_type g := b] ! c) (map hp_ref (filter (\<lambda>h. hp_type h = c) (us @ vs)))"
    by (rule unlink_samesize [OF core])
  obtain ab prs2 where u2: "unlink next_all put_all (hp_ref g) None (allbase k) (allbase k) prs1 = Some (ab, prs2)"
    "only_links put_all prs1 prs2" "linked (\<lambda>i. next_all (prs2 ! i)) ab (map hp_ref (us @ vs))"
    by (rule unlink_all [OF core u1(2)])
  have len2: "length prs1 = NPAGEREFS" "length prs2 = NPAGEREFS" using u1(2) u2(2) len by (simp_all add: only_links_def)
  let ?sb = "(sizebases k)[hp_type g := b]"
  have "linked (\<lambda>i. next_samesize (prs2 ! i)) p (map hp_ref (filter P (us @ vs))) =
      linked (\<lambda>i. next_samesize (prs1 ! i)) p (map hp_ref (filter P (us @ vs)))" for p P
    by (rule path_cong) (use only_links_all(1) [OF u2(2)] all len2 in auto)
  then have "lists_ok prs2 ?sb ab (us @ vs)" using u1(3) u2(3) unfolding lists_ok_def by simp
  moreover have "remove_lists (hp_ref g) (hp_type g) k = Some (k\<lparr>sizebases := ?sb, allbase := ab, pagerefs := prs2\<rparr>)"
    using t len u1(1) u2(1) by (simp add: remove_lists_def)
  moreover have "hp_ref_ok (prs2 ! hp_ref h) h" if "h \<in> set (us @ vs)" for h
    using all [OF that] only_links_samesize(2) [OF u1(2)] only_links_all(2) [OF u2(2)] len len2 by simp
  ultimately show ?thesis using that len len2 by simp
qed

lemma freepageref_same: "freepageref i k = Some k' \<Longrightarrow> \<exists>inuse. k' = k\<lparr>pagerefs_inuse := inuse\<rparr>"
  by (auto simp: freepageref_def split: if_splits bind_splits)

lemma drop_page:
  assumes core: "km_core k (us @ g # vs)"
  obtains k1 k2 where "remove_lists (hp_ref g) (hp_type g) k = Some k1" "freepageref (hp_ref g) k1 = Some k2" "km_core k2 (us @ vs)"
    "words k2 = words k" "phys k2 = phys k" "kmalloc_spinlock k2 = kmalloc_spinlock k"
proof -
  obtain sb ab prs where r: "remove_lists (hp_ref g) (hp_type g) k = Some (k\<lparr>sizebases := sb, allbase := ab, pagerefs := prs\<rparr>)"
    "lists_ok prs sb ab (us @ vs)" "length prs = NPAGEREFS" "length sb = NSIZES"
    "\<forall>h\<in>set (us @ vs). hp_ref_ok (prs ! hp_ref h) h"
    by (rule remove_lists_ok [OF core])
  let ?k1 = "k\<lparr>sizebases := sb, allbase := ab, pagerefs := prs\<rparr>"
  have len: "length (pagerefs_inuse ?k1) = 8" and used: "refs_used ?k1 = set (map hp_ref (us @ g # vs))"
    using core by (simp_all add: km_core_def refs_used_def)
  then obtain k2 where k2: "freepageref (hp_ref g) ?k1 = Some k2" "refs_used k2 = refs_used ?k1 - {hp_ref g}" "length (pagerefs_inuse k2) = 8"
    using prefs.free_used [of ?k1 "hp_ref g"] by auto
  obtain inuse where i: "k2 = ?k1\<lparr>pagerefs_inuse := inuse\<rparr>" using freepageref_same [OF k2(1)] by blast
  have d: "refs_distinct (us @ g # vs)" using core by (simp add: km_core_def)
  then have "refs_used k2 = set (map hp_ref (us @ vs))" using k2(2) used by (auto simp: refs_distinct_def)
  moreover have "pages_ok k2 (us @ vs)" using core r(5) i by (auto simp: km_core_def pages_ok_def)
  moreover have "refs_distinct (us @ vs)" using d by (auto simp: refs_distinct_def)
  ultimately have "km_core k2 (us @ vs)" using core r(2-4) k2(3) i by (simp add: km_core_def)
  then show ?thesis using that [OF r(1) k2(1)] i by simp
qed

section \<open>Freeing\<close>

text \<open>The page a block lies on is the one \<^verbatim>\<open>subpage_kfree\<close> finds.\<close>

lemma find_unique:
  assumes "x \<in> set xs" "P x" "\<And>y. y \<in> set xs \<Longrightarrow> P y \<Longrightarrow> y = x"
  shows "List.find P xs = Some x"
proof (cases "List.find P xs")
  case None
  then show ?thesis using assms(1,2) by (auto simp: find_None_iff)
next
  case (Some y)
  then have "y \<in> set xs" "P y" using find_split [OF Some] by auto
  then show ?thesis using Some assms(3) [of y] by simp
qed

lemma owner_of_block:
  assumes core: "km_core k gs" and a: "(a, n) \<in> kblocks gs"
  obtains us g vs where "gs = us @ g # vs" "a \<in> hp_slots g" "a \<notin> set (hp_free g)" "n = hp_size g"
    "find_owner (pagerefs k) a (allbase k) = Some (Some (hp_ref g))"
proof -
  let ?P = "\<lambda>g. hp_base g \<le> a \<and> a < hp_base g + PAGE_SIZE"
  have all: "hp_ok h \<and> hp_ref_ok (pagerefs k ! hp_ref h) h \<and> hp_ref h < length (pagerefs k)" if "h \<in> set gs" for h
    using core that by (auto simp: km_core_def pages_ok_def hp_ok_def)
  obtain g where g: "g \<in> set gs" "a \<in> hp_slots g" "a \<notin> set (hp_free g)" "n = hp_size g" using a by (auto simp: kblocks_def)
  have Pg: "?P g" using hp_slot(1,5) [of g a] all [OF g(1)] g(2) by auto
  have uniq: "h = g" if h: "h \<in> set gs" "?P h" for h
  proof -
    have "hp_base h = hp_base g" using pages_apart [of "hp_base h" "hp_base g"] all [OF h(1)] all [OF g(1)] h(2) Pg by (auto simp: hp_ok_def)
    then show ?thesis using core h(1) g(1) by (auto simp: km_core_def refs_distinct_def distinct_map inj_on_def)
  qed
  have "List.find ?P gs = Some g" by (rule find_unique [where P = ?P, OF g(1) Pg uniq])
  then have "find_owner (pagerefs k) a (allbase k) = Some (Some (hp_ref g))"
    using find_owner_spec [of "pagerefs k" "allbase k" gs a] core all by (simp add: km_core_def lists_ok_def)
  then show ?thesis using that g split_list [OF g(1)] by blast
qed

definition kfree_ok :: "nat \<Rightarrow> nat \<Rightarrow> kmst \<Rightarrow> hpage list \<Rightarrow> kmst \<Rightarrow> hpage list \<Rightarrow> bool" where
  "kfree_ok a n k gs k' gs' \<longleftrightarrow> km_inv k' gs' \<and> kblocks gs' = kblocks gs - {(a, n)} \<and>
     same_in (kblocks gs') (words k) (words k')"

text \<open>The body of \<^verbatim>\<open>subpage_kfree\<close> up to the decision whether the page goes back.\<close>

lemma subpage_kfree_eq:
  assumes core: "km_core k (us @ g # vs)" and ready: "km_ready k" and a: "a \<in> hp_slots g" "a \<notin> set (hp_free g)"
    and owner: "find_owner (pagerefs k) a (allbase k) = Some (Some (hp_ref g))"
  defines "k1 \<equiv> k\<lparr>words := given a (hp_size g) (hp_free g) (words k), pagerefs := (pagerefs k)[hp_ref g :=
      (pagerefs k ! hp_ref g)\<lparr>freelist_offset := a - hp_base g, nfree := length (hp_free g) + 1\<rparr>]\<rparr>"
  shows "subpage_kfree cpu a k =
    (if length (hp_free g) + 1 = PAGE_SIZE div hp_size g then do {
       k \<leftarrow> remove_lists (hp_ref g) (hp_type g) (klocked cpu k1);
       k \<leftarrow> freepageref (hp_ref g) k;
       k \<leftarrow> km_unlock cpu k;
       p \<leftarrow> free_kpages cpu (hp_base g) (phys k);
       Some (0, k\<lparr>phys := p\<rparr>)
     }
     else Some (0, k1))"
proof -
  let ?r = "pagerefs k ! hp_ref g"
  have g: "hp_ok g" "hp_ref_ok ?r g" and l: "hp_ref g < length (pagerefs k)"
    using core by (auto simp: km_core_def pages_ok_def hp_ok_def)
  note ab = hp_slot [OF g(1) a(1)]
  have t: "rd sizes (hp_type g) = Some (hp_size g)" using g(1) by (simp add: hp_ok_def hp_size_def sizes_length)
  have le: "length (hp_free g) + 1 \<le> PAGE_SIZE div hp_size g"
  proof -
    have "hp_ok (g\<lparr>hp_free := a # hp_free g\<rparr>)" using g(1) a by (simp add: hp_ok_def)
    then show ?thesis using free_le by fastforce
  qed
  moreover have "PAGE_SIZE div hp_size g \<le> 256" using hp_size_ok(2) [OF g(1)] div_le_mono2 [of 16 "hp_size g" PAGE_SIZE] by simp
  ultimately have n: "(length (hp_free g) + 1) mod 65536 = length (hp_free g) + 1" by simp
  have rets: "u32 (hp_base g + (a - hp_base g)) = a" using ab(1,4) by simp
  have fl: "(if freelist_offset ?r = INVALID_OFFSET then 0 else u32 (hp_base g + freelist_offset ?r)) =
      (case hp_free g of [] \<Rightarrow> 0 | b # _ \<Rightarrow> b)"
  proof (cases "hp_free g")
    case Nil
    then show ?thesis using g(2) by (simp add: hp_ref_ok_def)
  next
    case (Cons b bs)
    then have "b \<in> hp_slots g" using g(1) by (simp add: hp_ok_def)
    from hp_slot [OF g(1) this] show ?thesis using Cons g(2) by (simp add: hp_ref_ok_def)
  qed
  have nf: "nfree ?r = length (hp_free g)" using g(2) by (simp add: hp_ref_ok_def)
  have al: "\<not> (PAGE_SIZE \<le> a - hp_base g \<or> (a - hp_base g) mod hp_size g \<noteq> 0)" using ab(3,5) by simp
  have r1: "km_ready k1" using ready by (simp add: k1_def)
  let ?r' = "?r\<lparr>freelist_offset := a - hp_base g, nfree := length (hp_free g) + 1\<rparr>"
  have wr: "wr (pagerefs k) (hp_ref g) ?r' = Some ((pagerefs k)[hp_ref g := ?r'])" using l by simp
  have k1': "(klocked cpu k)\<lparr>words := given a (hp_size g) (hp_free g) (words k), pagerefs := (pagerefs k)[hp_ref g := ?r']\<rparr> = klocked cpu k1"
    by (simp add: k1_def)
  have nf': "nfree ?r' = length (hp_free g) + 1" by simp
  have un: "km_unlock cpu (klocked cpu k1) = Some k1" using r1 by simp
  show ?thesis
    by (simp only: subpage_kfree_def km_lock_unlock(1) [OF ready] klocked_sel owner Option.bind.simps option.case rd_in [OF l]
        page_ref [OF g] t KASSERT_bind al rets fl nf n if_True given_def [symmetric] wr k1' nf' le un
        not_False_eq_True)
qed

lemma subpage_kfree_ok:
  assumes inv: "km_inv k gs" and a: "(a, n) \<in> kblocks gs"
  shows "\<exists>k' gs'. subpage_kfree cpu a k = Some (0, k') \<and> kfree_ok a n k gs k' gs'"
proof -
  have core: "km_core k gs" and ne: "list_all not_empty gs" and pinv: "pinv (phys k)" and lk: "lock_free (kmalloc_spinlock k)"
    using inv by (simp_all add: km_inv_def)
  obtain us g vs where g: "gs = us @ g # vs" "a \<in> hp_slots g" "a \<notin> set (hp_free g)" "n = hp_size g"
    "find_owner (pagerefs k) a (allbase k) = Some (Some (hp_ref g))"
    by (rule owner_of_block [OF core a])
  let ?m = "given a (hp_size g) (hp_free g) (words k)"
  let ?prs = "(pagerefs k)[hp_ref g := (pagerefs k ! hp_ref g)\<lparr>freelist_offset := a - hp_base g, nfree := length (hp_free g) + 1\<rparr>]"
  let ?k1 = "k\<lparr>words := ?m, pagerefs := ?prs\<rparr>"
  let ?g = "g\<lparr>hp_free := a # hp_free g\<rparr>"
  note eq = subpage_kfree_eq [OF core [unfolded g(1)] km_inv_ready [OF inv] g(2,3,5)]
  have "?k1 = k\<lparr>pagerefs := ?prs, words := ?m\<rparr>" by (rule kmst.equality) simp_all
  then have c1: "km_core ?k1 (us @ ?g # vs)" using give_block [OF core [unfolded g(1)] g(2,3)] by (simp only:)
  have kb: "kblocks (us @ ?g # vs) = kblocks gs - {(a, n)}" using kblocks_give [OF core [unfolded g(1)] g(2,3)] g(1,4) by simp
  have okg: "hp_ok g" using core g(1) by (simp add: km_core_def pages_ok_def)
  have same: "same_in (kblocks gs - {(a, n)}) (words k) ?m"
    using same_in_given [OF core a] g(4) hp_size_ok(2) [OF okg] by simp
  show ?thesis
  proof (cases "length (hp_free g) + 1 = PAGE_SIZE div hp_size g")
    case False
    have "length (hp_free ?g) \<le> PAGE_SIZE div hp_size g"
      using c1 free_le [of ?g] by (simp add: km_core_def pages_ok_def)
    then have "km_inv ?k1 (us @ ?g # vs)"
      using c1 ne g(1) False lk pinv by (simp add: km_inv_def not_empty_def)
    then have "kfree_ok a n k gs ?k1 (us @ ?g # vs)" unfolding kfree_ok_def kb using same by simp
    then show ?thesis using eq False by (metis (no_types, lifting))
  next
    case True
    obtain k2 k3 where d: "remove_lists (hp_ref g) (hp_type g) ?k1 = Some k2" "freepageref (hp_ref g) k2 = Some k3"
      "km_core k3 (us @ vs)" "words k3 = ?m" "phys k3 = phys k" "kmalloc_spinlock k3 = kmalloc_spinlock k"
      using drop_page [OF c1] by auto
    have base: "hp_base g \<in> kpool (phys k)" using core g(1) by (simp add: km_core_def)
    then obtain p where p: "free_kpages cpu (hp_base g) (phys k) = Some p" "pinv p" "kpool p = kpool (phys k) - {hp_base g}"
      using kp.put_page [OF pinv] by blast
    have r3: "km_ready k3" using lk pinv d(5,6) by (simp add: km_ready_def pinv_def pm_ok_def)
    have "subpage_kfree cpu a k = Some (0, k3\<lparr>phys := p\<rparr>)"
      unfolding eq if_P [OF True] klocked_ops d(1) option.map Option.bind.simps d(2) km_lock_unlock(2) [OF r3] d(5) p(1) by simp
    moreover have "km_core (k3\<lparr>phys := p\<rparr>) (us @ vs)"
    proof -
      have "set (map hp_base (us @ vs)) \<subseteq> kpool p"
      proof -
        have "refs_distinct (us @ g # vs)" "set (map hp_base (us @ vs)) \<subseteq> kpool (phys k)"
          using core g(1) by (simp_all add: km_core_def)
        then show ?thesis using refs_other(2) [of us g vs] p(3) by auto
      qed
      then show ?thesis using d(3) by (simp add: km_core_def pages_ok_def refs_used_def)
    qed
    then have "km_inv (k3\<lparr>phys := p\<rparr>) (us @ vs)" using ne g(1) lk d(6) p(2) by (simp add: km_inv_def)
    moreover have "kblocks (us @ vs) = kblocks (us @ ?g # vs)"
    proof -
      have "set (hp_free ?g) \<subseteq> hp_slots g" "card (set (hp_free ?g)) = card (hp_slots g)"
        using okg g(2,3) True hp_slots_card [OF okg] by (simp_all add: hp_ok_def distinct_card)
      then have "set (hp_free ?g) = hp_slots g" by (intro card_subset_eq) (simp_all add: hp_slots_def)
      then show ?thesis by simp
    qed
    ultimately show ?thesis using kb same d(4) by (auto simp: kfree_ok_def)
  qed
qed

section \<open>Clients of the heap\<close>

lemma kmalloc_small: "sz < 2048 \<Longrightarrow> kmalloc cpu sz k = subpage_kmalloc cpu sz k"
  by (simp add: kmalloc_def)

lemma block_nonzero: "km_inv k gs \<Longrightarrow> (a, n) \<in> kblocks gs \<Longrightarrow> a \<noteq> 0"
  by (auto simp: km_inv_def km_core_def pages_ok_def kblocks_def dest: hp_slot(7))

lemma kfree_block_eq:
  assumes "subpage_kfree cpu a k = Some (0, k')" "a \<noteq> 0"
  shows "kfree cpu a k = Some k'"
  using assms by (simp add: kfree_def)

text \<open>Words of blocks in use may change at any time: they are the clients'.\<close>

lemma km_inv_write:
  assumes "km_inv k gs" "(a, n) \<in> kblocks gs" "a \<le> x" "x < a + n"
  shows "km_inv (k\<lparr>words := (words k)(x := v)\<rparr>) gs"
proof -
  have core: "km_core k gs" using assms(1) by (simp add: km_inv_def)
  have "x \<notin> set (hp_free h)" if h: "h \<in> set gs" for h
  proof
    assume x: "x \<in> set (hp_free h)"
    obtain us vs where gs: "gs = us @ h # vs" using split_list [OF h] by blast
    obtain g where g: "g \<in> set gs" "a \<in> hp_slots g" "a \<notin> set (hp_free g)" "n = hp_size g"
      using assms(2) by (auto simp: kblocks_def)
    have ok: "hp_ok g" "hp_ok h" using core g(1) h by (simp_all add: km_core_def pages_ok_def)
    have xs: "x \<in> hp_slots h" using x ok(2) by (auto simp: hp_ok_def)
    have "g = h \<and> a \<noteq> x \<or> hp_base g \<noteq> hp_base h"
    proof (cases "g = h")
      case True
      then show ?thesis using g(3) x by auto
    next
      case False
      then have "g \<in> set us \<union> set vs" using g(1) gs by auto
      then show ?thesis using refs_other(2) core gs unfolding km_core_def by blast
    qed
    from blocks_apart [OF ok g(2) xs this] show False using assms(3,4) g(4) hp_size_ok(2) [OF ok(2)] by auto
  qed
  then have "chain ((words k)(x := v)) (hp_free h)" if h: "h \<in> set gs" for h
  proof -
    have "chain (words k) (hp_free h)" using core h by (simp add: km_core_def pages_ok_def)
    then show ?thesis by (rule fchain_cong) (use \<open>\<And>h. h \<in> set gs \<Longrightarrow> x \<notin> set (hp_free h)\<close> [OF h] in auto)
  qed
  then have "pages_ok (k\<lparr>words := (words k)(x := v)\<rparr>) gs" using core by (simp add: km_core_def pages_ok_def)
  then show ?thesis using assms(1) by (simp add: km_inv_def km_core_def refs_used_def)
qed

text \<open>The heap at boot: no page reference is in use.\<close>

definition km_boot :: "pmem \<Rightarrow> (nat \<Rightarrow> nat) \<Rightarrow> kmst" where
  "km_boot p m = \<lparr>pagerefs = replicate NPAGEREFS \<lparr>next_samesize = None, next_all = None, pageaddr_and_blocktype = 0,
       freelist_offset = 0, nfree = 0\<rparr>,
     pagerefs_inuse = replicate INUSE_WORDS 0, sizebases = replicate NSIZES None, allbase = None, words = m,
     kmalloc_spinlock = \<lparr>lk_lock = 0, lk_holder = None\<rparr>, phys = p\<rparr>"

lemma km_boot_inv: "pinv p \<Longrightarrow> km_inv (km_boot p m) []"
  by (auto simp: km_inv_def km_core_def km_boot_def lists_ok_def pages_ok_def refs_distinct_def refs_used_def lock_free_def)

text \<open>Kernel code that calls the allocator on any processor, writes into the blocks it holds, and frees them.  The map
  gives the size each block was asked for.\<close>

inductive km_reach :: "kmst \<Rightarrow> (nat \<rightharpoonup> nat) \<Rightarrow> bool" where
  boot: "pinv p \<Longrightarrow> km_reach (km_boot p m) Map.empty"
| alloc: "km_reach k B \<Longrightarrow> sz < LARGEST_SUBPAGE_SIZE \<Longrightarrow> kmalloc cpu sz k = Some (r, k') \<Longrightarrow>
    km_reach k' (if r = 0 then B else B(r \<mapsto> sz))"
| free: "km_reach k B \<Longrightarrow> B a = Some sz \<Longrightarrow> kfree cpu a k = Some k' \<Longrightarrow> km_reach k' (B(a := None))"
| store: "km_reach k B \<Longrightarrow> B a = Some sz \<Longrightarrow> a \<le> x \<Longrightarrow> x < a + sz \<Longrightarrow> km_reach (k\<lparr>words := (words k)(x := v)\<rparr>) B"

definition backed :: "(nat \<rightharpoonup> nat) \<Rightarrow> hpage list \<Rightarrow> bool" where
  "backed B gs \<longleftrightarrow> (\<forall>a sz. B a = Some sz \<longrightarrow> (\<exists>n\<ge>sz. (a, n) \<in> kblocks gs))"

lemma km_reach_inv: "km_reach k B \<Longrightarrow> \<exists>gs. km_inv k gs \<and> backed B gs"
proof (induction rule: km_reach.induct)
  case (boot p m)
  then show ?case using km_boot_inv by (auto simp: backed_def)
next
  case (alloc k B sz cpu r k')
  then obtain gs where gs: "km_inv k gs" "backed B gs" by blast
  obtain gs' where "kmalloc_ok sz k gs r k' gs'"
    using subpage_kmalloc_ok [OF gs(1), of sz cpu] alloc(2,3) by (auto simp: kmalloc_small)
  then have "km_inv k' gs' \<and> backed (if r = 0 then B else B(r \<mapsto> sz)) gs'"
    using gs(2) unfolding kmalloc_ok_def backed_def by (auto split: if_splits)
  then show ?case by blast
next
  case (free k B a sz cpu k')
  then obtain gs where gs: "km_inv k gs" "backed B gs" by blast
  then obtain n where n: "(a, n) \<in> kblocks gs" using free(2) by (auto simp: backed_def)
  obtain gs' where g: "kfree_ok a n k gs k' gs'"
    using subpage_kfree_ok [OF gs(1) n, of cpu] kfree_block_eq block_nonzero [OF gs(1) n] free(3) by fastforce
  then have "backed (B(a := None)) gs'" using gs(2) by (auto simp: kfree_ok_def backed_def)
  then show ?case using g unfolding kfree_ok_def by blast
next
  case (store k B a sz x v)
  then obtain gs where gs: "km_inv k gs" "backed B gs" by blast
  then obtain n where n: "(a, n) \<in> kblocks gs" "sz \<le> n" using store(2) by (auto simp: backed_def)
  then show ?case using km_inv_write [OF gs(1) n(1) store(3)] store(4) gs(2) by auto
qed

lemma backed_apart:
  assumes "km_inv k gs" "backed B gs" "B a = Some s" "B b = Some t" "a \<noteq> b"
  shows "a + s \<le> b \<or> b + t \<le> a"
proof -
  obtain m n where mn: "(a, m) \<in> kblocks gs" "s \<le> m" "(b, n) \<in> kblocks gs" "t \<le> n"
    using assms(2-4) unfolding backed_def by blast
  then have "a + m \<le> b \<or> b + n \<le> a" using kblocks_apart [of k, OF _ mn(1,3)] assms(1,5) by (simp add: km_inv_def)
  then show ?thesis using mn(2,4) by auto
qed

lemma block_unique:
  assumes "km_inv k gs" "(a, m) \<in> kblocks gs" "(a, n) \<in> kblocks gs"
  shows "m = n"
proof (rule ccontr)
  assume "m \<noteq> n"
  then have "a + m \<le> a \<or> a + n \<le> a" using kblocks_apart [of k, OF _ assms(2,3)] assms(1) by (simp add: km_inv_def)
  moreover have "16 \<le> b" if "(a, b) \<in> kblocks gs" for b
    using that assms(1) hp_size_ok(2) by (auto simp: kblocks_def km_inv_def km_core_def pages_ok_def)
  ultimately show False using assms(2,3) by fastforce
qed

lemma no_blocks:
  assumes "km_inv k gs" "kblocks gs = {}"
  shows "gs = []"
proof (cases gs)
  case (Cons g hs)
  have g: "hp_ok g" "not_empty g" using assms(1) Cons by (simp_all add: km_inv_def km_core_def pages_ok_def)
  have "hp_slots g \<subseteq> set (hp_free g)" using assms(2) Cons by auto
  then have "card (hp_slots g) \<le> length (hp_free g)" by (meson List.finite_set card_length card_mono le_trans)
  then show ?thesis using g hp_slots_card [OF g(1)] by (simp add: not_empty_def)
qed

section \<open>Properties\<close>

definition km_example :: kmst where
  "km_example = km_boot \<lparr>cm = \<lparr>coremap = [free_entry, free_entry, free_entry], cm_entries = 2, cm_lastentry = 0, freespace = 40960\<rparr>,
     coremap_slock = \<lparr>lk_lock = 0, lk_holder = None\<rparr>, cur_spl = \<lparr>t_iplhigh_count = 0, t_curspl = 0, irq = True\<rparr>\<rparr> (\<lambda>_. 0)"

lemma km_example_ok: "pinv (phys km_example)" "km_inv km_example []" "\<not> no_pages (phys km_example)"
proof -
  let ?m = "cm (phys km_example)"
  have "cm_rep ?m [Hole, Hole]" by (simp add: km_example_def km_boot_def cm_rep_def cm_ok_def dvd_def)
  moreover have "next_cnt ?m (cm_entries ?m) = Some 0" by (simp add: km_example_def km_boot_def next_cnt_def rd_def)
  ultimately have "singles_inv ?m" unfolding singles_inv_def by (auto simp: singles_def intro!: exI [of _ "[Hole, Hole]"])
  moreover have "pm_ok (phys km_example)" by (simp add: km_example_def km_boot_def pm_ok_def lock_free_def spl_ok_def)
  ultimately show p: "pinv (phys km_example)" by (simp add: pinv_def)
  show "km_inv km_example []" using km_boot_inv p unfolding km_example_def by (simp add: km_boot_def)
  show "\<not> no_pages (phys km_example)"
    by (auto simp: km_example_def km_boot_def no_pages_def used_pages_def nth_Cons set_eq_iff split: nat.splits intro: exI [of _ 0])
qed







end
