(* ===== verification/C_String.thy ===== *)
theory C_String
  imports Kern_Prelude
begin

text \<open>
  \<^verbatim>\<open>common/libc/string\<close>, which the kernel and the C library share.  Memory is a function from addresses to characters; a
  string is what lies between an address and the next null character.  \<^verbatim>\<open>sizeof(long)\<close> is 4.  A loop that runs past
  every terminator is the value \<open>None\<close>.
\<close>

section \<open>Definitions\<close>

type_synonym cmem = "nat \<Rightarrow> char"

abbreviation (input) NUL :: char where "NUL \<equiv> CHR 0x00"

text \<open>An access to a \<^verbatim>\<open>long\<close> reads or writes four characters at once.\<close>

definition rd_long :: "cmem \<Rightarrow> nat \<Rightarrow> char list" where
  "rd_long m a = [m a, m (a + 1), m (a + 2), m (a + 3)]"

definition wr_long :: "cmem \<Rightarrow> nat \<Rightarrow> char list \<Rightarrow> cmem" where
  "wr_long m a w = m(a := w ! 0, a + 1 := w ! 1, a + 2 := w ! 2, a + 3 := w ! 3)"

definition aligned :: "nat \<Rightarrow> bool" where
  "aligned a \<longleftrightarrow> a mod 4 = 0"

fun bzero_longs :: "nat \<Rightarrow> nat \<Rightarrow> nat \<Rightarrow> cmem \<Rightarrow> cmem" where
  "bzero_longs 0 i lb m = m"
| "bzero_longs (Suc left) i lb m = bzero_longs left (i + 1) lb (wr_long m (lb + 4 * i) [NUL, NUL, NUL, NUL])"

fun bzero_bytes :: "nat \<Rightarrow> nat \<Rightarrow> nat \<Rightarrow> cmem \<Rightarrow> cmem" where
  "bzero_bytes 0 i block m = m"
| "bzero_bytes (Suc left) i block m = bzero_bytes left (i + 1) block (m(block + i := NUL))"

definition bzero :: "nat \<Rightarrow> nat \<Rightarrow> cmem \<Rightarrow> cmem" where
  "bzero block len m =
     (if aligned block \<and> aligned len then bzero_longs (len div 4) 0 block m
      else bzero_bytes len 0 block m)"

fun memcpy_longs :: "nat \<Rightarrow> nat \<Rightarrow> nat \<Rightarrow> nat \<Rightarrow> cmem \<Rightarrow> cmem" where
  "memcpy_longs 0 i d s m = m"
| "memcpy_longs (Suc left) i d s m = memcpy_longs left (i + 1) d s (wr_long m (d + 4 * i) (rd_long m (s + 4 * i)))"

fun memcpy_bytes :: "nat \<Rightarrow> nat \<Rightarrow> nat \<Rightarrow> nat \<Rightarrow> cmem \<Rightarrow> cmem" where
  "memcpy_bytes 0 i d s m = m"
| "memcpy_bytes (Suc left) i d s m = memcpy_bytes left (i + 1) d s (m(d + i := m (s + i)))"

definition memcpy :: "nat \<Rightarrow> nat \<Rightarrow> nat \<Rightarrow> cmem \<Rightarrow> nat \<times> cmem" where
  "memcpy dst src len m =
     (if aligned dst \<and> aligned src \<and> aligned len then (dst, memcpy_longs (len div 4) 0 dst src m)
      else (dst, memcpy_bytes len 0 dst src m))"

fun memmove_longs :: "nat \<Rightarrow> nat \<Rightarrow> nat \<Rightarrow> cmem \<Rightarrow> cmem" where
  "memmove_longs 0 d s m = m"
| "memmove_longs (Suc i) d s m = memmove_longs i d s (wr_long m (d + 4 * i) (rd_long m (s + 4 * i)))"

fun memmove_bytes :: "nat \<Rightarrow> nat \<Rightarrow> nat \<Rightarrow> cmem \<Rightarrow> cmem" where
  "memmove_bytes 0 d s m = m"
| "memmove_bytes (Suc i) d s m = memmove_bytes i d s (m(d + i := m (s + i)))"

definition memmove :: "nat \<Rightarrow> nat \<Rightarrow> nat \<Rightarrow> cmem \<Rightarrow> nat \<times> cmem" where
  "memmove dst src len m =
     (if dst < src then memcpy dst src len m
      else if aligned dst \<and> aligned src \<and> aligned len then (dst, memmove_longs (len div 4) dst src m)
      else (dst, memmove_bytes len dst src m))"

partial_function (option) strlen_from :: "nat \<Rightarrow> nat \<Rightarrow> cmem \<Rightarrow> nat option" where
  "strlen_from ret str m = (if m (str + ret) \<noteq> NUL then strlen_from (ret + 1) str m else Some ret)"

definition strlen :: "nat \<Rightarrow> cmem \<Rightarrow> nat option" where
  "strlen str m = strlen_from 0 str m"

partial_function (option) strcpy_from :: "nat \<Rightarrow> nat \<Rightarrow> nat \<Rightarrow> cmem \<Rightarrow> cmem option" where
  "strcpy_from i dest src m =
     (if m (src + i) \<noteq> NUL then strcpy_from (i + 1) dest src (m(dest + i := m (src + i)))
      else Some (m(dest + i := NUL)))"

definition strcpy :: "nat \<Rightarrow> nat \<Rightarrow> cmem \<Rightarrow> (nat \<times> cmem) option" where
  "strcpy dest src m = do { m \<leftarrow> strcpy_from 0 dest src m; Some (dest, m) }"

definition strcat :: "nat \<Rightarrow> nat \<Rightarrow> cmem \<Rightarrow> (nat \<times> cmem) option" where
  "strcat dest src m = do {
     offset \<leftarrow> strlen dest m;
     (_, m) \<leftarrow> strcpy (dest + offset) src m;
     Some (dest, m)
   }"

text \<open>The result is a pointer, or null.\<close>

partial_function (option) strchr :: "nat \<Rightarrow> char \<Rightarrow> cmem \<Rightarrow> nat option option" where
  "strchr s ch m =
     (if m s \<noteq> NUL then if m s = ch then Some (Some s) else strchr (s + 1) ch m
      else if m s = ch then Some (Some s)
      else Some None)"

fun strrchr_down :: "nat \<Rightarrow> nat \<Rightarrow> char \<Rightarrow> cmem \<Rightarrow> nat option" where
  "strrchr_down 0 s ch m = None"
| "strrchr_down (Suc i) s ch m = (if m (s + i) = ch then Some (s + i) else strrchr_down i s ch m)"

definition strrchr :: "nat \<Rightarrow> char \<Rightarrow> cmem \<Rightarrow> nat option option" where
  "strrchr s ch m = do {
     l \<leftarrow> strlen s m;
     Some (strrchr_down (l + 1) s ch m)
   }"

partial_function (option) strcmp_from :: "nat \<Rightarrow> nat \<Rightarrow> nat \<Rightarrow> cmem \<Rightarrow> nat option" where
  "strcmp_from i a b m = (if m (a + i) \<noteq> NUL \<and> m (a + i) = m (b + i) then strcmp_from (i + 1) a b m else Some i)"

definition strcmp :: "nat \<Rightarrow> nat \<Rightarrow> cmem \<Rightarrow> int option" where
  "strcmp a b m = do {
     i \<leftarrow> strcmp_from 0 a b m;
     Some (if (of_char (m (b + i)) :: nat) < of_char (m (a + i)) then 1 else if m (a + i) = m (b + i) then 0 else - 1)
   }"

partial_function (option) skip_seps :: "nat \<Rightarrow> nat \<Rightarrow> cmem \<Rightarrow> nat option" where
  "skip_seps head seps m =
     (if m head \<noteq> NUL then do {
        r \<leftarrow> strchr seps (m head) m;
        if r \<noteq> None then skip_seps (head + 1) seps m else Some head
      }
      else Some head)"

partial_function (option) skip_word :: "nat \<Rightarrow> nat \<Rightarrow> cmem \<Rightarrow> nat option" where
  "skip_word tail seps m =
     (if m tail \<noteq> NUL then do {
        r \<leftarrow> strchr seps (m tail) m;
        if r = None then skip_word (tail + 1) seps m else Some tail
      }
      else Some tail)"

text \<open>The context and the result are pointers or null.\<close>

definition strtok_r :: "nat option \<Rightarrow> nat \<Rightarrow> nat option \<Rightarrow> cmem \<Rightarrow> (nat option \<times> nat option \<times> cmem) option" where
  "strtok_r str seps context m =
     (let context = (if str \<noteq> None then str else context) in
      case context of
        None \<Rightarrow> Some (None, None, m)
      | Some head \<Rightarrow> do {
          head \<leftarrow> skip_seps head seps m;
          if m head = NUL then Some (None, None, m)
          else do {
            tail \<leftarrow> skip_word head seps m;
            if m tail = NUL then Some (Some head, None, m)
            else Some (Some head, Some (tail + 1), m(tail := NUL))
          }
        })"

section \<open>Copying\<close>

text \<open>What a copy through a buffer of its own would give.\<close>

definition copied :: "nat \<Rightarrow> nat \<Rightarrow> nat \<Rightarrow> cmem \<Rightarrow> cmem" where
  "copied dst src len m = (\<lambda>x. if dst \<le> x \<and> x < dst + len then m (src + (x - dst)) else m x)"

definition zeroed :: "nat \<Rightarrow> nat \<Rightarrow> cmem \<Rightarrow> cmem" where
  "zeroed block len m = (\<lambda>x. if block \<le> x \<and> x < block + len then NUL else m x)"

lemma copied_0 [simp]: "copied dst src 0 m = m"
  by (auto simp: copied_def fun_eq_iff)

lemma zeroed_0 [simp]: "zeroed block 0 m = m"
  by (auto simp: zeroed_def fun_eq_iff)

lemma wr_rd_long: "wr_long m d (rd_long m s) = copied d s 4 m"
  by (auto simp: wr_long_def rd_long_def copied_def fun_eq_iff numeral_eq_Suc less_Suc_eq)

text \<open>Forwards, the next stretch may be copied when the source does not lie behind the stretch already written.\<close>

lemma copied_step_up:
  assumes "dst \<le> src \<or> src + n + k \<le> dst \<or> dst + n \<le> src"
  shows "copied (dst + n) (src + n) k (copied dst src n m) = copied dst src (n + k) m"
  using assms by (auto simp: copied_def fun_eq_iff)

lemma copied_step_down:
  assumes "src \<le> dst"
  shows "copied dst src n (copied (dst + n) (src + n) k m) = copied dst src (n + k) m"
  using assms by (auto simp: copied_def fun_eq_iff)

lemma memcpy_bytes_spec:
  assumes "d \<le> s \<or> s + (i + left) \<le> d"
  shows "memcpy_bytes left i d s (copied d s i m) = copied d s (i + left) m"
  using assms
proof (induction left arbitrary: i)
  case (Suc left)
  have "(copied d s i m)(d + i := copied d s i m (s + i)) = copied (d + i) (s + i) 1 (copied d s i m)"
    by (auto simp: copied_def fun_eq_iff)
  also have "\<dots> = copied d s (i + 1) m" by (rule copied_step_up) (use Suc.prems in auto)
  finally show ?case using Suc.IH [of "i + 1"] Suc.prems by simp
qed simp

lemma memcpy_longs_spec:
  assumes "d \<le> s \<or> s + 4 * (i + left) \<le> d"
  shows "memcpy_longs left i d s (copied d s (4 * i) m) = copied d s (4 * (i + left)) m"
  using assms
proof (induction left arbitrary: i)
  case (Suc left)
  have "wr_long (copied d s (4 * i) m) (d + 4 * i) (rd_long (copied d s (4 * i) m) (s + 4 * i)) = copied d s (4 * i + 4) m"
    unfolding wr_rd_long by (rule copied_step_up) (use Suc.prems in auto)
  then show ?case using Suc.IH [of "i + 1"] Suc.prems by (simp add: algebra_simps)
qed simp

lemma memcpy_spec:
  assumes "dst \<le> src \<or> src + len \<le> dst"
  shows "memcpy dst src len m = (dst, copied dst src len m)"
proof (cases "aligned dst \<and> aligned src \<and> aligned len")
  case True
  then have "4 * (len div 4) = len" by (auto simp: aligned_def)
  then show ?thesis using True assms memcpy_longs_spec [of dst src 0 "len div 4" m] by (simp add: memcpy_def)
next
  case False
  then show ?thesis using assms memcpy_bytes_spec [of dst src 0 len m] by (auto simp: memcpy_def)
qed

lemma memmove_bytes_spec: "s \<le> d \<Longrightarrow> memmove_bytes i d s m = copied d s i m"
proof (induction i arbitrary: m)
  case (Suc i)
  have "m(d + i := m (s + i)) = copied (d + i) (s + i) 1 m" by (auto simp: copied_def fun_eq_iff)
  then show ?case using Suc copied_step_down [OF Suc.prems, of i 1 m] by simp
qed simp

lemma memmove_longs_spec: "s \<le> d \<Longrightarrow> memmove_longs i d s m = copied d s (4 * i) m"
proof (induction i arbitrary: m)
  case (Suc i)
  then show ?case using copied_step_down [OF Suc.prems, of "4 * i" 4 m] by (simp add: wr_rd_long add.commute)
qed simp

lemma memmove_spec: "memmove dst src len m = (dst, copied dst src len m)"
proof (cases "dst < src")
  case True
  then show ?thesis using memcpy_spec [of dst src len m] by (simp add: memmove_def)
next
  case False
  then have "4 * (len div 4) = len" if "aligned len" using that by (auto simp: aligned_def)
  then show ?thesis using False by (auto simp: memmove_def memmove_bytes_spec memmove_longs_spec)
qed

lemma bzero_bytes_spec: "bzero_bytes left i b (zeroed b i m) = zeroed b (i + left) m"
proof (induction left arbitrary: i)
  case (Suc left)
  have "(zeroed b i m)(b + i := NUL) = zeroed b (i + 1) m" by (auto simp: zeroed_def fun_eq_iff)
  then show ?case using Suc [of "i + 1"] by simp
qed simp

lemma bzero_longs_spec: "bzero_longs left i b (zeroed b (4 * i) m) = zeroed b (4 * (i + left)) m"
proof (induction left arbitrary: i)
  case (Suc left)
  have "wr_long (zeroed b (4 * i) m) (b + 4 * i) [NUL, NUL, NUL, NUL] = zeroed b (4 * (i + 1)) m"
    by (auto simp: wr_long_def zeroed_def fun_eq_iff)
  then show ?case using Suc [of "i + 1"] by simp
qed simp

lemma bzero_spec: "bzero block len m = zeroed block len m"
proof -
  have "4 * (len div 4) = len" if "aligned len" using that by (auto simp: aligned_def)
  then show ?thesis
    using bzero_bytes_spec [of len 0 block m] bzero_longs_spec [of "len div 4" 0 block m] by (simp add: bzero_def)
qed

section \<open>Strings\<close>

fun cstr :: "cmem \<Rightarrow> nat \<Rightarrow> string \<Rightarrow> bool" where
  "cstr m p [] \<longleftrightarrow> m p = NUL"
| "cstr m p (c # s) \<longleftrightarrow> m p = c \<and> c \<noteq> NUL \<and> cstr m (p + 1) s"

lemma cstr_cong: "cstr m p s \<Longrightarrow> (\<And>x. p \<le> x \<Longrightarrow> x \<le> p + length s \<Longrightarrow> m' x = m x) \<Longrightarrow> cstr m' p s"
  by (induction s arbitrary: p) auto

lemma cstr_nth: "cstr m p s \<Longrightarrow> i < length s \<Longrightarrow> m (p + i) = s ! i \<and> s ! i \<noteq> NUL"
proof (induction s arbitrary: p i)
  case (Cons c s)
  show ?case
  proof (cases i)
    case (Suc j)
    then show ?thesis using Cons.IH [of "p + 1" j] Cons.prems by simp
  qed (use Cons.prems in simp)
qed simp

lemma cstr_end: "cstr m p s \<Longrightarrow> m (p + length s) = NUL"
proof (induction s arbitrary: p)
  case (Cons c s)
  then show ?case using Cons.IH [of "p + 1"] by simp
qed simp

lemma cstr_no_nul: "cstr m p s \<Longrightarrow> NUL \<notin> set s"
  by (induction s arbitrary: p) auto

lemma cstr_append: "cstr m p (s @ t) \<longleftrightarrow> (\<forall>i<length s. m (p + i) = s ! i \<and> s ! i \<noteq> NUL) \<and> cstr m (p + length s) t"
proof (induction s arbitrary: p)
  case (Cons c s)
  show ?case using Cons.IH [of "p + 1"] by (auto simp: less_Suc_eq_0_disj)
qed simp

lemma cstr_iff: "cstr m p s \<longleftrightarrow> (\<forall>i<length s. m (p + i) = s ! i \<and> s ! i \<noteq> NUL) \<and> m (p + length s) = NUL"
  using cstr_append [of m p s "[]"] by simp

lemma cstr_drop: "cstr m p s \<Longrightarrow> n \<le> length s \<Longrightarrow> cstr m (p + n) (drop n s)"
  using cstr_append [of m p "take n s" "drop n s"] by simp

text \<open>Two strings at one address are the same.\<close>

lemma cstr_unique: "cstr m p s \<Longrightarrow> cstr m p t \<Longrightarrow> s = t"
proof (induction s arbitrary: p t)
  case Nil
  then show ?case by (cases t) auto
next
  case (Cons c s)
  then show ?case by (cases t) auto
qed

lemma strlen_from_spec: "cstr m (p + n) s \<Longrightarrow> strlen_from n p m = Some (n + length s)"
proof (induction s arbitrary: n)
  case Nil
  then show ?case by (subst strlen_from.simps) simp
next
  case (Cons c s)
  then show ?case using Cons.IH [of "n + 1"] by (subst strlen_from.simps) simp
qed

lemma strlen_spec: "cstr m p s \<Longrightarrow> strlen p m = Some (length s)"
  using strlen_from_spec [of m p 0 s] by (simp add: strlen_def)

lemma strchr_spec:
  "cstr m p s \<Longrightarrow> strchr p c m =
   Some (if c \<in> set s \<or> c = NUL then Some (p + length (takeWhile (\<lambda>d. d \<noteq> c) s)) else None)"
proof (induction s arbitrary: p)
  case Nil
  then show ?case by (subst strchr.simps) simp
next
  case (Cons d s)
  then show ?case using Cons.IH [of "p + 1"] by (subst strchr.simps) auto
qed

lemma strrchr_down_spec:
  "strrchr_down n p c m = None \<longleftrightarrow> (\<forall>i<n. m (p + i) \<noteq> c)"
  "strrchr_down n p c m = Some q \<Longrightarrow> \<exists>i<n. q = p + i \<and> m q = c \<and> (\<forall>j. i < j \<and> j < n \<longrightarrow> m (p + j) \<noteq> c)"
  by (induction n) (auto simp: less_Suc_eq split: if_splits)

lemma strcpy_from_spec:
  "cstr m (src + i) s \<Longrightarrow> dest \<le> src \<or> src + i + length s < dest \<Longrightarrow>
   strcpy_from i dest src m = Some (copied (dest + i) (src + i) (length s + 1) m)"
proof (induction s arbitrary: i m)
  case Nil
  then show ?case by (subst strcpy_from.simps) (auto simp: copied_def fun_eq_iff)
next
  case (Cons c s)
  let ?m = "m(dest + i := c)"
  have c: "m (src + i) = c" "c \<noteq> NUL" "cstr m (src + (i + 1)) s" using Cons.prems(1) by simp_all
  have "cstr ?m (src + (i + 1)) s" by (rule cstr_cong [OF c(3)]) (use Cons.prems(2) in auto)
  then have "strcpy_from (i + 1) dest src ?m = Some (copied (dest + (i + 1)) (src + (i + 1)) (length s + 1) ?m)"
    by (rule Cons.IH) (use Cons.prems(2) in auto)
  moreover have "copied (dest + (i + 1)) (src + (i + 1)) (length s + 1) ?m = copied (dest + i) (src + i) (length (c # s) + 1) m"
  proof -
    have "?m = copied (dest + i) (src + i) 1 m" using c(1) by (auto simp: copied_def fun_eq_iff)
    then show ?thesis
      using copied_step_up [of "dest + i" "src + i" 1 "length s + 1" m] Cons.prems(2) by (auto simp: add.assoc)
  qed
  ultimately show ?case using c by (subst strcpy_from.simps) simp
qed

lemma strcpy_spec:
  assumes "cstr m src s" "dest \<le> src \<or> src + length s < dest"
  shows "strcpy dest src m = Some (dest, copied dest src (length s + 1) m)"
  using strcpy_from_spec [of m src 0 s dest] assms by (simp add: strcpy_def)

lemma cstr_copied: "cstr m src s \<Longrightarrow> cstr (copied dest src (length s + 1) m) dest s"
  by (simp add: cstr_iff copied_def)

lemma strcat_spec:
  assumes "cstr m dest d" "cstr m src s" "dest + length d \<le> src \<or> src + length s < dest + length d"
  shows "strcat dest src m = Some (dest, copied (dest + length d) src (length s + 1) m)"
  using strcpy_spec [OF assms(2,3)] by (simp add: strcat_def strlen_spec [OF assms(1)])

lemma cstr_concat:
  assumes "cstr m dest d" "cstr m src s"
  shows "cstr (copied (dest + length d) src (length s + 1) m) dest (d @ s)"
  using cstr_copied [OF assms(2), of "dest + length d"] cstr_nth [OF assms(1)] by (simp add: cstr_append copied_def)

section \<open>Comparison\<close>

definition before :: "(char \<times> char) set" where
  "before = {(x, y). (of_char x :: nat) < of_char y}"

lemma strcmp_from_spec:
  "cstr m (a + i) s \<Longrightarrow> cstr m (b + i) t \<Longrightarrow>
   \<exists>u. strcmp_from i a b m = Some (i + length u) \<and> take (length u) s = u \<and> take (length u) t = u \<and>
     length u \<le> length s \<and> length u \<le> length t \<and> (length u < length s \<longrightarrow> m (a + i + length u) \<noteq> m (b + i + length u))"
proof (induction s arbitrary: i t)
  case Nil
  then show ?case by (intro exI [of _ "[]"]) (subst strcmp_from.simps, simp)
next
  case (Cons c s)
  show ?case
  proof (cases "\<exists>t'. t = c # t'")
    case False
    have "m (b + i) \<noteq> c" using Cons.prems False by (cases t) auto
    then show ?thesis using Cons.prems by (intro exI [of _ "[]"]) (subst strcmp_from.simps, simp)
  next
    case True
    then obtain t' where t: "t = c # t'" by blast
    obtain u where u: "strcmp_from (i + 1) a b m = Some (i + 1 + length u)" "take (length u) s = u" "take (length u) t' = u"
      "length u \<le> length s" "length u \<le> length t'" "length u < length s \<longrightarrow> m (a + (i + 1) + length u) \<noteq> m (b + (i + 1) + length u)"
      using Cons.IH [of "i + 1" t'] Cons.prems t by auto
    have "strcmp_from i a b m = Some (i + length (c # u))"
      using Cons.prems t u(1) by (subst strcmp_from.simps) simp
    then show ?thesis using u t by (intro exI [of _ "c # u"]) (simp add: add.assoc)
  qed
qed

lemma before_asym: "(s, t) \<in> lexord before \<Longrightarrow> (t, s) \<notin> lexord before"
  by (rule lexord_asymmetric [rotated]) (auto simp: before_def intro!: asymI)

lemma before_irrefl: "(s, s) \<notin> lexord before"
  by (rule lexord_irreflexive) (simp add: before_def)

lemma nul_first:
  assumes "c \<noteq> NUL"
  shows "0 < (of_char c :: nat)"
proof (rule gr0I)
  assume "(of_char c :: nat) = 0"
  then have "(of_char c :: nat) = of_char NUL" by simp
  then show False using assms by (simp only: of_char_eq_iff)
qed

lemma strcmp_spec:
  assumes "cstr m a s" "cstr m b t"
  shows "strcmp a b m = Some (if s = t then 0 else if (t, s) \<in> lexord before then 1 else - 1)"
    and "s \<noteq> t \<Longrightarrow> (t, s) \<notin> lexord before \<Longrightarrow> (s, t) \<in> lexord before"
proof -
  obtain u where u: "strcmp_from 0 a b m = Some (length u)" "take (length u) s = u" "take (length u) t = u"
    "length u \<le> length s" "length u \<le> length t" "length u < length s \<longrightarrow> m (a + length u) \<noteq> m (b + length u)"
    using strcmp_from_spec [of m a 0 s b t] assms by auto
  obtain s' t' where st: "s = u @ s'" "t = u @ t'" using u(2,3) by (metis append_take_drop_id)
  have ma: "m (a + length u) = (case s' of [] \<Rightarrow> NUL | c # _ \<Rightarrow> c)" "\<forall>c\<in>set s'. c \<noteq> NUL"
    using assms(1) st cstr_drop [OF assms(1), of "length u"] cstr_no_nul [OF assms(1)] by (auto split: list.split)
  have mb: "m (b + length u) = (case t' of [] \<Rightarrow> NUL | c # _ \<Rightarrow> c)" "\<forall>c\<in>set t'. c \<noteq> NUL"
    using assms(2) st cstr_drop [OF assms(2), of "length u"] cstr_no_nul [OF assms(2)] by (auto split: list.split)
  let ?x = "of_char (m (a + length u)) :: nat" and ?y = "of_char (m (b + length u)) :: nat"
  have "s = t \<and> ?x = ?y \<or> (s, t) \<in> lexord before \<and> ?x < ?y \<or> (t, s) \<in> lexord before \<and> ?y < ?x"
  proof (cases s')
    case Nil
    show ?thesis
    proof (cases t')
      case Nil
      then show ?thesis using ma(1) mb(1) st \<open>s' = []\<close> by simp
    next
      case (Cons d t'')
      have "(s, t) \<in> lexord before" unfolding st by (rule lexord_append_leftI) (simp add: Cons \<open>s' = []\<close>)
      then show ?thesis using ma(1) mb Cons \<open>s' = []\<close> nul_first [of d] by simp
    qed
  next
    case c: (Cons c s'')
    show ?thesis
    proof (cases t')
      case Nil
      have "(t, s) \<in> lexord before" unfolding st by (rule lexord_append_leftI) (simp add: c Nil)
      then show ?thesis using ma mb(1) Nil c nul_first [of c] by simp
    next
      case (Cons d t'')
      have ne: "(of_char c :: nat) \<noteq> of_char d" using u(6) st ma(1) mb(1) c Cons by simp
      have "(u @ c # s'', u @ d # t'') \<in> lexord before" if "(of_char c :: nat) < of_char d"
        by (rule lexord_append_leftI) (use that in \<open>simp add: before_def\<close>)
      moreover have "(u @ d # t'', u @ c # s'') \<in> lexord before" if "(of_char d :: nat) < of_char c"
        by (rule lexord_append_leftI) (use that in \<open>simp add: before_def\<close>)
      moreover have "?x = of_char c" "?y = of_char d" using ma(1) mb(1) c Cons by simp_all
      ultimately show ?thesis using ne unfolding st c Cons by (metis linorder_neqE_nat)
    qed
  qed
  then have o: "(if s = t then ?x = ?y else if (t, s) \<in> lexord before then ?y < ?x else (s, t) \<in> lexord before \<and> ?x < ?y)"
    using before_asym [of s t] before_irrefl [of s] by auto
  show "s \<noteq> t \<Longrightarrow> (t, s) \<notin> lexord before \<Longrightarrow> (s, t) \<in> lexord before" using o by simp
  have "m (a + length u) = m (b + length u) \<longleftrightarrow> ?x = ?y" by simp
  then show "strcmp a b m = Some (if s = t then 0 else if (t, s) \<in> lexord before then 1 else - 1)"
    using o by (auto simp: strcmp_def u(1) split: if_splits)
qed

lemma strcmp_eq: "cstr m a s \<Longrightarrow> cstr m b t \<Longrightarrow> \<exists>r. strcmp a b m = Some r \<and> (r = 0 \<longleftrightarrow> s = t)"
  by (simp add: strcmp_spec(1))

section \<open>Tokens\<close>

text \<open>The words of a string between separators.\<close>

definition word_of :: "string \<Rightarrow> string \<Rightarrow> string" where
  "word_of seps s = takeWhile (\<lambda>c. c \<notin> set seps) (dropWhile (\<lambda>c. c \<in> set seps) s)"

definition after_word :: "string \<Rightarrow> string \<Rightarrow> string" where
  "after_word seps s = dropWhile (\<lambda>c. c \<notin> set seps) (dropWhile (\<lambda>c. c \<in> set seps) s)"

function words_of :: "string \<Rightarrow> string \<Rightarrow> string list" where
  "words_of seps s = (if word_of seps s = [] then [] else word_of seps s # words_of seps (tl (after_word seps s)))"
  by auto
termination
proof (relation "measure (\<lambda>(seps, s). length s)")
  fix seps s
  assume "word_of seps s \<noteq> []"
  then have "0 < length (word_of seps s)" by simp
  moreover have "dropWhile (\<lambda>c. c \<in> set seps) s = word_of seps s @ after_word seps s" by (simp add: word_of_def after_word_def)
  then have "length (word_of seps s) + length (after_word seps s) \<le> length s"
    by (metis length_append length_dropWhile_le)
  ultimately have "length (after_word seps s) < length s" by linarith
  then show "((seps, tl (after_word seps s)), (seps, s)) \<in> measure (\<lambda>(seps, s). length s)" by simp
qed simp

declare words_of.simps [simp del]

lemma strchr_found: "cstr m q seps \<Longrightarrow> c \<noteq> NUL \<Longrightarrow> \<exists>r. strchr q c m = Some r \<and> (r \<noteq> None \<longleftrightarrow> c \<in> set seps)"
  by (simp add: strchr_spec)

lemma skip_seps_spec:
  "cstr m q seps \<Longrightarrow> cstr m h s \<Longrightarrow> skip_seps h q m = Some (h + length (takeWhile (\<lambda>c. c \<in> set seps) s))"
proof (induction s arbitrary: h)
  case Nil
  then show ?case by (subst skip_seps.simps) simp
next
  case (Cons c s)
  have c: "m h = c" "c \<noteq> NUL" "cstr m (h + 1) s" using Cons.prems(2) by simp_all
  obtain r where r: "strchr q c m = Some r" "r \<noteq> None \<longleftrightarrow> c \<in> set seps" using strchr_found [OF Cons.prems(1) c(2)] by blast
  show ?case using Cons.IH [OF Cons.prems(1) c(3)] c r by (subst skip_seps.simps) simp
qed

lemma skip_word_spec:
  "cstr m q seps \<Longrightarrow> cstr m h s \<Longrightarrow> skip_word h q m = Some (h + length (takeWhile (\<lambda>c. c \<notin> set seps) s))"
proof (induction s arbitrary: h)
  case Nil
  then show ?case by (subst skip_word.simps) simp
next
  case (Cons c s)
  have c: "m h = c" "c \<noteq> NUL" "cstr m (h + 1) s" using Cons.prems(2) by simp_all
  obtain r where r: "strchr q c m = Some r" "r \<noteq> None \<longleftrightarrow> c \<in> set seps" using strchr_found [OF Cons.prems(1) c(2)] by blast
  show ?case using Cons.IH [OF Cons.prems(1) c(3)] c r by (subst skip_word.simps) simp
qed

text \<open>One call: no word is left, or the next word is cut out of the string in place.\<close>

lemma strtok_r_step:
  assumes seps: "cstr m q seps" and s: "cstr m p s" and c: "(if str \<noteq> None then str else ctx) = Some p"
  shows "word_of seps s = [] \<Longrightarrow> strtok_r str q ctx m = Some (None, None, m)"
    and "word_of seps s \<noteq> [] \<Longrightarrow> \<exists>h ctx' m'. strtok_r str q ctx m = Some (Some h, ctx', m') \<and> cstr m' h (word_of seps s) \<and>
      p \<le> h \<and> h + length (word_of seps s) \<le> p + length s \<and>
      (if after_word seps s = [] then ctx' = None
       else ctx' = Some (h + length (word_of seps s) + 1) \<and>
         h + length (word_of seps s) + length (after_word seps s) = p + length s \<and>
         cstr m' (h + length (word_of seps s) + 1) (tl (after_word seps s))) \<and>
      (\<forall>x. x \<noteq> h + length (word_of seps s) \<longrightarrow> m' x = m x)"
proof -
  let ?S = "\<lambda>c. c \<in> set seps"
  let ?h = "p + length (takeWhile ?S s)" and ?w = "word_of seps s" and ?a = "after_word seps s"
  have split: "s = takeWhile ?S s @ ?w @ ?a" by (simp add: word_of_def after_word_def)
  have h: "cstr m ?h (?w @ ?a)" using s split cstr_append [of m p "takeWhile ?S s" "?w @ ?a"] by metis
  have sk: "skip_seps p q m = Some ?h" by (rule skip_seps_spec [OF seps s])
  have start: "strtok_r str q ctx m = (if m ?h = NUL then Some (None, None, m) else do {
      tail \<leftarrow> skip_word ?h q m;
      if m tail = NUL then Some (Some ?h, None, m) else Some (Some ?h, Some (tail + 1), m(tail := NUL)) })"
    by (simp only: strtok_r_def Let_def c option.case sk Option.bind.simps)
  have dw: "dropWhile ?S s = ?w @ ?a" by (simp add: word_of_def after_word_def)
  have empty: "?w = [] \<longleftrightarrow> dropWhile ?S s = []"
  proof
    assume "?w = []"
    then have "dropWhile ?S s = [] \<or> hd (dropWhile ?S s) \<in> set seps" unfolding word_of_def by (cases "dropWhile ?S s") (auto split: if_splits)
    then show "dropWhile ?S s = []" using hd_dropWhile [of ?S s] by blast
  next
    assume "dropWhile ?S s = []"
    then show "?w = []" unfolding word_of_def by (simp only: takeWhile.simps)
  qed
  show "strtok_r str q ctx m = Some (None, None, m)" if "?w = []"
  proof -
    have "?w @ ?a = []" using iffD1 [OF empty that] unfolding dw .
    then have "m ?h = NUL" using h by (simp only: cstr.simps)
    then show ?thesis unfolding start by (rule if_P)
  qed
  assume w: "?w \<noteq> []"
  have nz: "m ?h \<noteq> NUL" using h w by (cases ?w) auto
  have tw: "takeWhile (\<lambda>c. \<not> ?S c) (?w @ ?a) = ?w" unfolding dw [symmetric] by (simp add: word_of_def)
  let ?t = "?h + length ?w"
  have tail: "skip_word ?h q m = Some ?t" using skip_word_spec [OF seps h] tw by simp
  have len: "length s = length (takeWhile ?S s) + length ?w + length ?a" using arg_cong [OF split, of length] by simp
  have at: "cstr m ?t ?a" "\<forall>i<length ?w. m (?h + i) = ?w ! i \<and> ?w ! i \<noteq> NUL" using h cstr_append by blast+
  show "\<exists>h ctx' m'. strtok_r str q ctx m = Some (Some h, ctx', m') \<and> cstr m' h ?w \<and> p \<le> h \<and> h + length ?w \<le> p + length s \<and>
      (if ?a = [] then ctx' = None
       else ctx' = Some (h + length ?w + 1) \<and> h + length ?w + length ?a = p + length s \<and> cstr m' (h + length ?w + 1) (tl ?a)) \<and>
      (\<forall>x. x \<noteq> h + length ?w \<longrightarrow> m' x = m x)"
  proof (cases ?a)
    case Nil
    then have "strtok_r str q ctx m = Some (Some ?h, None, m)" using at(1) nz by (simp add: start tail)
    moreover have "cstr m ?h ?w" using h Nil by simp
    ultimately show ?thesis using len Nil by auto
  next
    case (Cons d a)
    have d: "m ?t = d" "d \<noteq> NUL" "cstr m (?t + 1) a" using at(1) Cons by simp_all
    let ?m = "m(?t := NUL)"
    have "strtok_r str q ctx m = Some (Some ?h, Some (?t + 1), ?m)" using nz d by (simp add: start tail)
    moreover have "cstr ?m ?h ?w" using at(2) by (simp add: cstr_iff)
    moreover have "cstr ?m (?t + 1) a" by (rule cstr_cong [OF d(3)]) simp
    ultimately show ?thesis using len Cons by (intro exI [of _ ?h] exI [of _ "Some (?t + 1)"] exI [of _ ?m]) simp
  qed
qed

section \<open>Properties\<close>

text \<open>C37: \<^verbatim>\<open>memmove\<close> copies as if through a buffer of its own, whatever the overlap and the alignment, and \<^verbatim>\<open>bzero\<close> clears
  exactly its block; neither touches another byte.\<close>

theorem memmove_copies:
  "memmove dst src len m = (dst, (\<lambda>x. if dst \<le> x \<and> x < dst + len then m (src + (x - dst)) else m x)) \<and>
   bzero block len m = (\<lambda>x. if block \<le> x \<and> x < block + len then NUL else m x)"
  by (simp add: memmove_spec bzero_spec copied_def zeroed_def)

text \<open>C38: \<^verbatim>\<open>strcmp\<close> returns on any two strings and compares them in the lexicographic order of unsigned characters.\<close>

theorem strcmp_order:
  assumes "cstr m a s" "cstr m b t"
  shows "strcmp a b m = Some (if s = t then 0 else if (t, s) \<in> lexord before then 1 else - 1) \<and>
    (s = t \<or> (s, t) \<in> lexord before \<or> (t, s) \<in> lexord before)"
  using strcmp_spec [OF assms] by blast

theorem strcmp_order_witness:
  "strcmp 0 4 (\<lambda>x. if x = 0 then CHR ''a'' else if x = 4 then CHR 0xe9 else NUL) = Some (- 1)"
proof -
  let ?m = "\<lambda>x :: nat. if x = 0 then CHR ''a'' else if x = 4 then CHR 0xe9 else NUL"
  have "cstr ?m 0 ''a''" "cstr ?m 4 [CHR 0xe9]" by simp_all
  from strcmp_order [OF this] show ?thesis by (simp add: before_def)
qed

end
