(* ===== verification/Menu.thy ===== *)
theory Menu
  imports C_String
begin

text \<open>
  The command interpreter of \<^verbatim>\<open>kern/startup/menu.c\<close>: a line is cut at semicolons into commands and a command at spaces
  and tabs into words, both in place by \<^verbatim>\<open>strtok_r\<close>; the first word is looked up in the table of commands.  The table is
  an argument, as the addresses of the names with the functions; \<open>run\<close> is the call of a function of the table, with the
  addresses of the words.  The messages and the time a command takes are only printed.
\<close>

section \<open>Definitions\<close>

abbreviation (input) MAXMENUARGS :: nat where "MAXMENUARGS \<equiv> 16"

text \<open>The loop that fills \<^verbatim>\<open>args\<close>; \<open>None\<close> as the list is the return with \<^verbatim>\<open>E2BIG\<close>.\<close>

partial_function (option) collect_args ::
  "nat \<Rightarrow> nat option \<Rightarrow> nat option \<Rightarrow> nat list \<Rightarrow> cmem \<Rightarrow> (nat list option \<times> cmem) option" where
  "collect_args seps word context args m =
     (case word of
        None \<Rightarrow> Some (Some args, m)
      | Some w \<Rightarrow>
          if MAXMENUARGS \<le> length args then Some (None, m)
          else do {
            (word, context, m) \<leftarrow> strtok_r None seps context m;
            collect_args seps word context (args @ [w]) m
          })"

fun find_command :: "nat \<Rightarrow> (nat \<times> 'f) list \<Rightarrow> cmem \<Rightarrow> 'f option option" where
  "find_command arg0 [] m = Some None"
| "find_command arg0 ((name, f) # tab) m =
     (if m name \<noteq> NUL then do {
        r \<leftarrow> strcmp arg0 name m;
        if r = 0 then Some (Some f) else find_command arg0 tab m
      }
      else find_command arg0 tab m)"

definition cmd_dispatch ::
  "('f \<Rightarrow> nat list \<Rightarrow> cmem \<Rightarrow> 'w \<Rightarrow> (int \<times> cmem \<times> 'w) option) \<Rightarrow> (nat \<times> 'f) list \<Rightarrow> nat \<Rightarrow> nat \<Rightarrow> cmem \<Rightarrow> 'w \<Rightarrow>
   (int \<times> cmem \<times> 'w) option" where
  "cmd_dispatch run tab blanks cmd m w = do {
     (word, context, m) \<leftarrow> strtok_r (Some cmd) blanks None m;
     (args, m) \<leftarrow> collect_args blanks word context [] m;
     case args of
       None \<Rightarrow> Some (E2BIG, m, w)
     | Some [] \<Rightarrow> Some (0, m, w)
     | Some (arg0 # rest) \<Rightarrow> do {
         f \<leftarrow> find_command arg0 tab m;
         case f of
           None \<Rightarrow> Some (EINVAL, m, w)
         | Some f \<Rightarrow> run f (arg0 # rest) m w
       }
   }"

text \<open>A command that fails panics when the line came from the boot loader.\<close>

partial_function (option) execute_loop ::
  "('f \<Rightarrow> nat list \<Rightarrow> cmem \<Rightarrow> 'w \<Rightarrow> (int \<times> cmem \<times> 'w) option) \<Rightarrow> (nat \<times> 'f) list \<Rightarrow> nat \<Rightarrow> nat \<Rightarrow> bool \<Rightarrow>
   nat option \<Rightarrow> nat option \<Rightarrow> cmem \<Rightarrow> 'w \<Rightarrow> (cmem \<times> 'w) option" where
  "execute_loop run tab blanks semi isargs command context m w =
     (case command of
        None \<Rightarrow> Some (m, w)
      | Some c \<Rightarrow> do {
          (result, m, w) \<leftarrow> cmd_dispatch run tab blanks c m w;
          if result \<noteq> 0 \<and> isargs then None
          else do {
            (command, context, m) \<leftarrow> strtok_r None semi context m;
            execute_loop run tab blanks semi isargs command context m w
          }
        })"

definition menu_execute ::
  "('f \<Rightarrow> nat list \<Rightarrow> cmem \<Rightarrow> 'w \<Rightarrow> (int \<times> cmem \<times> 'w) option) \<Rightarrow> (nat \<times> 'f) list \<Rightarrow> nat \<Rightarrow> nat \<Rightarrow> nat \<Rightarrow> bool \<Rightarrow> cmem \<Rightarrow> 'w \<Rightarrow>
   (cmem \<times> 'w) option" where
  "menu_execute run tab blanks semi line isargs m w = do {
     (command, context, m) \<leftarrow> strtok_r (Some line) semi None m;
     execute_loop run tab blanks semi isargs command context m w
   }"

section \<open>The words of a command\<close>

text \<open>Two memories that differ in the bytes \<open>p\<close> to \<open>e\<close> at most.\<close>

definition same_but :: "nat \<Rightarrow> nat \<Rightarrow> cmem \<Rightarrow> cmem \<Rightarrow> bool" where
  "same_but p e m m' \<longleftrightarrow> (\<forall>x. x < p \<or> e < x \<longrightarrow> m' x = m x)"

lemma same_but_refl [simp]: "same_but p e m m"
  by (simp add: same_but_def)

lemma same_but_trans: "same_but p e m m' \<Longrightarrow> same_but q f m' m'' \<Longrightarrow> p \<le> q \<Longrightarrow> f \<le> e \<Longrightarrow> same_but p e m m''"
  by (auto simp: same_but_def)

lemma same_but_mono: "same_but q f m m' \<Longrightarrow> p \<le> q \<Longrightarrow> f \<le> e \<Longrightarrow> same_but p e m m'"
  by (auto simp: same_but_def)

lemma cstr_outside: "cstr m q t \<Longrightarrow> same_but p e m m' \<Longrightarrow> q + length t < p \<or> e < q \<Longrightarrow> cstr m' q t"
  by (erule cstr_cong) (auto simp: same_but_def)

definition away :: "nat \<Rightarrow> nat \<Rightarrow> cmem \<Rightarrow> nat \<Rightarrow> string \<Rightarrow> bool" where
  "away p e m q t \<longleftrightarrow> cstr m q t \<and> (q + length t < p \<or> e < q)"

lemma away_step: "away p e m q t \<Longrightarrow> same_but p e m m' \<Longrightarrow> away p e m' q t"
  by (auto simp: away_def dest: cstr_outside)

lemma away_mono: "away p e m q t \<Longrightarrow> p \<le> p' \<Longrightarrow> e' \<le> e \<Longrightarrow> away p' e' m q t"
  by (auto simp: away_def)

text \<open>What a position in a string that is being cut stands for: the words still to come.\<close>

definition pending :: "string \<Rightarrow> cmem \<Rightarrow> nat \<Rightarrow> nat \<Rightarrow> nat option \<Rightarrow> string list \<Rightarrow> bool" where
  "pending seps m p e ctx ws \<longleftrightarrow>
     (case ctx of None \<Rightarrow> ws = [] | Some q \<Rightarrow> \<exists>s. cstr m q s \<and> p \<le> q \<and> q + length s \<le> e \<and> ws = words_of seps s)"

text \<open>One call of \<^verbatim>\<open>strtok_r\<close> on a pending string.\<close>

lemma strtok_next:
  assumes sep: "away p e m q seps" and c: "pending seps m p e (if str \<noteq> None then str else ctx) ws"
  obtains (none) "ws = []" "strtok_r str q ctx m = Some (None, None, m)"
  | (word) w ws' h ctx' m' where "ws = w # ws'" "strtok_r str q ctx m = Some (Some h, ctx', m')" "cstr m' h w"
      "p \<le> h" "h + length w \<le> e" "same_but (h + length w) (h + length w) m m'"
      "pending seps m' (h + length w + 1) e ctx' ws'"
proof (cases "if str \<noteq> None then str else ctx")
  case None
  then show ?thesis using c none by (simp add: strtok_r_def pending_def Let_def)
next
  case (Some a)
  obtain s where s: "cstr m a s" "p \<le> a" "a + length s \<le> e" "ws = words_of seps s"
    using c unfolding Some pending_def by auto
  have sepc: "cstr m q seps" using sep by (simp add: away_def)
  note step = strtok_r_step [OF sepc s(1) Some]
  show ?thesis
  proof (cases "word_of seps s = []")
    case True
    then show ?thesis using none step(1) s(4) by (simp add: words_of.simps)
  next
    case False
    let ?w = "word_of seps s"
    obtain h ctx' m' where h: "strtok_r str q ctx m = Some (Some h, ctx', m')" "cstr m' h ?w" "a \<le> h"
      "h + length ?w \<le> a + length s"
      "if after_word seps s = [] then ctx' = None
       else ctx' = Some (h + length ?w + 1) \<and> h + length ?w + length (after_word seps s) = a + length s \<and>
         cstr m' (h + length ?w + 1) (tl (after_word seps s))"
      "\<forall>x. x \<noteq> h + length ?w \<longrightarrow> m' x = m x"
      using step(2) [OF False] by blast
    have "pending seps m' (h + length ?w + 1) e ctx' (words_of seps (tl (after_word seps s)))"
    proof (cases "after_word seps s = []")
      case True
      then have "words_of seps (tl (after_word seps s)) = []" by (simp add: words_of.simps [of seps "[]"] word_of_def)
      then show ?thesis using h(5) True by (simp add: pending_def)
    next
      case F: False
      then have "length (tl (after_word seps s)) + 1 = length (after_word seps s)" by (cases "after_word seps s") simp_all
      moreover have "h + length ?w + length (after_word seps s) = a + length s" using h(5) F by simp
      ultimately have "h + length ?w + 1 + length (tl (after_word seps s)) \<le> e" using s(3) by linarith
      then show ?thesis using h(5) F unfolding pending_def by auto
    qed
    moreover have "same_but (h + length ?w) (h + length ?w) m m'" using h(6) by (auto simp: same_but_def)
    moreover have "ws = ?w # words_of seps (tl (after_word seps s))" using s(4) False by (simp add: words_of.simps [of seps s])
    ultimately show ?thesis using word [OF _ h(1,2)] h(3,4) s(2,3) by simp
  qed
qed

text \<open>The collected addresses hold the words, and the words already collected are not touched.\<close>

definition held :: "nat \<Rightarrow> cmem \<Rightarrow> nat list \<Rightarrow> string list \<Rightarrow> bool" where
  "held lim m args ws \<longleftrightarrow> list_all2 (\<lambda>a w. cstr m a w \<and> a + length w < lim) args ws"

lemma held_step: "held lim m args ws \<Longrightarrow> same_but p e m m' \<Longrightarrow> lim \<le> p \<Longrightarrow> held lim m' args ws"
  unfolding held_def by (erule list_all2_mono) (auto intro: cstr_outside)

lemma held_mono: "held lim m args ws \<Longrightarrow> lim \<le> lim' \<Longrightarrow> held lim' m args ws"
  unfolding held_def by (erule list_all2_mono) auto

text \<open>The loop collects the words still to come, unless there are too many.\<close>

lemma collect_args_spec:
  assumes "away p e m q seps" "pending seps m lim e ctx (tl ws)" "p \<le> lim" "held lim m args us" "length args \<le> MAXMENUARGS"
    "case wo of None \<Rightarrow> ws = [] | Some a \<Rightarrow> ws \<noteq> [] \<and> cstr m a (hd ws) \<and> a + length (hd ws) < lim"
  shows "\<exists>m'. same_but p e m m' \<and>
    (if MAXMENUARGS < length (us @ ws) then collect_args q wo ctx args m = Some (None, m')
     else \<exists>args'. collect_args q wo ctx args m = Some (Some args', m') \<and> list_all2 (cstr m') args' (us @ ws))"
  using assms
proof (induction ws arbitrary: m lim ctx args us wo)
  case Nil
  then have wo: "wo = None" and len: "length us = length args" by (auto split: option.splits simp: held_def dest: list_all2_lengthD)
  have "list_all2 (cstr m) args us" using Nil.prems(4) unfolding held_def by (rule list_all2_mono) auto
  then show ?case using Nil.prems(5) wo len by (subst collect_args.simps, intro exI [of _ m]) (subst collect_args.simps, simp)
next
  case (Cons w ws)
  obtain a where a: "wo = Some a" "cstr m a w" "a + length w < lim" using Cons.prems(6) by (auto split: option.splits)
  have len: "length us = length args" using Cons.prems(4) by (auto simp: held_def dest: list_all2_lengthD)
  show ?case
  proof (cases "length args = MAXMENUARGS")
    case True
    then have "collect_args q wo ctx args m = Some (None, m)" using a(1) by (subst collect_args.simps) simp
    then show ?thesis using True len by (intro exI [of _ m]) simp
  next
    case False
    then have l: "length (args @ [a]) \<le> MAXMENUARGS" using Cons.prems(5) by simp
    have "away lim e m q seps" using away_mono [OF Cons.prems(1,3)] by simp
    moreover have "pending seps m lim e (if None \<noteq> None then None else ctx) ws" using Cons.prems(2) by simp
    ultimately show ?thesis
    proof (cases rule: strtok_next)
      case none
      have "list_all2 (cstr m) args us" using Cons.prems(4) unfolding held_def by (rule list_all2_mono) auto
      then have "list_all2 (cstr m) (args @ [a]) (us @ w # ws)" using a(2) none(1) by (simp add: list_all2_appendI)
      moreover have "collect_args q wo ctx args m = collect_args q None None (args @ [a]) m"
        using False Cons.prems(5) a(1) none(2) by (subst collect_args.simps) simp
      then have "collect_args q wo ctx args m = Some (Some (args @ [a]), m)" by (simp add: collect_args.simps [of q None])
      moreover have "\<not> MAXMENUARGS < length (us @ w # ws)" using l len none(1) by simp
      ultimately show ?thesis by (intro exI [of _ m]) simp
    next
      case (word w2 ws2 h ctx' m')
      let ?lim = "h + length w2 + 1"
      have sb: "same_but lim e m m'" by (rule same_but_mono [OF word(6)]) (use word(4,5) in simp_all)
      have "held lim m (args @ [a]) (us @ [w])" using Cons.prems(4) a by (simp add: held_def list_all2_appendI)
      then have "held ?lim m' (args @ [a]) (us @ [w])" using held_mono [OF held_step [OF _ sb]] word(4) by simp
      moreover have "away p e m' q seps" by (rule away_step [OF Cons.prems(1) same_but_mono [OF sb Cons.prems(3)]]) simp
      moreover have eq: "collect_args q wo ctx args m = collect_args q (Some h) ctx' (args @ [a]) m'"
        using False Cons.prems(5) a(1) word(2) by (subst collect_args.simps) simp
      ultimately have "\<exists>m2. same_but p e m' m2 \<and>
        (if MAXMENUARGS < length ((us @ [w]) @ ws) then collect_args q wo ctx args m = Some (None, m2)
         else \<exists>args'. collect_args q wo ctx args m = Some (Some args', m2) \<and> list_all2 (cstr m2) args' ((us @ [w]) @ ws))"
        unfolding eq by (intro Cons.IH [of m' ?lim]) (use Cons.prems(3) l word in simp_all)
      then have "\<exists>m2. same_but p e m' m2 \<and>
        (if MAXMENUARGS < length (us @ w # ws) then collect_args q wo ctx args m = Some (None, m2)
         else \<exists>args'. collect_args q wo ctx args m = Some (Some args', m2) \<and> list_all2 (cstr m2) args' (us @ w # ws))"
        by (simp only: append_assoc append.simps)
      then show ?thesis using same_but_trans [OF same_but_mono [OF sb Cons.prems(3) order_refl] _ order_refl order_refl] by blast
    qed
  qed
qed

text \<open>The table: every name lies outside the command.\<close>

definition table_ok :: "nat \<Rightarrow> nat \<Rightarrow> cmem \<Rightarrow> (nat \<times> 'f) list \<Rightarrow> (string \<times> 'f) list \<Rightarrow> bool" where
  "table_ok p e m tab names \<longleftrightarrow> list_all2 (\<lambda>(a, f) (n, g). away p e m a n \<and> f = g) tab names"

lemma table_ok_step: "table_ok p e m tab names \<Longrightarrow> same_but p e m m' \<Longrightarrow> table_ok p e m' tab names"
  unfolding table_ok_def by (erule list_all2_mono) (auto intro: away_step)

definition lookup_command :: "string \<Rightarrow> (string \<times> 'f) list \<Rightarrow> 'f option" where
  "lookup_command w names = map_option snd (List.find (\<lambda>(n, f). n \<noteq> [] \<and> n = w) names)"

lemma find_command_spec:
  "table_ok p e m tab names \<Longrightarrow> cstr m a w \<Longrightarrow> find_command a tab m = Some (lookup_command w names)"
proof (induction tab arbitrary: names)
  case Nil
  then show ?case by (simp add: table_ok_def lookup_command_def)
next
  case (Cons t tab)
  obtain b f where t: "t = (b, f)" by (cases t)
  obtain n rest where n: "names = (n, f) # rest" "cstr m b n" "table_ok p e m tab rest"
    using Cons.prems(1) t by (auto simp: table_ok_def away_def list_all2_Cons1)
  obtain r where r: "strcmp a b m = Some r" "r = 0 \<longleftrightarrow> w = n" using strcmp_eq [OF Cons.prems(2) n(2)] by blast
  have "m b \<noteq> NUL \<longleftrightarrow> n \<noteq> []" using n(2) by (cases n) auto
  then show ?case using Cons.IH [OF n(3) Cons.prems(2)] r n(1) t by (auto simp: lookup_command_def)
qed

text \<open>What a command line does: the table is searched for its first word.\<close>

abbreviation blank_chars :: string where "blank_chars \<equiv> [CHR '' '', CHR 0x09]"

definition dispatched ::
  "('f \<Rightarrow> nat list \<Rightarrow> cmem \<Rightarrow> 'w \<Rightarrow> (int \<times> cmem \<times> 'w) option) \<Rightarrow> (string \<times> 'f) list \<Rightarrow> string list \<Rightarrow> nat list \<Rightarrow> cmem \<Rightarrow> 'w \<Rightarrow>
   (int \<times> cmem \<times> 'w) option" where
  "dispatched run names ws args m w =
     (if MAXMENUARGS < length ws then Some (E2BIG, m, w)
      else if ws = [] then Some (0, m, w)
      else case lookup_command (hd ws) names of None \<Rightarrow> Some (EINVAL, m, w) | Some f \<Rightarrow> run f args m w)"

lemma cmd_dispatch_spec:
  assumes s: "cstr m p s" and blanks: "away p (p + length s) m q blank_chars" and tab: "table_ok p (p + length s) m tab names"
  shows "\<exists>args m'. same_but p (p + length s) m m' \<and>
    (length (words_of blank_chars s) \<le> MAXMENUARGS \<longrightarrow> list_all2 (cstr m') args (words_of blank_chars s)) \<and>
    cmd_dispatch run tab q p m w = dispatched run names (words_of blank_chars s) args m' w"
proof -
  let ?e = "p + length s" and ?ws = "words_of blank_chars s"
  have "pending blank_chars m p ?e (if Some p \<noteq> None then Some p else None) ?ws" using s by (auto simp: pending_def)
  with blanks obtain wo ctx m1 lim where m1: "strtok_r (Some p) q None m = Some (wo, ctx, m1)" "same_but p ?e m m1"
    "pending blank_chars m1 lim ?e ctx (tl ?ws)" "p \<le> lim"
    "case wo of None \<Rightarrow> ?ws = [] | Some a \<Rightarrow> ?ws \<noteq> [] \<and> cstr m1 a (hd ?ws) \<and> a + length (hd ?ws) < lim"
  proof (cases rule: strtok_next)
    case none
    then show ?thesis using that [of None None m p] by (simp add: pending_def)
  next
    case (word v vs h ctx' m')
    then show ?thesis using that [of "Some h" ctx' m' "h + length v + 1"] same_but_mono [OF word(6), of p ?e] by simp
  qed
  obtain m2 where m2: "same_but p ?e m1 m2"
    "if MAXMENUARGS < length ?ws then collect_args q wo ctx [] m1 = Some (None, m2)
     else \<exists>args. collect_args q wo ctx [] m1 = Some (Some args, m2) \<and> list_all2 (cstr m2) args ?ws"
    using collect_args_spec [OF away_step [OF blanks m1(2)] m1(3,4) _ _ m1(5), of "[]" "[]", unfolded append_Nil] by (force simp: held_def)
  have sb: "same_but p ?e m m2" by (rule same_but_trans [OF m1(2) m2(1)]) simp_all
  show ?thesis
  proof (cases "MAXMENUARGS < length ?ws")
    case True
    then have "cmd_dispatch run tab q p m w = Some (E2BIG, m2, w)" using m1(1) m2(2) by (simp add: cmd_dispatch_def)
    then show ?thesis using True sb by (intro exI [of _ "[]"] exI [of _ m2]) (simp add: dispatched_def)
  next
    case False
    then obtain args where args: "collect_args q wo ctx [] m1 = Some (Some args, m2)" "list_all2 (cstr m2) args ?ws" using m2(2) by auto
    have "cmd_dispatch run tab q p m w = dispatched run names ?ws args m2 w"
    proof (cases args)
      case Nil
      then show ?thesis using m1(1) args by (simp add: cmd_dispatch_def dispatched_def)
    next
      case (Cons a as)
      then obtain v vs where v: "?ws = v # vs" "cstr m2 a v" using args(2) by (auto simp: list_all2_Cons1)
      have "find_command a tab m2 = Some (lookup_command v names)"
        by (rule find_command_spec [OF table_ok_step [OF tab sb] v(2)])
      then show ?thesis using m1(1) args Cons v False by (simp add: cmd_dispatch_def dispatched_def split: option.split)
    qed
    then show ?thesis using args(2) sb by blast
  qed
qed

section \<open>The commands of a line\<close>

text \<open>What the commands of a line do, for commands that look at nothing but their words and the rest of the world.\<close>

fun run_line ::
  "('f \<Rightarrow> string list \<Rightarrow> 'w \<Rightarrow> (int \<times> 'w) option) \<Rightarrow> (string \<times> 'f) list \<Rightarrow> bool \<Rightarrow> string list \<Rightarrow> 'w \<Rightarrow> 'w option" where
  "run_line act names isargs [] w = Some w"
| "run_line act names isargs (c # cs) w = do {
     (result, w) \<leftarrow>
       (let ws = words_of blank_chars c in
        if MAXMENUARGS < length ws then Some (E2BIG, w)
        else if ws = [] then Some (0, w)
        else case lookup_command (hd ws) names of None \<Rightarrow> Some (EINVAL, w) | Some f \<Rightarrow> act f ws w);
     if result \<noteq> 0 \<and> isargs then None else run_line act names isargs cs w
   }"

definition runs_as ::
  "('f \<Rightarrow> nat list \<Rightarrow> cmem \<Rightarrow> 'w \<Rightarrow> (int \<times> cmem \<times> 'w) option) \<Rightarrow> ('f \<Rightarrow> string list \<Rightarrow> 'w \<Rightarrow> (int \<times> 'w) option) \<Rightarrow> bool" where
  "runs_as run act \<longleftrightarrow> (\<forall>f args ws m w. list_all2 (cstr m) args ws \<longrightarrow>
     run f args m w = map_option (\<lambda>(r, w'). (r, m, w')) (act f ws w))"

lemma dispatched_line:
  assumes "runs_as run act" "length ws \<le> MAXMENUARGS \<longrightarrow> list_all2 (cstr m) args ws" "ws = words_of blank_chars c"
  shows "do { (result, m', w) \<leftarrow> dispatched run names ws args m w; if result \<noteq> 0 \<and> isargs then None else k m' w } =
    do { (result, w) \<leftarrow>
       (let ws = words_of blank_chars c in
        if MAXMENUARGS < length ws then Some (E2BIG, w)
        else if ws = [] then Some (0, w)
        else case lookup_command (hd ws) names of None \<Rightarrow> Some (EINVAL, w) | Some f \<Rightarrow> act f ws w);
       if result \<noteq> 0 \<and> isargs then None else k m w }"
proof (cases "MAXMENUARGS < length ws \<or> ws = []")
  case False
  then have "list_all2 (cstr m) args ws" using assms(2) by simp
  then have "run f args m w = map_option (\<lambda>(r, w'). (r, m, w')) (act f ws w)" for f w using assms(1) by (simp add: runs_as_def)
  then show ?thesis
    using False assms(3) by (auto simp: dispatched_def Let_def map_conv_bind_option bind_assoc split_def split: option.split cong: if_cong)
qed (use assms(3) in \<open>auto simp: dispatched_def Let_def\<close>)

lemma pending_outside:
  assumes "pending seps m lim e ctx ws" "same_but a b m m'" "b < lim"
  shows "pending seps m' lim e ctx ws"
proof (cases ctx)
  case (Some q)
  then obtain s where s: "cstr m q s" "lim \<le> q" "q + length s \<le> e" "ws = words_of seps s" using assms(1) by (auto simp: pending_def)
  then have "cstr m' q s" using cstr_outside [OF s(1) assms(2)] assms(3) by simp
  then show ?thesis using Some s by (auto simp: pending_def)
qed (use assms(1) in \<open>simp add: pending_def\<close>)

lemma table_ok_mono: "table_ok p e m tab names \<Longrightarrow> p \<le> p' \<Longrightarrow> e' \<le> e \<Longrightarrow> table_ok p' e' m tab names"
  unfolding table_ok_def by (erule list_all2_mono) (auto intro: away_mono)

lemma map_option_bind: "map_option f (Option.bind x g) = Option.bind x (\<lambda>y. map_option f (g y))"
  by (cases x) simp_all

text \<open>What the loop of \<^verbatim>\<open>menu_execute\<close> needs of memory.\<close>

definition line_env :: "nat \<Rightarrow> nat \<Rightarrow> cmem \<Rightarrow> nat \<Rightarrow> nat \<Rightarrow> (nat \<times> 'f) list \<Rightarrow> (string \<times> 'f) list \<Rightarrow> bool" where
  "line_env p e m blanks semi tab names \<longleftrightarrow>
     away p e m blanks blank_chars \<and> away p e m semi '';'' \<and> table_ok p e m tab names"

lemma line_env_step: "line_env p e m bl se tab names \<Longrightarrow> same_but p e m m' \<Longrightarrow> line_env p e m' bl se tab names"
  by (auto simp: line_env_def intro: away_step table_ok_step)

lemma execute_loop_spec:
  assumes run: "runs_as run act"
    and "line_env p e m bl se tab names" "pending '';'' m lim e ctx (tl cs)" "p \<le> lim" "lim \<le> e + 1"
    "case command of None \<Rightarrow> cs = [] | Some a \<Rightarrow> cs \<noteq> [] \<and> cstr m a (hd cs) \<and> p \<le> a \<and> a + length (hd cs) < lim"
  shows "map_option snd (execute_loop run tab bl se isargs command ctx m w) = run_line act names isargs cs w"
  using assms(2-)
proof (induction cs arbitrary: m lim ctx command w)
  case Nil
  then show ?case by (subst execute_loop.simps) (auto split: option.splits)
next
  case (Cons c cs)
  obtain a where a: "command = Some a" "cstr m a c" "p \<le> a" "a + length c < lim" using Cons.prems(5) by (auto split: option.splits)
  have ae: "a + length c \<le> e" using a(4) Cons.prems(4) by simp
  have env: "away a (a + length c) m bl blank_chars" "table_ok a (a + length c) m tab names"
    using Cons.prems(1) a(3) ae by (auto simp: line_env_def intro: away_mono table_ok_mono)
  let ?ws = "words_of blank_chars c"
  obtain args m' where d: "same_but a (a + length c) m m'" "length ?ws \<le> MAXMENUARGS \<longrightarrow> list_all2 (cstr m') args ?ws"
    "cmd_dispatch run tab bl a m w = dispatched run names ?ws args m' w"
    using cmd_dispatch_spec [OF a(2) env, of run w] by blast
  have sb: "same_but p e m m'" by (rule same_but_mono [OF d(1) a(3) ae])
  let ?k = "\<lambda>m w. do { (command, context, m) \<leftarrow> strtok_r None se ctx m; execute_loop run tab bl se isargs command context m w }"
  have rest: "map_option snd (?k m' w) = run_line act names isargs cs w" for w
  proof -
    have env': "line_env p e m' bl se tab names" by (rule line_env_step [OF Cons.prems(1) sb])
    then have "away lim e m' se '';''" using Cons.prems(3) by (auto simp: line_env_def intro: away_mono)
    moreover have "pending '';'' m' lim e (if None \<noteq> None then None else ctx) cs"
      using pending_outside [OF Cons.prems(2) d(1)] a(4) by simp
    ultimately show ?thesis
    proof (cases rule: strtok_next)
      case none
      then show ?thesis by (simp add: execute_loop.simps [of run tab bl se isargs None])
    next
      case (word v vs h ctx' m2)
      have "same_but p e m' m2" by (rule same_but_mono [OF word(6)]) (use word(4,5) Cons.prems(3) in simp_all)
      then have "map_option snd (execute_loop run tab bl se isargs (Some h) ctx' m2 w) = run_line act names isargs cs w"
        using word Cons.prems(3) by (intro Cons.IH [OF line_env_step [OF env'], of _ "h + length v + 1"]) simp_all
      then show ?thesis using word(2) by simp
    qed
  qed
  have "execute_loop run tab bl se isargs command ctx m w =
      do { (result, m', w) \<leftarrow> dispatched run names ?ws args m' w; if result \<noteq> 0 \<and> isargs then None else ?k m' w }"
    using a(1) by (subst execute_loop.simps) (simp only: d(3) option.case)
  then show ?case
    using rest unfolding dispatched_line [OF run d(2) refl]
    by (simp add: map_option_bind split_def if_distrib [of "map_option snd"] cong: if_cong)
qed

section \<open>Properties\<close>


text \<open>A line at address 100, the separators at 10 and 20 and the name of one command at 30.\<close>

definition menu_mem :: cmem where
  "menu_mem = (\<lambda>x. if x = 10 then CHR '' '' else if x = 11 then CHR 0x09 else if x = 20 then CHR '';'' else if x = 30 then CHR ''q''
     else if x = 100 then CHR ''q'' else if x = 101 then CHR '' '' else if x = 102 then CHR ''1'' else if x = 103 then CHR '';''
     else if x = 104 then CHR ''z'' else NUL)"


end
