(* ===== verification/Printf.thy ===== *)
theory Printf
  imports C_String
begin

text \<open>
  \<^verbatim>\<open>common/libc/printf/__printf.c\<close>, \<^verbatim>\<open>snprintf.c\<close> and \<^verbatim>\<open>common/libc/stdlib/atoi.c\<close>.  The variable arguments are a list: a word
  for an \<^verbatim>\<open>int\<close>, a \<^verbatim>\<open>long\<close> or a pointer, a double word for a \<^verbatim>\<open>long long\<close>, the text of a string or null.  Fetching an
  argument that is missing or of another kind is \<open>None\<close>, as is an overflow of a signed number.  The callback gets the
  text and the client's data.
\<close>

section \<open>Definitions\<close>

datatype va = Word u32 | DWord u64 | Str "string option"

datatype int_size = INTSZ | LONGSZ | LLONGSZ

record 'c PF =
  clientdata :: 'c
  ap :: "va list"
  charcount :: u32
  in_pct :: bool
  isize :: int_size
  num :: u64
  isign :: int
  spacing :: int
  rightspc :: bool
  fillchar :: char
  base :: nat
  baseprefix :: bool
  altformat :: bool

type_synonym 'c send = "string \<Rightarrow> 'c \<Rightarrow> 'c option"

abbreviation (input) NUMBER_BUF_SIZE :: nat where "NUMBER_BUF_SIZE \<equiv> 23"

definition pf_print :: "'c send \<Rightarrow> string \<Rightarrow> 'c PF \<Rightarrow> 'c PF option" where
  "pf_print sendfunc txt pf = do {
     c \<leftarrow> sendfunc txt (clientdata pf);
     Some (pf\<lparr>clientdata := c, charcount := charcount pf + of_nat (length txt)\<rparr>)
   }"

definition pf_endfield :: "'c PF \<Rightarrow> 'c PF" where
  "pf_endfield pf = pf\<lparr>in_pct := False, isize := INTSZ, num := 0, isign := 0, spacing := 0, rightspc := False,
     fillchar := CHR '' '', base := 0, baseprefix := False, altformat := False\<rparr>"

text \<open>The field width is an \<^verbatim>\<open>int\<close>.\<close>

definition set_spacing :: "int \<Rightarrow> 'c PF \<Rightarrow> 'c PF option" where
  "set_spacing n pf = (if n < 2147483648 then Some (pf\<lparr>spacing := n\<rparr>) else None)"

definition pf_modifier :: "char \<Rightarrow> 'c PF \<Rightarrow> 'c PF option" where
  "pf_modifier ch pf =
     (if ch = CHR ''#'' then Some (pf\<lparr>altformat := True\<rparr>)
      else if ch = CHR ''-'' then Some (pf\<lparr>rightspc := True\<rparr>)
      else if ch = CHR ''l'' then Some (pf\<lparr>isize := if isize pf = LONGSZ then LLONGSZ else LONGSZ\<rparr>)
      else if ch = CHR ''0'' then
        (if 0 < spacing pf then set_spacing (spacing pf * 10) pf else Some (pf\<lparr>fillchar := CHR ''0''\<rparr>))
      else do {
        KASSERT (of_char CHR ''0'' < (of_char ch :: int) \<and> (of_char ch :: int) \<le> of_char CHR ''9'');
        set_spacing (spacing pf * 10 + (of_char ch - of_char CHR ''0'')) pf
      })"

fun va_word :: "va list \<Rightarrow> (u32 \<times> va list) option" where
  "va_word (Word w # rest) = Some (w, rest)"
| "va_word _ = None"

fun va_dword :: "va list \<Rightarrow> (u64 \<times> va list) option" where
  "va_dword (DWord d # rest) = Some (d, rest)"
| "va_dword _ = None"

fun va_str :: "va list \<Rightarrow> (string option \<times> va list) option" where
  "va_str (Str s # rest) = Some (s, rest)"
| "va_str _ = None"

definition pf_getnum :: "char \<Rightarrow> 'c PF \<Rightarrow> 'c PF option" where
  "pf_getnum ch pf =
     (if ch = CHR ''p'' then do {
        (w, rest) \<leftarrow> va_word (ap pf);
        Some (pf\<lparr>num := ucast w, ap := rest\<rparr>)
      }
      else if ch = CHR ''d'' then do {
        (signednum, rest) \<leftarrow>
          (if isize pf = LLONGSZ then va_dword (ap pf) else do { (w, rest) \<leftarrow> va_word (ap pf); Some (scast w, rest) });
        if sint signednum < 0 then do {
          KASSERT (sint signednum \<noteq> - 9223372036854775808);
          Some (pf\<lparr>isign := - 1, num := - signednum, ap := rest\<rparr>)
        }
        else Some (pf\<lparr>num := signednum, ap := rest\<rparr>)
      }
      else if isize pf = LLONGSZ then do {
        (d, rest) \<leftarrow> va_dword (ap pf);
        Some (pf\<lparr>num := d, ap := rest\<rparr>)
      }
      else do {
        (w, rest) \<leftarrow> va_word (ap pf);
        Some (pf\<lparr>num := ucast w, ap := rest\<rparr>)
      })"

definition pf_setbase :: "char \<Rightarrow> 'c PF \<Rightarrow> 'c PF" where
  "pf_setbase ch pf =
     (let pf = (if ch = CHR ''d'' \<or> ch = CHR ''u'' then pf\<lparr>base := 10\<rparr>
        else if ch = CHR ''x'' \<or> ch = CHR ''p'' then pf\<lparr>base := 16\<rparr>
        else if ch = CHR ''o'' then pf\<lparr>base := 8\<rparr>
        else pf) in
      if altformat pf \<or> ch = CHR ''p'' then pf\<lparr>baseprefix := True\<rparr> else pf)"

fun pf_fill :: "'c send \<Rightarrow> nat \<Rightarrow> 'c PF \<Rightarrow> 'c PF option" where
  "pf_fill sendfunc 0 pf = Some pf"
| "pf_fill sendfunc (Suc left) pf = do {
     pf \<leftarrow> pf_print sendfunc [fillchar pf] pf;
     pf_fill sendfunc left pf
   }"

definition pf_printstuff :: "'c send \<Rightarrow> string \<Rightarrow> string \<Rightarrow> string \<Rightarrow> 'c PF \<Rightarrow> 'c PF option" where
  "pf_printstuff sendfunc prefix prefix2 stuff pf = do {
     len \<leftarrow> Some (int (length prefix + length prefix2 + length stuff));
     spc \<leftarrow> Some (if len < spacing pf then spacing pf - len else 0);
     pf \<leftarrow> (if 0 < spc \<and> \<not> rightspc pf \<and> fillchar pf \<noteq> CHR ''0'' then pf_fill sendfunc (nat spc) pf else Some pf);
     pf \<leftarrow> pf_print sendfunc prefix pf;
     pf \<leftarrow> pf_print sendfunc prefix2 pf;
     pf \<leftarrow> (if 0 < spc \<and> \<not> rightspc pf \<and> fillchar pf = CHR ''0'' then pf_fill sendfunc (nat spc) pf else Some pf);
     pf \<leftarrow> pf_print sendfunc stuff pf;
     if 0 < spc \<and> rightspc pf then pf_fill sendfunc (nat spc) pf else Some pf
   }"

text \<open>The conversion works from right to left in \<^verbatim>\<open>buf\<close>; the pointer \<^verbatim>\<open>x\<close> is an index, which ends one slot to the left of
  the number.\<close>

partial_function (option) pf_digits :: "u64 \<Rightarrow> u64 \<Rightarrow> int \<Rightarrow> char list \<Rightarrow> (int \<times> char list) option" where
  "pf_digits bs xnum x buf = do {
     KASSERT (bs \<noteq> 0);
     d \<leftarrow> rd ''0123456789abcdef'' (unat (xnum mod bs));
     KASSERT (0 \<le> x);
     buf \<leftarrow> wr buf (nat x) d;
     if 0 < xnum div bs then pf_digits bs (xnum div bs) (x - 1) buf else Some (x - 1, buf)
   }"

text \<open>\<open>junk\<close> is what the stack held.\<close>

definition number_text :: "char list \<Rightarrow> u64 \<Rightarrow> u64 \<Rightarrow> string option" where
  "number_text junk bs n = do {
     buf \<leftarrow> wr junk (NUMBER_BUF_SIZE - 1) NUL;
     (x, buf) \<leftarrow> pf_digits bs n (int NUMBER_BUF_SIZE - 2) buf;
     Some (takeWhile (\<lambda>c. c \<noteq> NUL) (drop (nat (x + 1)) buf))
   }"

definition pf_printnum :: "'c send \<Rightarrow> char list \<Rightarrow> 'c PF \<Rightarrow> 'c PF option" where
  "pf_printnum sendfunc junk pf = do {
     txt \<leftarrow> number_text junk (of_nat (base pf)) (num pf);
     bprefix \<leftarrow> Some (if baseprefix pf \<and> base pf = 16 then ''0x'' else if baseprefix pf \<and> base pf = 8 then ''0'' else []);
     sprefix \<leftarrow> Some (if isign pf \<noteq> 0 then ''-'' else []);
     pf_printstuff sendfunc sprefix bprefix txt pf
   }"

definition pf_send :: "'c send \<Rightarrow> char list \<Rightarrow> char \<Rightarrow> 'c PF \<Rightarrow> 'c PF option" where
  "pf_send sendfunc junk ch pf = do {
     KASSERT (ch \<noteq> NUL);
     if \<not> in_pct pf \<and> ch \<noteq> CHR ''%'' then pf_print sendfunc [ch] pf
     else if \<not> in_pct pf then Some (pf\<lparr>in_pct := True\<rparr>)
     else if ch \<in> set ''#-l0123456789'' then pf_modifier ch pf
     else if ch \<in> set ''doupx'' then do {
       pf \<leftarrow> pf_getnum ch pf;
       pf \<leftarrow> Some (pf_setbase ch pf);
       pf \<leftarrow> pf_printnum sendfunc junk pf;
       Some (pf_endfield pf)
     }
     else if ch = CHR ''s'' then do {
       (str, rest) \<leftarrow> va_str (ap pf);
       pf \<leftarrow> pf_printstuff sendfunc [] [] (case str of None \<Rightarrow> ''(null)'' | Some s \<Rightarrow> s) (pf\<lparr>ap := rest\<rparr>);
       Some (pf_endfield pf)
     }
     else do {
       (x0, rest) \<leftarrow> (if ch = CHR ''c'' then do { (w, rest) \<leftarrow> va_word (ap pf); Some (char_of (unat w), rest) } else Some (ch, ap pf));
       pf \<leftarrow> pf_printstuff sendfunc [] [] (if x0 = NUL then [] else [x0]) (pf\<lparr>ap := rest\<rparr>);
       Some (pf_endfield pf)
     }
   }"

fun pf_sends :: "'c send \<Rightarrow> char list \<Rightarrow> string \<Rightarrow> 'c PF \<Rightarrow> 'c PF option" where
  "pf_sends sendfunc junk [] pf = Some pf"
| "pf_sends sendfunc junk (ch # fmt) pf = do {
     pf \<leftarrow> pf_send sendfunc junk ch pf;
     pf_sends sendfunc junk fmt pf
   }"

definition pf_start :: "'c \<Rightarrow> va list \<Rightarrow> 'c PF" where
  "pf_start c args = pf_endfield \<lparr>clientdata = c, ap = args, charcount = 0, in_pct = False, isize = INTSZ, num = 0, isign = 0,
     spacing = 0, rightspc = False, fillchar = CHR '' '', base = 0, baseprefix = False, altformat = False\<rparr>"

definition vprintf :: "'c send \<Rightarrow> 'c \<Rightarrow> char list \<Rightarrow> string \<Rightarrow> va list \<Rightarrow> (int \<times> 'c) option" where
  "vprintf sendfunc c junk fmt args = do {
     pf \<leftarrow> pf_sends sendfunc junk fmt (pf_start c args);
     Some (sint (charcount pf), clientdata pf)
   }"

subsection \<open>Printing into a buffer\<close>

record SNP =
  sbuf :: "char list"
  buflen :: nat
  bufpos :: nat

fun snprintf_send :: "string \<Rightarrow> SNP \<Rightarrow> SNP option" where
  "snprintf_send [] snp = Some snp"
| "snprintf_send (c # dat) snp =
     (if bufpos snp < buflen snp then do {
        b \<leftarrow> wr (sbuf snp) (bufpos snp) c;
        snprintf_send dat (snp\<lparr>sbuf := b, bufpos := bufpos snp + 1\<rparr>)
      }
      else snprintf_send dat snp)"

definition vsnprintf :: "char list \<Rightarrow> nat \<Rightarrow> char list \<Rightarrow> string \<Rightarrow> va list \<Rightarrow> (int \<times> char list) option" where
  "vsnprintf buf len junk fmt args = do {
     snp \<leftarrow> Some \<lparr>sbuf = buf, buflen = (if len = 0 then 0 else len - 1), bufpos = 0\<rparr>;
     (chars, snp) \<leftarrow> vprintf snprintf_send snp junk fmt args;
     buf \<leftarrow> (if 0 < len then wr (sbuf snp) (bufpos snp) NUL else Some (sbuf snp));
     Some (chars, buf)
   }"

definition snprintf :: "char list \<Rightarrow> nat \<Rightarrow> char list \<Rightarrow> string \<Rightarrow> va list \<Rightarrow> (int \<times> char list) option" where
  "snprintf buf len junk fmt args = vsnprintf buf len junk fmt args"

subsection \<open>Reading a number\<close>

partial_function (option) skip_blanks :: "nat \<Rightarrow> cmem \<Rightarrow> nat option" where
  "skip_blanks s m = (if m s = CHR '' '' \<or> m s = CHR 0x09 then skip_blanks (s + 1) m else Some s)"

text \<open>The index of a character in the table of digits.\<close>

definition digit_of :: "char \<Rightarrow> nat option" where
  "digit_of c = (if c \<in> set ''0123456789'' then Some (length (takeWhile (\<lambda>d. d \<noteq> c) ''0123456789'')) else None)"

partial_function (option) atoi_digits :: "u32 \<Rightarrow> nat \<Rightarrow> cmem \<Rightarrow> u32 option" where
  "atoi_digits val s m =
     (if m s \<noteq> NUL then
        (case digit_of (m s) of
           None \<Rightarrow> Some val
         | Some digit \<Rightarrow> atoi_digits (val * 10 + of_nat digit) (s + 1) m)
      else Some val)"

definition atoi :: "nat \<Rightarrow> cmem \<Rightarrow> int option" where
  "atoi s m = do {
     s \<leftarrow> skip_blanks s m;
     (neg, s) \<leftarrow> Some (if m s = CHR ''-'' then (True, s + 1) else if m s = CHR ''+'' then (False, s + 1) else (False, s));
     val \<leftarrow> atoi_digits 0 s m;
     Some (if neg then sint (- val) else sint val)
   }"

end
