(* ===== verification/Printf_Correct.thy ===== *)
theory Printf_Correct
  imports Printf
begin

text \<open>Correctness of the number conversion, of the layout of fields, of printing into a buffer, and of reading back.\<close>

section \<open>Digits\<close>

function showb :: "nat \<Rightarrow> nat \<Rightarrow> string" where
  "showb b n = (if n < b \<or> b < 2 then [''0123456789abcdef'' ! (n mod b)] else showb b (n div b) @ [''0123456789abcdef'' ! (n mod b)])"
  by auto
termination by (relation "measure snd") auto

declare showb.simps [simp del]

lemma showb_length: "2 \<le> b \<Longrightarrow> 0 < k \<Longrightarrow> n < b ^ k \<Longrightarrow> length (showb b n) \<le> k"
proof (induction b n arbitrary: k rule: showb.induct)
  case (1 b n)
  show ?case
  proof (cases "n < b")
    case True
    then show ?thesis using 1(3) by (subst showb.simps) simp
  next
    case False
    then have "k \<noteq> 1" using 1(4) by auto
    then obtain j where j: "k = Suc j" "0 < j" using 1(3) by (cases k) auto
    have "n div b < b ^ j" using 1(4) j(1) by (simp add: less_mult_imp_div_less mult.commute)
    then have "length (showb b (n div b)) \<le> j" using 1(1) [of j] False 1(2) j(2) by simp
    then show ?thesis using False 1(2) j(1) by (subst showb.simps) simp
  qed
qed

lemma digit_no_nul: "k < 16 \<Longrightarrow> ''0123456789abcdef'' ! k \<noteq> NUL"
  using nth_mem [of k "''0123456789abcdef''"] by auto

lemma showb_no_nul: "2 \<le> b \<Longrightarrow> b \<le> 16 \<Longrightarrow> NUL \<notin> set (showb b n)"
proof (induction b n rule: showb.induct)
  case (1 b n)
  have "n mod b < 16" using 1(2,3) mod_less_divisor [of b n] by linarith
  then show ?case using digit_no_nul [of "n mod b"] 1 by (subst showb.simps) auto
qed

lemma showb_nonempty [simp]: "showb b n \<noteq> []"
  by (subst showb.simps) simp

lemma pf_digits_spec:
  assumes "2 \<le> b" "b \<le> 16" "length (showb b (unat n)) \<le> x" "x \<le> length buf"
  shows "pf_digits (of_nat b) n (int x - 1) buf =
    Some (int x - 1 - int (length (showb b (unat n))), take (x - length (showb b (unat n))) buf @ showb b (unat n) @ drop x buf)"
  using assms(3,4)
proof (induction "unat n" arbitrary: n x buf rule: less_induct)
  case less
  have bw: "unat (of_nat b :: u64) = b" using assms(1,2) by (simp add: unat_of_nat)
  have mods: "unat (n mod of_nat b) = unat n mod b" "unat (n div of_nat b) = unat n div b" by (simp_all add: unat_mod unat_div bw)
  have lt: "unat n mod b < 16" using assms(1,2) mod_less_divisor [of b "unat n"] by linarith
  have x: "0 < x" using less.prems(1) by (cases x) auto
  have bz: "(of_nat b :: u64) \<noteq> 0" using bw assms(1) by (metis unat_0 not_numeral_le_zero)
  let ?d = "''0123456789abcdef'' ! (unat n mod b)"
  have rd: "rd ''0123456789abcdef'' (unat (n mod of_nat b)) = Some ?d" using lt by (simp add: mods rd_def)
  have wr: "wr buf (nat (int x - 1)) ?d = Some (buf[x - 1 := ?d])" using x less.prems(2) by (simp add: wr_def nat_diff_distrib)
  have eq: "pf_digits (of_nat b) n (int x - 1) buf =
      (if 0 < n div of_nat b then pf_digits (of_nat b) (n div of_nat b) (int x - 1 - 1) (buf[x - 1 := ?d]) else Some (int x - 1 - 1, buf[x - 1 := ?d]))"
    using x by (subst pf_digits.simps) (simp only: rd wr KASSERT_bind bz Option.bind.simps if_True not_False_eq_True, simp)
  have upd: "buf[x - 1 := ?d] = take (x - 1) buf @ ?d # drop x buf"
    using x less.prems(2) by (simp add: upd_conv_take_nth_drop)
  have pos: "0 < n div of_nat b \<longleftrightarrow> b \<le> unat n"
    using mods(2) assms(1) by (simp add: word_greater_zero_iff unat_eq_zero [symmetric] div_greater_zero_iff)
  show ?case
  proof (cases "b \<le> unat n")
    case False
    then have s: "showb b (unat n) = [?d]" by (subst showb.simps) simp
    show ?thesis unfolding eq s upd using False pos by simp
  next
    case True
    then have s: "showb b (unat n) = showb b (unat (n div of_nat b)) @ [?d]"
      using assms(1) by (subst showb.simps) (simp add: mods)
    let ?s = "showb b (unat (n div of_nat b))"
    have l: "length ?s \<le> x - 1" "x - 1 \<le> length (buf[x - 1 := ?d])" using less.prems s by simp_all
    have "unat (n div of_nat b) < unat n" using True assms(1) mods(2) by simp
    from less.hyps [OF this l]
    have "pf_digits (of_nat b) (n div of_nat b) (int x - 1 - 1) (buf[x - 1 := ?d]) =
        Some (int x - 1 - int (length (showb b (unat n))),
          take (x - 1 - length ?s) (buf[x - 1 := ?d]) @ ?s @ drop (x - 1) (buf[x - 1 := ?d]))"
      using x s by (simp add: of_nat_diff algebra_simps)
    moreover have "take (x - 1 - length ?s) (buf[x - 1 := ?d]) @ ?s @ drop (x - 1) (buf[x - 1 := ?d]) =
        take (x - length (showb b (unat n))) buf @ showb b (unat n) @ drop x buf"
      unfolding upd s using x less.prems(2) by (simp add: min_def) arith
    ultimately show ?thesis using True pos by (simp only: eq if_True simp_thms)
  qed
qed

lemma number_text_spec:
  assumes "8 \<le> b" "b \<le> 16" "length junk = NUMBER_BUF_SIZE"
  shows "number_text junk (of_nat b) n = Some (showb b (unat n))"
proof -
  let ?s = "showb b (unat n)"
  have "unat n < 2 ^ 64" using unsigned_less [of n, where 'a = nat] by simp
  also have "(2 :: nat) ^ 64 \<le> 8 ^ 22" by simp
  also have "(8 :: nat) ^ 22 \<le> b ^ 22" using assms(1) by (rule power_mono) simp
  finally have l: "length ?s \<le> 22" using assms(1) by (intro showb_length) simp_all
  let ?buf = "junk[22 := NUL]"
  have "pf_digits (of_nat b) n (int 22 - 1) ?buf = Some (int 22 - 1 - int (length ?s), take (22 - length ?s) ?buf @ ?s @ drop 22 ?buf)"
    by (rule pf_digits_spec) (use assms l in simp_all)
  moreover have "drop 22 ?buf = [NUL]" using assms(3) by (simp add: upd_conv_take_nth_drop)
  moreover have "takeWhile (\<lambda>c. c \<noteq> NUL) (?s @ [NUL]) = ?s"
    using showb_no_nul [of b "unat n"] assms(1,2) by (subst takeWhile_append2) auto
  moreover have "nat (int 22 - 1 - int (length ?s) + 1) = 22 - length ?s" using l by simp
  ultimately show ?thesis using assms(3) l by (simp add: number_text_def)
qed

section \<open>Fields\<close>

text \<open>The callback that appends to a text.\<close>

definition collect :: "string send" where
  "collect txt c = Some (c @ txt)"

definition add_text :: "string \<Rightarrow> string PF \<Rightarrow> string PF" where
  "add_text t pf = pf\<lparr>clientdata := clientdata pf @ t, charcount := charcount pf + of_nat (length t)\<rparr>"

lemma add_text_sel [simp]:
  "ap (add_text t pf) = ap pf" "in_pct (add_text t pf) = in_pct pf" "isize (add_text t pf) = isize pf" "num (add_text t pf) = num pf"
  "isign (add_text t pf) = isign pf" "spacing (add_text t pf) = spacing pf" "rightspc (add_text t pf) = rightspc pf"
  "fillchar (add_text t pf) = fillchar pf" "base (add_text t pf) = base pf" "baseprefix (add_text t pf) = baseprefix pf"
  "altformat (add_text t pf) = altformat pf" "clientdata (add_text t pf) = clientdata pf @ t"
  by (simp_all add: add_text_def)

lemma add_text_add [simp]: "add_text u (add_text t pf) = add_text (t @ u) pf"
  by (simp add: add_text_def)

lemma add_text_Nil [simp]: "add_text [] pf = pf"
  by (simp add: add_text_def)

lemma pf_print_collect [simp]: "pf_print collect t pf = Some (add_text t pf)"
  by (simp add: pf_print_def collect_def add_text_def)

lemma pf_fill_collect [simp]: "pf_fill collect n pf = Some (add_text (replicate n (fillchar pf)) pf)"
  by (induction n arbitrary: pf) simp_all

definition field :: "'c PF \<Rightarrow> string \<Rightarrow> string \<Rightarrow> string" where
  "field pf prefix stuff =
     (let pad = replicate (nat (spacing pf - int (length (prefix @ stuff)))) (fillchar pf) in
      if rightspc pf then prefix @ stuff @ pad
      else if fillchar pf = CHR ''0'' then prefix @ pad @ stuff
      else pad @ prefix @ stuff)"

lemma pf_printstuff_collect:
  "pf_printstuff collect a b s pf = Some (add_text (field pf (a @ b) s) pf)"
  by (auto simp: pf_printstuff_def field_def Let_def add.assoc)

lemma field_length: "length (field pf a s) = max (nat (spacing pf)) (length (a @ s))"
  by (auto simp: field_def Let_def)

section \<open>Any callback\<close>

text \<open>A callback that tracks the text, seen through \<open>h\<close>, prints what the collecting one prints.\<close>

definition on_client :: "('c \<Rightarrow> 'd) \<Rightarrow> 'c PF \<Rightarrow> 'd PF" where
  "on_client h pf = \<lparr>clientdata = h (clientdata pf), ap = ap pf, charcount = charcount pf, in_pct = in_pct pf, isize = isize pf,
     num = num pf, isign = isign pf, spacing = spacing pf, rightspc = rightspc pf, fillchar = fillchar pf, base = base pf,
     baseprefix = baseprefix pf, altformat = altformat pf\<rparr>"

lemma on_client_sel [simp]:
  "ap (on_client h pf) = ap pf" "in_pct (on_client h pf) = in_pct pf" "isize (on_client h pf) = isize pf" "num (on_client h pf) = num pf"
  "isign (on_client h pf) = isign pf" "spacing (on_client h pf) = spacing pf" "rightspc (on_client h pf) = rightspc pf"
  "fillchar (on_client h pf) = fillchar pf" "base (on_client h pf) = base pf" "baseprefix (on_client h pf) = baseprefix pf"
  "altformat (on_client h pf) = altformat pf" "charcount (on_client h pf) = charcount pf" "clientdata (on_client h pf) = h (clientdata pf)"
  by (simp_all add: on_client_def)

lemma on_client_upd [simp]:
  "(on_client h pf)\<lparr>ap := a\<rparr> = on_client h (pf\<lparr>ap := a\<rparr>)" "(on_client h pf)\<lparr>in_pct := b\<rparr> = on_client h (pf\<lparr>in_pct := b\<rparr>)"
  "(on_client h pf)\<lparr>isize := c\<rparr> = on_client h (pf\<lparr>isize := c\<rparr>)" "(on_client h pf)\<lparr>num := d\<rparr> = on_client h (pf\<lparr>num := d\<rparr>)"
  "(on_client h pf)\<lparr>isign := e\<rparr> = on_client h (pf\<lparr>isign := e\<rparr>)" "(on_client h pf)\<lparr>spacing := f\<rparr> = on_client h (pf\<lparr>spacing := f\<rparr>)"
  "(on_client h pf)\<lparr>rightspc := b\<rparr> = on_client h (pf\<lparr>rightspc := b\<rparr>)" "(on_client h pf)\<lparr>fillchar := g\<rparr> = on_client h (pf\<lparr>fillchar := g\<rparr>)"
  "(on_client h pf)\<lparr>base := i\<rparr> = on_client h (pf\<lparr>base := i\<rparr>)" "(on_client h pf)\<lparr>baseprefix := b\<rparr> = on_client h (pf\<lparr>baseprefix := b\<rparr>)"
  "(on_client h pf)\<lparr>altformat := b\<rparr> = on_client h (pf\<lparr>altformat := b\<rparr>)"
  by (simp_all add: on_client_def)

text \<open>The operations that do not print.\<close>

lemma on_client_endfield: "pf_endfield (on_client h pf) = on_client h (pf_endfield pf)"
  by (simp add: pf_endfield_def)

lemma on_client_setbase: "pf_setbase ch (on_client h pf) = on_client h (pf_setbase ch pf)"
  by (simp add: pf_setbase_def Let_def)

lemma on_client_modifier: "pf_modifier ch (on_client h pf) = map_option (on_client h) (pf_modifier ch pf)"
  by (simp add: pf_modifier_def set_spacing_def)

lemma on_client_getnum: "pf_getnum ch (on_client h pf) = map_option (on_client h) (pf_getnum ch pf)"
  by (simp add: pf_getnum_def map_conv_bind_option split_def comp_def bind_assoc
      if_distrib [of "\<lambda>x. Option.bind x (\<lambda>y. Some (on_client h y))"] cong: if_cong)

locale text_sink =
  fixes sendfunc :: "'c send" and ok :: "string \<Rightarrow> 'c"
  assumes send_ok: "sendfunc txt (ok c) = Some (ok (c @ txt))"
begin

lemma print_sink: "pf_print sendfunc t (on_client ok pf) = Some (on_client ok (add_text t pf))"
  by (simp add: pf_print_def send_ok) (simp add: on_client_def add_text_def)

lemma fill_sink: "pf_fill sendfunc n (on_client ok pf) = Some (on_client ok (add_text (replicate n (fillchar pf)) pf))"
  by (induction n arbitrary: pf) (simp_all add: print_sink)

lemma printstuff_sink: "pf_printstuff sendfunc a b s (on_client ok pf) = map_option (on_client ok) (pf_printstuff collect a b s pf)"
  by (simp add: pf_printstuff_def print_sink fill_sink)

lemma printnum_sink: "pf_printnum sendfunc junk (on_client ok pf) = map_option (on_client ok) (pf_printnum collect junk pf)"
  by (cases "number_text junk (of_nat (base pf)) (num pf)") (simp_all add: pf_printnum_def printstuff_sink)

lemma send_sink: "pf_send sendfunc junk ch (on_client ok pf) = map_option (on_client ok) (pf_send collect junk ch pf)"
proof -
  have endf: "Option.bind (map_option (on_client ok) x) (\<lambda>pf. Some (pf_endfield pf)) =
      map_option (on_client ok) (Option.bind x (\<lambda>pf. Some (pf_endfield pf)))" for x
    by (cases x) (simp_all add: on_client_endfield)
  have number: "do { pf \<leftarrow> pf_getnum ch (on_client ok pf); pf \<leftarrow> Some (pf_setbase ch pf); pf \<leftarrow> pf_printnum sendfunc junk pf; Some (pf_endfield pf) } =
      map_option (on_client ok) (do { pf \<leftarrow> pf_getnum ch pf; pf \<leftarrow> Some (pf_setbase ch pf); pf \<leftarrow> pf_printnum collect junk pf; Some (pf_endfield pf) })"
    by (cases "pf_getnum ch pf") (simp_all add: on_client_getnum on_client_setbase printnum_sink endf)
  have strs: "do { (str, rest) \<leftarrow> x; pf \<leftarrow> pf_printstuff sendfunc [] [] (f str) ((on_client ok pf)\<lparr>ap := rest\<rparr>); Some (pf_endfield pf) } =
      map_option (on_client ok) (do { (str, rest) \<leftarrow> x; pf \<leftarrow> pf_printstuff collect [] [] (f str) (pf\<lparr>ap := rest\<rparr>); Some (pf_endfield pf) })"
    for x :: "('a \<times> va list) option" and f
    by (cases x) (auto simp: printstuff_sink endf)
  show ?thesis
    unfolding pf_send_def number strs KASSERT_bind on_client_sel
    by (simp add: print_sink on_client_modifier)
qed

lemma sends_sink: "pf_sends sendfunc junk fmt (on_client ok pf) = map_option (on_client ok) (pf_sends collect junk fmt pf)"
  by (induction fmt arbitrary: pf) (simp_all add: send_sink map_conv_bind_option bind_assoc comp_def)

lemma vprintf_sink: "vprintf sendfunc (ok []) junk fmt args = map_option (\<lambda>(n, t). (n, ok t)) (vprintf collect [] junk fmt args)"
proof -
  have "pf_start (ok []) args = on_client ok (pf_start [] args)" by (simp add: pf_start_def pf_endfield_def on_client_def)
  then show ?thesis by (simp add: vprintf_def sends_sink map_conv_bind_option bind_assoc comp_def)
qed

end

section \<open>Printing into a buffer\<close>

definition stored :: "char list \<Rightarrow> nat \<Rightarrow> string \<Rightarrow> SNP" where
  "stored buf l t = (let n = min l (length buf) in
     \<lparr>sbuf = take n t @ drop (min n (length t)) buf, buflen = n, bufpos = min n (length t)\<rparr>)"

lemma stored_step:
  "bufpos (stored buf l t) < buflen (stored buf l t) \<Longrightarrow>
   wr (sbuf (stored buf l t)) (bufpos (stored buf l t)) c = Some (sbuf (stored buf l (t @ [c])))"
  "bufpos (stored buf l t) < buflen (stored buf l t) \<Longrightarrow> bufpos (stored buf l (t @ [c])) = bufpos (stored buf l t) + 1"
  "\<not> bufpos (stored buf l t) < buflen (stored buf l t) \<Longrightarrow> stored buf l (t @ [c]) = stored buf l t"
proof -
  let ?n = "min l (length buf)"
  show "wr (sbuf (stored buf l t)) (bufpos (stored buf l t)) c = Some (sbuf (stored buf l (t @ [c])))"
    if "bufpos (stored buf l t) < buflen (stored buf l t)"
  proof -
    have lt: "length t < ?n" using that by (auto simp: stored_def Let_def min_def split: if_splits)
    then have "(t @ drop (length t) buf)[length t := c] = t @ c # drop (length t + 1) buf"
      by (simp add: list_update_append upd_conv_take_nth_drop)
    moreover obtain k where k: "?n - length t = Suc k" using lt by (metis Suc_diff_Suc)
    ultimately show ?thesis using lt by (simp add: stored_def Let_def k)
  qed
qed (auto simp: stored_def Let_def)

interpretation snp: text_sink snprintf_send "stored buf l" for buf l
proof
  show "snprintf_send us (stored buf l c) = Some (stored buf l (c @ us))" for us c
  proof (induction us arbitrary: c)
    case (Cons x us)
    have b: "buflen (stored buf l (c @ [x])) = buflen (stored buf l c)" by (simp add: stored_def Let_def)
    show ?case
    proof (cases "bufpos (stored buf l c) < buflen (stored buf l c)")
      case True
      have "(stored buf l c)\<lparr>sbuf := sbuf (stored buf l (c @ [x])), bufpos := bufpos (stored buf l c) + 1\<rparr> = stored buf l (c @ [x])"
        using stored_step(2) [OF True, of x] b by (intro SNP.equality) simp_all
      then show ?thesis using Cons.IH [of "c @ [x]"] stored_step(1) [OF True, of x] True by simp
    next
      case False
      then show ?thesis using Cons.IH [of "c @ [x]"] stored_step(3) [OF False, of x] by simp
    qed
  qed simp
qed

text \<open>The count is the length of the text, as an \<^verbatim>\<open>int\<close>.\<close>

definition counts :: "string PF \<Rightarrow> bool" where
  "counts pf \<longleftrightarrow> charcount pf = of_nat (length (clientdata pf))"

lemma counts_add [simp]: "counts (add_text t pf) = counts pf"
  by (simp add: counts_def add_text_def)

lemma counts_upd [simp]:
  "counts (pf\<lparr>ap := a\<rparr>) = counts pf" "counts (pf\<lparr>in_pct := b\<rparr>) = counts pf" "counts (pf\<lparr>isize := c\<rparr>) = counts pf"
  "counts (pf\<lparr>num := d\<rparr>) = counts pf" "counts (pf\<lparr>isign := e\<rparr>) = counts pf" "counts (pf\<lparr>spacing := f\<rparr>) = counts pf"
  "counts (pf\<lparr>rightspc := b\<rparr>) = counts pf" "counts (pf\<lparr>fillchar := g\<rparr>) = counts pf" "counts (pf\<lparr>base := i\<rparr>) = counts pf"
  "counts (pf\<lparr>baseprefix := b\<rparr>) = counts pf" "counts (pf\<lparr>altformat := b\<rparr>) = counts pf" "counts (pf_endfield pf) = counts pf"
  by (simp_all add: counts_def pf_endfield_def)

lemma counts_modifier: "pf_modifier ch pf = Some pf' \<Longrightarrow> counts pf' = counts pf"
  by (auto simp: pf_modifier_def set_spacing_def split: if_splits)

lemma counts_getnum: "pf_getnum ch pf = Some pf' \<Longrightarrow> counts pf' = counts pf"
  by (auto simp: pf_getnum_def outcome_simps split: if_splits)

lemma counts_setbase [simp]: "counts (pf_setbase ch pf) = counts pf"
  by (simp add: pf_setbase_def Let_def)

lemma counts_printnum: "pf_printnum collect junk pf = Some pf' \<Longrightarrow> counts pf' = counts pf"
  by (cases "number_text junk (of_nat (base pf)) (num pf)") (auto simp: pf_printnum_def pf_printstuff_collect simp del: of_nat_numeral)

lemma counts_send:
  assumes "pf_send collect junk ch pf = Some pf'"
  shows "counts pf' = counts pf"
proof -
  have fld: "counts pf' = counts pf"
    if "do { (str, rest) \<leftarrow> x; pf \<leftarrow> pf_printstuff collect [] [] (f str) (pf\<lparr>ap := rest\<rparr>); Some (pf_endfield pf) } = Some pf'"
    for x :: "('a \<times> va list) option" and f
  proof (cases x)
    case (Some y)
    obtain str rest where "y = (str, rest)" by (cases y)
    then have "pf' = pf_endfield (add_text (field (pf\<lparr>ap := rest\<rparr>) [] (f str)) (pf\<lparr>ap := rest\<rparr>))"
      using that Some by (simp add: pf_printstuff_collect)
    then show ?thesis by simp
  qed (use that in simp)
  have number: "counts pf' = counts pf"
    if "do { pf \<leftarrow> pf_getnum ch pf; pf \<leftarrow> Some (pf_setbase ch pf); pf \<leftarrow> pf_printnum collect junk pf; Some (pf_endfield pf) } = Some pf'"
  proof (cases "pf_getnum ch pf")
    case (Some p1)
    show ?thesis
    proof (cases "pf_printnum collect junk (pf_setbase ch p1)")
      case p2: (Some p2)
      then have "pf' = pf_endfield p2" using that Some by simp
      then show ?thesis using counts_getnum [OF Some] counts_printnum [OF p2] by simp
    qed (use that Some in simp)
  qed (use that in simp)
  have nz: "ch \<noteq> NUL" using assms by (auto simp: pf_send_def)
  note sel = pf_send_def KASSERT_bind if_True if_False simp_thms nz
  show ?thesis
  proof (cases "in_pct pf")
    case False
    then show ?thesis using assms by (auto simp: pf_send_def split: if_splits)
  next
    case pct: True
    show ?thesis
    proof (cases "ch \<in> set ''#-l0123456789''")
      case True
      then show ?thesis using assms counts_modifier [of ch pf pf'] by (simp only: sel pct)
    next
      case nomod: False
      show ?thesis
      proof (cases "ch \<in> set ''doupx''")
        case True
        then show ?thesis using assms number by (simp only: sel pct nomod)
      next
        case num: False
        show ?thesis
        proof (cases "ch = CHR ''s''")
          case True
          then show ?thesis using assms pct by (intro fld) (simp add: pf_send_def)
        next
          case False
          then show ?thesis by (intro fld) (use assms in \<open>simp only: sel pct nomod num\<close>)
        qed
      qed
    qed
  qed
qed

lemma counts_sends: "pf_sends collect junk fmt pf = Some pf' \<Longrightarrow> counts pf' = counts pf"
  by (induction fmt arbitrary: pf) (auto simp: outcome_simps dest: counts_send)

text \<open>What a format and its arguments print.\<close>

definition printed :: "char list \<Rightarrow> string \<Rightarrow> va list \<Rightarrow> string option" where
  "printed junk fmt args = map_option snd (vprintf collect [] junk fmt args)"

lemma vprintf_printed: "vprintf collect [] junk fmt args = map_option (\<lambda>t. (sint (of_nat (length t) :: u32), t)) (printed junk fmt args)"
proof (cases "pf_sends collect junk fmt (pf_start [] args)")
  case (Some pf)
  have "counts (pf_start [] args)" by (simp add: pf_start_def counts_def pf_endfield_def)
  then have "charcount pf = of_nat (length (clientdata pf))" using counts_sends [OF Some] by (simp add: counts_def)
  then show ?thesis using Some by (simp add: vprintf_def printed_def)
qed (simp add: vprintf_def printed_def)

section \<open>Reading back\<close>

lemma digit_of_digit:
  assumes "k < 10"
  shows "digit_of (''0123456789abcdef'' ! k) = Some k"
proof -
  have "k = 0 \<or> k = 1 \<or> k = 2 \<or> k = 3 \<or> k = 4 \<or> k = 5 \<or> k = 6 \<or> k = 7 \<or> k = 8 \<or> k = 9" using assms by presburger
  then show ?thesis by (elim disjE) (simp_all add: digit_of_def)
qed

definition value10 :: "u32 \<Rightarrow> string \<Rightarrow> u32" where
  "value10 v s = foldl (\<lambda>v c. v * 10 + of_nat (the (digit_of c))) v s"

lemma showb10_digits: "c \<in> set (showb 10 n) \<Longrightarrow> digit_of c \<noteq> None"
proof (induction "10 :: nat" n rule: showb.induct)
  case (1 n)
  have d: "digit_of (''0123456789abcdef'' ! (n mod 10)) \<noteq> None" using digit_of_digit [of "n mod 10"] by simp
  show ?case
  proof (cases "n < 10")
    case True
    then have "showb 10 n = [''0123456789abcdef'' ! (n mod 10)]" by (subst showb.simps) simp
    then show ?thesis using 1(2) d by simp
  next
    case False
    then have "showb 10 n = showb 10 (n div 10) @ [''0123456789abcdef'' ! (n mod 10)]" by (subst showb.simps) simp
    then have "c \<in> set (showb 10 (n div 10)) \<or> c = ''0123456789abcdef'' ! (n mod 10)" using 1(2) by auto
    then show ?thesis using 1(1) False d by auto
  qed
qed

lemma showb10_value: "value10 0 (showb 10 n) = of_nat n"
proof (induction "10 :: nat" n rule: showb.induct)
  case (1 n)
  have d: "the (digit_of (''0123456789abcdef'' ! (n mod 10))) = n mod 10" using digit_of_digit [of "n mod 10"] by simp
  show ?case
  proof (cases "n < 10")
    case True
    then have "showb 10 n = [''0123456789abcdef'' ! (n mod 10)]" by (subst showb.simps) simp
    then show ?thesis using d True by (simp add: value10_def del: nth_Cons_numeral)
  next
    case False
    then have "showb 10 n = showb 10 (n div 10) @ [''0123456789abcdef'' ! (n mod 10)]" by (subst showb.simps) simp
    then have "value10 0 (showb 10 n) = of_nat (n div 10) * 10 + of_nat (n mod 10)"
      using 1 False d by (simp add: value10_def)
    also have "\<dots> = of_nat (n div 10 * 10 + n mod 10)" by (simp only: of_nat_add of_nat_mult of_nat_numeral)
    finally show ?thesis by simp
  qed
qed

lemma atoi_digits_spec:
  "cstr m p s \<Longrightarrow> \<forall>c\<in>set s. digit_of c \<noteq> None \<Longrightarrow> atoi_digits v p m = Some (value10 v s)"
proof (induction s arbitrary: p v)
  case Nil
  then show ?case by (subst atoi_digits.simps) (simp add: value10_def)
next
  case (Cons c s)
  obtain d where d: "digit_of c = Some d" using Cons.prems(2) by auto
  show ?case using Cons.IH [of "p + 1" "v * 10 + of_nat d"] Cons.prems d by (subst atoi_digits.simps) (simp add: value10_def)
qed

lemma atoi_signed:
  assumes "cstr m p ((if neg then ''-'' else []) @ showb 10 n)"
  shows "atoi p m = Some (sint ((if neg then - of_nat n else of_nat n) :: u32))"
proof -
  have tail: "atoi_digits 0 q m = Some (of_nat n)" if "cstr m q (showb 10 n)" for q
    using atoi_digits_spec [OF that, of 0] showb10_digits showb10_value by auto
  show ?thesis
  proof (cases neg)
    case True
    then have "m p = CHR ''-''" "cstr m (p + 1) (showb 10 n)" using assms by simp_all
    then show ?thesis using tail True by (simp add: atoi_def skip_blanks.simps [of p])
  next
    case False
    then have s: "cstr m p (showb 10 n)" using assms by simp
    obtain c cs where c: "showb 10 n = c # cs" using showb_nonempty by (cases "showb 10 n") auto
    have "digit_of c \<noteq> None" using showb10_digits [of c n] c by simp
    then have "c \<in> set ''0123456789''" by (auto simp: digit_of_def split: if_splits)
    then have "m p \<noteq> CHR '' ''" "m p \<noteq> CHR 0x09" "m p \<noteq> CHR ''-''" "m p \<noteq> CHR ''+''" using s c by auto
    then show ?thesis using tail [OF s] False by (simp add: atoi_def skip_blanks.simps [of p])
  qed
qed

lemma sint_bounds: "- 2147483648 \<le> sint (w :: u32)" "sint (w :: u32) < 2147483648"
  using sint_greater_eq [of w] sint_less [of w] by simp_all

lemma widened:
  fixes w :: u32
  shows "sint (scast w :: u64) = sint w" "sint w < 0 \<Longrightarrow> unat (- scast w :: u64) = nat (- sint w)"
    "0 \<le> sint w \<Longrightarrow> unat (scast w :: u64) = nat (sint w)"
proof -
  have e: "(scast w :: u64) = of_int (sint w)" by simp
  have b: "- 9223372036854775808 \<le> sint w" "sint w < 9223372036854775808" using sint_bounds [of w] by simp_all
  have "sint (of_int x :: u64) = x" if "- 9223372036854775808 \<le> x" "x < 9223372036854775808" for x
    using that by (simp add: signed_of_int signed_take_bit_int_eq_self)
  then show "sint (scast w :: u64) = sint w" unfolding e using b by blast
  have u: "unat (of_int x :: u64) = nat x" if "0 \<le> x" "x < 18446744073709551616" for x
    using that by (simp add: unsigned_of_int take_bit_int_eq_self)
  show "unat (- scast w :: u64) = nat (- sint w)" if "sint w < 0" unfolding e using u [of "- sint w"] b(1) that by simp
  show "unat (scast w :: u64) = nat (sint w)" if "0 \<le> sint w" unfolding e using u [of "sint w"] b(2) that by simp
qed

lemma field_upd [simp]:
  "field (pf\<lparr>num := n\<rparr>) = field pf" "field (pf\<lparr>ap := a\<rparr>) = field pf" "field (pf\<lparr>isign := i\<rparr>) = field pf" "field (pf\<lparr>base := b\<rparr>) = field pf"
  by (simp_all add: field_def Let_def fun_eq_iff)

text \<open>The number field of a \<^verbatim>\<open>%d\<close> with its sign.\<close>

lemma print_signed:
  assumes "length junk = NUMBER_BUF_SIZE" "isize pf \<noteq> LLONGSZ" "ap pf = Word w # rest" "\<not> altformat pf" "\<not> baseprefix pf" "isign pf = 0"
  shows "do { pf \<leftarrow> pf_getnum CHR ''d'' pf; pf \<leftarrow> Some (pf_setbase CHR ''d'' pf); pf \<leftarrow> pf_printnum collect junk pf; Some (pf_endfield pf) } =
    Some (pf_endfield (add_text (field pf (if sint w < 0 then ''-'' else []) (showb 10 (nat \<bar>sint w\<bar>))) (pf\<lparr>ap := rest\<rparr>)))"
proof -
  note num = number_text_spec [of 10, OF _ _ assms(1), simplified]
  show ?thesis
  proof (cases "sint w < 0")
    case True
    have get: "pf_getnum CHR ''d'' pf = Some (pf\<lparr>isign := - 1, num := - scast w, ap := rest\<rparr>)"
      using assms(2,3) True sint_bounds(1) [of w] by (simp add: pf_getnum_def widened(1))
    show ?thesis
      using True assms(4,5) num [of "- scast w"] widened(2) [OF True]
      by (simp add: get pf_setbase_def pf_printnum_def pf_printstuff_collect) (simp add: pf_endfield_def add_text_def)
  next
    case False
    have get: "pf_getnum CHR ''d'' pf = Some (pf\<lparr>num := scast w, ap := rest\<rparr>)"
      using assms(2,3) False by (simp add: pf_getnum_def widened(1))
    show ?thesis
      using False assms(4-6) num [of "scast w"] widened(3) [of w]
      by (simp add: get pf_setbase_def pf_printnum_def pf_printstuff_collect) (simp add: pf_endfield_def add_text_def)
  qed
qed

lemma printed_d:
  assumes "length junk = NUMBER_BUF_SIZE"
  shows "printed junk ''%d'' [Word w] = Some ((if sint w < 0 then ''-'' else []) @ showb 10 (nat \<bar>sint w\<bar>))"
proof -
  let ?pf = "(pf_start ([] :: string) [Word w])\<lparr>in_pct := True\<rparr>"
  have s: "isize ?pf \<noteq> LLONGSZ" "ap ?pf = [Word w]" "\<not> altformat ?pf" "\<not> baseprefix ?pf" "isign ?pf = 0" "\<not> in_pct (pf_start ([] :: string) [Word w])"
    "clientdata ?pf = []" "spacing ?pf = 0" "\<not> rightspc ?pf"
    by (simp_all add: pf_start_def pf_endfield_def)
  have "pf_sends collect junk ''%d'' (pf_start [] [Word w]) = do {
      pf \<leftarrow> pf_getnum CHR ''d'' ?pf; pf \<leftarrow> Some (pf_setbase CHR ''d'' pf); pf \<leftarrow> pf_printnum collect junk pf; Some (pf_endfield pf) }"
    using s(6) by (simp add: pf_send_def)
  also note print_signed [OF assms s(1-5)]
  finally show ?thesis
    by (simp add: printed_def vprintf_def field_def Let_def del: pf_sends.simps) (simp add: pf_endfield_def pf_start_def)
qed

section \<open>Properties\<close>

text \<open>C39: the conversion of a 64-bit number to octal, decimal or hexadecimal never leaves its buffer of 23 bytes, and
  gives the digits of the number.\<close>

theorem printf_number:
  assumes "b \<in> {8, 10, 16}" "length junk = NUMBER_BUF_SIZE"
  shows "number_text junk (of_nat b) n = Some (showb b (unat n)) \<and> length (showb b (unat n)) < NUMBER_BUF_SIZE"
proof -
  have b: "8 \<le> b" "b \<le> 16" using assms(1) by auto
  have "unat n < 2 ^ 64" using unsigned_less [of n, where 'a = nat] by simp
  also have "(2 :: nat) ^ 64 \<le> 8 ^ 22" by simp
  also have "(8 :: nat) ^ 22 \<le> b ^ 22" using b(1) by (rule power_mono) simp
  finally have "length (showb b (unat n)) \<le> 22" using b(1) by (intro showb_length) simp_all
  then show ?thesis using number_text_spec [OF b assms(2)] by simp
qed

theorem printf_number_witness: "number_text (replicate 23 CHR ''?'') 8 64 = Some ''100''"
  using printf_number [of 8 "replicate 23 CHR ''?''" 64] by (simp add: showb.simps [of 8])

text \<open>C17: printing into a buffer stores as much of the text as fits, ends it with a null character and leaves the rest of
  the buffer alone, and returns the length of the whole text; with a length of 0 it writes nothing.\<close>

theorem vsnprintf_stores:
  assumes "len \<le> length buf"
  shows "vsnprintf buf len junk fmt args = map_option (\<lambda>t. (sint (of_nat (length t) :: u32),
    if len = 0 then buf else take (len - 1) t @ NUL # drop (length (take (len - 1) t) + 1) buf)) (printed junk fmt args)"
proof -
  have init: "\<lparr>sbuf = buf, buflen = (if len = 0 then 0 else len - 1), bufpos = 0\<rparr> = stored buf (len - 1) []"
    using assms by (auto simp: stored_def Let_def)
  have fin: "(if 0 < len then wr (sbuf (stored buf (len - 1) t)) (bufpos (stored buf (len - 1) t)) NUL else Some (sbuf (stored buf (len - 1) t))) =
      Some (if len = 0 then buf else take (len - 1) t @ NUL # drop (length (take (len - 1) t) + 1) buf)" for t
  proof (cases "len = 0")
    case True
    then show ?thesis by (simp add: stored_def Let_def)
  next
    case False
    let ?u = "take (len - 1) t"
    have m: "min (len - 1) (length buf) = len - 1" using assms by simp
    have l: "length ?u < length buf" using assms False by simp
    have "sbuf (stored buf (len - 1) t) = ?u @ drop (length ?u) buf" "bufpos (stored buf (len - 1) t) = length ?u"
      unfolding stored_def Let_def m by (simp_all add: min.commute)
    moreover have "(?u @ drop (length ?u) buf)[length ?u := NUL] = ?u @ NUL # drop (length ?u + 1) buf"
      using l by (simp add: list_update_append upd_conv_take_nth_drop)
    ultimately show ?thesis using False l by (simp add: wr_def)
  qed
  show ?thesis
    unfolding vsnprintf_def init Option.bind.simps snp.vprintf_sink vprintf_printed
    by (cases "printed junk fmt args") (simp_all only: option.map Option.bind.simps prod.case fin)
qed

theorem vsnprintf_stores_witness:
  "vsnprintf (replicate 4 CHR ''?'') 4 (replicate 23 NUL) ''%d'' [Word 12345] = Some (5, ''123'' @ [NUL])"
proof -
  have "printed (replicate 23 NUL) ''%d'' [Word 12345] = Some ''12345''"
    by (simp add: printed_d showb.simps [of 10])
  then show ?thesis using vsnprintf_stores [of 4 "replicate 4 CHR ''?''" "replicate 23 NUL" "''%d''" "[Word 12345]"] by simp
qed

text \<open>C40: a number printed with \<^verbatim>\<open>%d\<close> and read with \<^verbatim>\<open>atoi\<close> is the same number, for every value of an \<^verbatim>\<open>int\<close>.\<close>

theorem printf_atoi:
  assumes "length junk = NUMBER_BUF_SIZE"
  shows "\<exists>t. printed junk ''%d'' [Word w] = Some t \<and> (\<forall>m p. cstr m p t \<longrightarrow> atoi p m = Some (sint w))"
proof -
  have neg: "(if sint w < 0 then - of_nat (nat \<bar>sint w\<bar>) else of_nat (nat \<bar>sint w\<bar>) :: u32) = w" by simp
  have "atoi p m = Some (sint w)" if "cstr m p ((if sint w < 0 then ''-'' else []) @ showb 10 (nat \<bar>sint w\<bar>))" for m p
    using atoi_signed [OF that] unfolding neg .
  then show ?thesis using printed_d [OF assms, of w] by blast
qed

theorem printf_atoi_witness:
  "\<exists>t. printed (replicate 23 NUL) ''%d'' [Word 0x80000000] = Some t \<and> (\<forall>m p. cstr m p t \<longrightarrow> atoi p m = Some (- 2147483648))"
  using printf_atoi [of "replicate 23 NUL" "0x80000000"] by simp

text \<open>Left alignment does not override zero padding: with both flags the zeros follow the digits, and 5 printed with
  \<^verbatim>\<open>%-02d\<close> reads 50.\<close>

theorem printf_zeros_right: "printed (replicate 23 NUL) ''%-02d'' [Word 5] = Some ''50''"
proof -
  let ?pf = "(pf_start ([] :: string) [Word 5])\<lparr>in_pct := True, rightspc := True, fillchar := CHR ''0'', spacing := 2\<rparr>"
  have s: "isize ?pf \<noteq> LLONGSZ" "ap ?pf = [Word 5]" "\<not> altformat ?pf" "\<not> baseprefix ?pf" "isign ?pf = 0"
    by (simp_all add: pf_start_def pf_endfield_def)
  have "pf_sends collect (replicate 23 NUL) ''%-02d'' (pf_start [] [Word 5]) = do {
      pf \<leftarrow> pf_getnum CHR ''d'' ?pf; pf \<leftarrow> Some (pf_setbase CHR ''d'' pf); pf \<leftarrow> pf_printnum collect (replicate 23 NUL) pf; Some (pf_endfield pf) }"
    by (simp add: pf_send_def pf_modifier_def set_spacing_def pf_start_def pf_endfield_def)
  also note print_signed [OF _ s, of "replicate 23 NUL"]
  finally show ?thesis
    by (simp add: printed_def vprintf_def field_def Let_def showb.simps [of 10] del: pf_sends.simps) (simp add: pf_endfield_def pf_start_def)
qed

end
