(* ===== verification/User_Copy.thy ===== *)
theory User_Copy
  imports C_String
begin

text \<open>
  \<^verbatim>\<open>kern/vm/copyinout.c\<close> and \<^verbatim>\<open>kern/lib/uio.c\<close>: copying between a user program and the kernel.  The whole address space is
  one memory of characters, user space below \<^verbatim>\<open>USERSPACETOP\<close>.  Which user addresses can be loaded from and stored to,
  after the VM system has done its work, is an argument; kernel addresses can always be reached.  A fault on an address
  that cannot is a jump to the recovery function if one is installed, and the end of the kernel otherwise.
\<close>

section \<open>Definitions\<close>

abbreviation (input) USERSPACETOP :: nat where "USERSPACETOP \<equiv> 0x80000000"

datatype access = Load | Store

type_synonym user_access = "access \<Rightarrow> nat \<Rightarrow> bool"

definition reach :: "user_access \<Rightarrow> access \<Rightarrow> nat \<Rightarrow> bool" where
  "reach acc k a \<longleftrightarrow> USERSPACETOP \<le> a \<or> acc k a"

record kmach =
  kmem :: cmem
  tm_badfaultfunc :: bool

text \<open>The second component is \<^verbatim>\<open>*stoplen\<close>.\<close>

definition copycheck :: "nat \<Rightarrow> nat \<Rightarrow> errno \<times> nat" where
  "copycheck base len =
     (let final = usub (u32 (base + len)) 1 in
      if final < base then (EFAULT, len)
      else if base \<ge> USERSPACETOP then (EFAULT, len)
      else if final \<ge> USERSPACETOP then (0, USERSPACETOP - base)
      else (0, len))"

text \<open>\<^verbatim>\<open>memcpy\<close> under the recovery function: it stops at the first byte that cannot be reached, and what it has copied
  stays.  Protection is by page, so copying by words stops at the same byte.  The first component tells whether
  \<^verbatim>\<open>copyfail\<close> has run and \<^verbatim>\<open>setjmp\<close> returns a second time.\<close>

definition first_fault :: "user_access \<Rightarrow> nat \<Rightarrow> nat \<Rightarrow> nat \<Rightarrow> nat option" where
  "first_fault acc dst src len =
     List.find (\<lambda>i. \<not> (reach acc Load (src + i) \<and> reach acc Store (dst + i))) [0..<len]"

definition guarded_memcpy :: "user_access \<Rightarrow> nat \<Rightarrow> nat \<Rightarrow> nat \<Rightarrow> kmach \<Rightarrow> (bool \<times> kmach) option" where
  "guarded_memcpy acc dst src len st =
     (case first_fault acc dst src len of
        None \<Rightarrow> Some (False, st\<lparr>kmem := snd (memcpy dst src len (kmem st))\<rparr>)
      | Some i \<Rightarrow> do {
          KASSERT (tm_badfaultfunc st);
          Some (True, st\<lparr>kmem := snd (memcpy dst src i (kmem st))\<rparr>)
        })"

definition copyin :: "user_access \<Rightarrow> nat \<Rightarrow> nat \<Rightarrow> nat \<Rightarrow> kmach \<Rightarrow> (errno \<times> kmach) option" where
  "copyin acc usersrc dest len st =
     (let (result, stoplen) = copycheck usersrc len in
      if result \<noteq> 0 then Some (result, st)
      else if stoplen \<noteq> len then Some (EFAULT, st)
      else do {
        (jumped, st) \<leftarrow> guarded_memcpy acc dest usersrc len (st\<lparr>tm_badfaultfunc := True\<rparr>);
        if jumped then Some (EFAULT, st\<lparr>tm_badfaultfunc := False\<rparr>)
        else Some (0, st\<lparr>tm_badfaultfunc := False\<rparr>)
      })"

definition copyout :: "user_access \<Rightarrow> nat \<Rightarrow> nat \<Rightarrow> nat \<Rightarrow> kmach \<Rightarrow> (errno \<times> kmach) option" where
  "copyout acc src userdest len st =
     (let (result, stoplen) = copycheck userdest len in
      if result \<noteq> 0 then Some (result, st)
      else if stoplen \<noteq> len then Some (EFAULT, st)
      else do {
        (jumped, st) \<leftarrow> guarded_memcpy acc userdest src len (st\<lparr>tm_badfaultfunc := True\<rparr>);
        if jumped then Some (EFAULT, st\<lparr>tm_badfaultfunc := False\<rparr>)
        else Some (0, st\<lparr>tm_badfaultfunc := False\<rparr>)
      })"

text \<open>The loop of \<^verbatim>\<open>copystr\<close>.  The first component is the result and \<^verbatim>\<open>*gotlen\<close> if it was stored, or \<open>None\<close> after a jump.\<close>

function copystr :: "user_access \<Rightarrow> nat \<Rightarrow> nat \<Rightarrow> nat \<Rightarrow> nat \<Rightarrow> nat \<Rightarrow> kmach \<Rightarrow> ((errno \<times> nat option) option \<times> kmach) option" where
  "copystr acc i dest src maxlen stoplen st =
     (if i < maxlen \<and> i < stoplen then
        if \<not> (reach acc Load (src + i) \<and> reach acc Store (dest + i)) then do {
          KASSERT (tm_badfaultfunc st);
          Some (None, st)
        }
        else do {
          let st = st\<lparr>kmem := (kmem st)(dest + i := kmem st (src + i))\<rparr>;
          if kmem st (src + i) = NUL then Some (Some (0, Some (i + 1)), st)
          else copystr acc (i + 1) dest src maxlen stoplen st
        }
      else if stoplen < maxlen then Some (Some (EFAULT, None), st)
      else Some (Some (ENAMETOOLONG, None), st))"
  by pat_completeness auto
termination by (relation "measure (\<lambda>(acc, i, dest, src, maxlen, stoplen, st). maxlen - i)") auto

declare copystr.simps [simp del]

text \<open>The second component is \<^verbatim>\<open>*actual\<close> if it was stored.\<close>

definition copyinstr :: "user_access \<Rightarrow> nat \<Rightarrow> nat \<Rightarrow> nat \<Rightarrow> kmach \<Rightarrow> (errno \<times> nat option \<times> kmach) option" where
  "copyinstr acc usersrc dest len st =
     (let (result, stoplen) = copycheck usersrc len in
      if result \<noteq> 0 then Some (result, None, st)
      else do {
        (r, st) \<leftarrow> copystr acc 0 dest usersrc len stoplen (st\<lparr>tm_badfaultfunc := True\<rparr>);
        case r of
          None \<Rightarrow> Some (EFAULT, None, st\<lparr>tm_badfaultfunc := False\<rparr>)
        | Some (result, actual) \<Rightarrow> Some (result, actual, st\<lparr>tm_badfaultfunc := False\<rparr>)
      })"

definition copyoutstr :: "user_access \<Rightarrow> nat \<Rightarrow> nat \<Rightarrow> nat \<Rightarrow> kmach \<Rightarrow> (errno \<times> nat option \<times> kmach) option" where
  "copyoutstr acc src userdest len st =
     (let (result, stoplen) = copycheck userdest len in
      if result \<noteq> 0 then Some (result, None, st)
      else do {
        (r, st) \<leftarrow> copystr acc 0 userdest src len stoplen (st\<lparr>tm_badfaultfunc := True\<rparr>);
        case r of
          None \<Rightarrow> Some (EFAULT, None, st\<lparr>tm_badfaultfunc := False\<rparr>)
        | Some (result, actual) \<Rightarrow> Some (result, actual, st\<lparr>tm_badfaultfunc := False\<rparr>)
      })"

text \<open>\<^verbatim>\<open>struct iovec\<close> and \<^verbatim>\<open>struct uio\<close>.  The list holds the blocks from \<^verbatim>\<open>uio_iov\<close> on.\<close>

record iovec =
  iov_base :: nat
  iov_len :: nat

datatype uio_rw = UIO_READ | UIO_WRITE

datatype uio_seg = UIO_USERISPACE | UIO_USERSPACE | UIO_SYSSPACE

record uio =
  uio_iov :: "iovec list"
  uio_iovcnt :: nat
  uio_offset :: int
  uio_resid :: nat
  uio_segflg :: uio_seg
  uio_rw :: uio_rw
  uio_space :: "nat option"

text \<open>The transfer of one piece: what \<^verbatim>\<open>switch (uio->uio_segflg)\<close> does.\<close>

definition uio_piece :: "user_access \<Rightarrow> uio_seg \<Rightarrow> uio_rw \<Rightarrow> nat \<Rightarrow> nat \<Rightarrow> nat \<Rightarrow> kmach \<Rightarrow> (errno \<times> kmach) option" where
  "uio_piece acc seg rw base ptr sz st =
     (case seg of
        UIO_SYSSPACE \<Rightarrow>
          (case rw of
             UIO_READ \<Rightarrow> Some (0, st\<lparr>kmem := snd (memmove base ptr sz (kmem st))\<rparr>)
           | UIO_WRITE \<Rightarrow> Some (0, st\<lparr>kmem := snd (memmove ptr base sz (kmem st))\<rparr>))
      | _ \<Rightarrow>
          (case rw of
             UIO_READ \<Rightarrow> copyout acc ptr base sz st
           | UIO_WRITE \<Rightarrow> copyin acc base ptr sz st))"

function uiomove_loop :: "user_access \<Rightarrow> nat \<Rightarrow> nat \<Rightarrow> uio \<Rightarrow> kmach \<Rightarrow> (errno \<times> uio \<times> kmach) option" where
  "uiomove_loop acc ptr n u st =
     (if n > 0 \<and> uio_resid u > 0 then
        case uio_iov u of
          [] \<Rightarrow> None
        | iov # rest \<Rightarrow>
            let sz = (if iov_len iov > n then n else iov_len iov) in
            if sz = 0 then do {
              let u = u\<lparr>uio_iov := rest, uio_iovcnt := usub (uio_iovcnt u) 1\<rparr>;
              KASSERT (uio_iovcnt u \<noteq> 0);
              uiomove_loop acc ptr n u st
            }
            else do {
              (result, st) \<leftarrow> uio_piece acc (uio_segflg u) (uio_rw u) (iov_base iov) ptr sz st;
              if result \<noteq> 0 then Some (result, u, st)
              else uiomove_loop acc (ptr + sz) (n - sz)
                (u\<lparr>uio_iov := iov\<lparr>iov_base := iov_base iov + sz, iov_len := iov_len iov - sz\<rparr> # rest,
                   uio_resid := usub (uio_resid u) sz, uio_offset := uio_offset u + int sz\<rparr>) st
            }
      else Some (0, u, st))"
  by pat_completeness auto
termination
  by (relation "measures [\<lambda>(acc, ptr, n, u, st). n, \<lambda>(acc, ptr, n, u, st). length (uio_iov u)]")
    (auto split: if_splits)

declare uiomove_loop.simps [simp del]

text \<open>\<open>space\<close> is \<^verbatim>\<open>curthread->t_addrspace\<close>.\<close>

definition uiomove :: "user_access \<Rightarrow> nat option \<Rightarrow> nat \<Rightarrow> nat \<Rightarrow> uio \<Rightarrow> kmach \<Rightarrow> (errno \<times> uio \<times> kmach) option" where
  "uiomove acc space ptr n u st = do {
     KASSERT (if uio_segflg u = UIO_SYSSPACE then uio_space u = None else uio_space u = space);
     uiomove_loop acc ptr n u st
   }"

text \<open>\<open>zeros\<close> is the address of the static array of 16 null characters.\<close>

function uiomovezeros_loop :: "user_access \<Rightarrow> nat option \<Rightarrow> nat \<Rightarrow> nat \<Rightarrow> uio \<Rightarrow> kmach \<Rightarrow> (errno \<times> uio \<times> kmach) option" where
  "uiomovezeros_loop acc space zeros n u st =
     (if n > 0 then do {
        let amt = (if 16 > n then n else 16);
        (result, u, st) \<leftarrow> uiomove acc space zeros amt u st;
        if result \<noteq> 0 then Some (result, u, st)
        else uiomovezeros_loop acc space zeros (n - amt) u st
      }
      else Some (0, u, st))"
  by pat_completeness auto
termination by (relation "measure (\<lambda>(acc, space, zeros, n, u, st). n)") (auto split: if_splits)

declare uiomovezeros_loop.simps [simp del]

definition uiomovezeros :: "user_access \<Rightarrow> nat option \<Rightarrow> nat \<Rightarrow> nat \<Rightarrow> uio \<Rightarrow> kmach \<Rightarrow> (errno \<times> uio \<times> kmach) option" where
  "uiomovezeros acc space zeros n u st = do {
     KASSERT (uio_rw u = UIO_READ);
     uiomovezeros_loop acc space zeros n u st
   }"

definition uio_kinit :: "nat \<Rightarrow> nat \<Rightarrow> int \<Rightarrow> uio_rw \<Rightarrow> uio" where
  "uio_kinit kbuf len pos rw =
     \<lparr>uio_iov = [\<lparr>iov_base = kbuf, iov_len = len\<rparr>], uio_iovcnt = 1, uio_offset = pos, uio_resid = len,
      uio_segflg = UIO_SYSSPACE, uio_rw = rw, uio_space = None\<rparr>"

section \<open>Blocks\<close>

text \<open>A block of user space that can be read or written as a whole.\<close>

definition user_range :: "user_access \<Rightarrow> access \<Rightarrow> nat \<Rightarrow> nat \<Rightarrow> bool" where
  "user_range acc k p len \<longleftrightarrow> 0 < len \<and> p + len \<le> USERSPACETOP \<and> (\<forall>i<len. acc k (p + i))"

lemma user_range_le: "user_range acc k p len \<Longrightarrow> p + len \<le> USERSPACETOP"
  by (simp add: user_range_def)

lemma copycheck_cases:
  assumes "base < 4294967296" "len < 4294967296" "0 < len"
  shows "copycheck base len =
    (if base + len \<le> USERSPACETOP then (0, len)
     else if base < USERSPACETOP \<and> base + len \<le> 4294967296 then (0, USERSPACETOP - base)
     else (EFAULT, len))"
proof -
  consider (low) "base + len < 4294967296" | (edge) "base + len = 4294967296" | (wrap) "4294967296 < base + len"
    by linarith
  then show ?thesis
  proof cases
    case low
    then show ?thesis using assms by (auto simp: copycheck_def Let_def)
  next
    case edge
    then have "usub (u32 (base + len)) 1 = 4294967295" by (simp add: usub_def u32_def)
    then show ?thesis using assms edge by (auto simp: copycheck_def Let_def)
  next
    case wrap
    then have "u32 (base + len) = base + len - 4294967296" using assms by (simp add: u32_def le_mod_geq)
    moreover have "usub (base + len - 4294967296) 1 = base + len - 4294967297" using assms wrap by simp
    ultimately show ?thesis using assms wrap by (auto simp: copycheck_def Let_def)
  qed
qed

lemma copycheck_empty: "base < 4294967296 \<Longrightarrow> fst (copycheck base 0) \<noteq> 0 \<or> snd (copycheck base 0) \<noteq> 0"
proof (cases "base = 0")
  case False
  then have "usub base 1 = base - 1" "u32 base = base" if "base < 4294967296" using that by auto
  then show "base < 4294967296 \<Longrightarrow> ?thesis" using False by (auto simp: copycheck_def Let_def)
qed (simp add: copycheck_def Let_def usub_def u32_def)

lemma copycheck_whole:
  assumes "base < 4294967296" "len < 4294967296"
  shows "copycheck base len = (0, len) \<longleftrightarrow> 0 < len \<and> base + len \<le> USERSPACETOP"
proof (cases "len = 0")
  case True
  then show ?thesis using copycheck_empty [OF assms(1)] by auto
next
  case False
  then show ?thesis using copycheck_cases [OF assms] by auto
qed

lemma first_fault_None:
  "first_fault acc dst src len = None \<longleftrightarrow> (\<forall>i<len. reach acc Load (src + i) \<and> reach acc Store (dst + i))"
  by (auto simp: first_fault_def find_None_iff)

lemma first_fault_Some: "first_fault acc dst src len = Some i \<Longrightarrow> i < len"
  by (auto simp: first_fault_def find_Some_iff)

text \<open>Copying between two blocks that do not overlap the wrong way, with the recovery function installed.\<close>

lemma guarded_memcpy_spec:
  assumes "tm_badfaultfunc st" "dst \<le> src \<or> src + len \<le> dst"
  shows "\<exists>k\<le>len. guarded_memcpy acc dst src len st =
      Some (first_fault acc dst src len \<noteq> None, st\<lparr>kmem := copied dst src k (kmem st)\<rparr>) \<and>
      (first_fault acc dst src len = None \<longrightarrow> k = len)"
proof (cases "first_fault acc dst src len")
  case None
  then show ?thesis using assms memcpy_spec [OF assms(2)] by (auto simp: guarded_memcpy_def)
next
  case (Some i)
  then have "i < len" by (rule first_fault_Some)
  then have "memcpy dst src i (kmem st) = (dst, copied dst src i (kmem st))"
    using assms(2) by (intro memcpy_spec) auto
  then show ?thesis using assms(1) Some \<open>i < len\<close> by (auto simp: guarded_memcpy_def intro!: exI [of _ i])
qed

lemma copyin_spec:
  assumes "\<not> tm_badfaultfunc st" "USERSPACETOP \<le> dest" "usersrc < 4294967296" "len < 4294967296"
  shows "\<exists>k\<le>len. copyin acc usersrc dest len st =
      Some (if user_range acc Load usersrc len then 0 else EFAULT, st\<lparr>kmem := copied dest usersrc k (kmem st)\<rparr>) \<and>
      (user_range acc Load usersrc len \<longrightarrow> k = len)"
proof (cases "copycheck usersrc len = (0, len)")
  case False
  then have "\<not> user_range acc Load usersrc len" using copycheck_whole [OF assms(3,4)] by (auto simp: user_range_def)
  then show ?thesis using False by (auto simp: copyin_def copycheck_def Let_def intro!: exI [of _ 0])
next
  case True
  then have r: "0 < len" "usersrc + len \<le> USERSPACETOP" using copycheck_whole [OF assms(3,4)] by auto
  have f: "first_fault acc dest usersrc len = None \<longleftrightarrow> user_range acc Load usersrc len"
    using r assms(2) by (auto simp: first_fault_None user_range_def reach_def)
  obtain k where "k \<le> len" "guarded_memcpy acc dest usersrc len (st\<lparr>tm_badfaultfunc := True\<rparr>) =
      Some (first_fault acc dest usersrc len \<noteq> None, st\<lparr>tm_badfaultfunc := True, kmem := copied dest usersrc k (kmem st)\<rparr>)"
      "first_fault acc dest usersrc len = None \<longrightarrow> k = len"
    using guarded_memcpy_spec [of "st\<lparr>tm_badfaultfunc := True\<rparr>" dest usersrc len acc] r assms(2) by auto
  then show ?thesis using True assms(1) f by (auto simp: copyin_def intro!: exI [of _ k])
qed

lemma copyout_spec:
  assumes "\<not> tm_badfaultfunc st" "USERSPACETOP \<le> src" "userdest < 4294967296" "len < 4294967296"
  shows "\<exists>k\<le>len. copyout acc src userdest len st =
      Some (if user_range acc Store userdest len then 0 else EFAULT, st\<lparr>kmem := copied userdest src k (kmem st)\<rparr>) \<and>
      (user_range acc Store userdest len \<longrightarrow> k = len) \<and> (0 < k \<longrightarrow> userdest + len \<le> USERSPACETOP)"
proof (cases "copycheck userdest len = (0, len)")
  case False
  then have "\<not> user_range acc Store userdest len" using copycheck_whole [OF assms(3,4)] by (auto simp: user_range_def)
  then show ?thesis using False by (auto simp: copyout_def copycheck_def Let_def intro!: exI [of _ 0])
next
  case True
  then have r: "0 < len" "userdest + len \<le> USERSPACETOP" using copycheck_whole [OF assms(3,4)] by auto
  have f: "first_fault acc userdest src len = None \<longleftrightarrow> user_range acc Store userdest len"
    using r assms(2) by (auto simp: first_fault_None user_range_def reach_def)
  obtain k where "k \<le> len" "guarded_memcpy acc userdest src len (st\<lparr>tm_badfaultfunc := True\<rparr>) =
      Some (first_fault acc userdest src len \<noteq> None, st\<lparr>tm_badfaultfunc := True, kmem := copied userdest src k (kmem st)\<rparr>)"
      "first_fault acc userdest src len = None \<longrightarrow> k = len"
    using guarded_memcpy_spec [of "st\<lparr>tm_badfaultfunc := True\<rparr>" userdest src len acc] r assms(2) by auto
  then show ?thesis using True assms(1) f r by (auto simp: copyout_def intro!: exI [of _ k])
qed

section \<open>Strings\<close>

text \<open>Where the loop of \<^verbatim>\<open>copystr\<close> stops early: at a byte that cannot be reached, or at the terminator.\<close>

definition stops_at :: "user_access \<Rightarrow> cmem \<Rightarrow> nat \<Rightarrow> nat \<Rightarrow> nat \<Rightarrow> bool" where
  "stops_at acc m dest src j \<longleftrightarrow> \<not> (reach acc Load (src + j) \<and> reach acc Store (dest + j)) \<or> m (src + j) = NUL"

text \<open>The outcome, from the place where it stops.\<close>

fun copystr_stop :: "user_access \<Rightarrow> nat \<Rightarrow> errno \<Rightarrow> nat \<Rightarrow> nat \<Rightarrow> cmem \<Rightarrow> kmach \<Rightarrow> nat option \<Rightarrow>
    (errno \<times> nat option) option \<times> kmach" where
  "copystr_stop acc len full dest src m st None = (Some (full, None), st\<lparr>kmem := copied dest src len m\<rparr>)"
| "copystr_stop acc len full dest src m st (Some n) =
     (if reach acc Load (src + n) \<and> reach acc Store (dest + n)
      then (Some (0, Some (n + 1)), st\<lparr>kmem := copied dest src (n + 1) m\<rparr>)
      else (None, st\<lparr>kmem := copied dest src n m\<rparr>))"

lemma copied_Suc:
  "dest \<le> src \<or> src + i < dest \<Longrightarrow>
   (copied dest src i m)(dest + i := copied dest src i m (src + i)) = copied dest src (Suc i) m"
  by (auto simp: copied_def fun_eq_iff)

lemma copystr_spec:
  assumes "dest \<le> src \<or> src + min maxlen stoplen \<le> dest" "i \<le> min maxlen stoplen"
    "st = st0\<lparr>kmem := copied dest src i m\<rparr>" "tm_badfaultfunc st0"
  shows "copystr acc i dest src maxlen stoplen st =
    Some (copystr_stop acc (min maxlen stoplen) (if stoplen < maxlen then EFAULT else ENAMETOOLONG) dest src m st0
      (List.find (stops_at acc m dest src) [i..<min maxlen stoplen]))"
  using assms
proof (induction acc i dest src maxlen stoplen st arbitrary: rule: copystr.induct)
  case (1 acc i dest src maxlen stoplen st)
  show ?case
  proof (cases "i < min maxlen stoplen")
    case False
    then have "min maxlen stoplen = i" using "1.prems"(2) by linarith
    then show ?thesis using "1.prems"(3) by (auto simp: copystr.simps [of acc i] min_def split: if_splits)
  next
    case True
    then have u: "[i..<min maxlen stoplen] = i # [Suc i..<min maxlen stoplen]" by (rule upt_conv_Cons)
    have d: "dest \<le> src \<or> src + i < dest" using "1.prems"(1) True by linarith
    have keep: "copied dest src k m (src + i) = m (src + i)" if "k \<le> Suc i" for k
    proof -
      have "dest = src" if "src + i < dest + k" "dest \<le> src" using that \<open>k \<le> Suc i\<close> by linarith
      then show ?thesis using d by (auto simp: copied_def)
    qed
    show ?thesis
    proof (cases "reach acc Load (src + i) \<and> reach acc Store (dest + i)")
      case False
      then show ?thesis using "1.prems" True u by (auto simp: copystr.simps [of acc i] stops_at_def)
    next
      case reached: True
      have st: "st\<lparr>kmem := (kmem st)(dest + i := kmem st (src + i))\<rparr> = st0\<lparr>kmem := copied dest src (i + 1) m\<rparr>"
        using "1.prems"(3) copied_Suc [OF d, of m] by simp
      show ?thesis
      proof (cases "m (src + i) = NUL")
        case True
        then show ?thesis
          using \<open>i < min maxlen stoplen\<close> reached u
          by (simp add: copystr.simps [of acc i] Let_def st keep stops_at_def [of acc m dest src i])
      next
        case False
        have "copystr acc (i + 1) dest src maxlen stoplen (st0\<lparr>kmem := copied dest src (i + 1) m\<rparr>) =
            Some (copystr_stop acc (min maxlen stoplen) (if stoplen < maxlen then EFAULT else ENAMETOOLONG) dest src m st0
              (List.find (stops_at acc m dest src) [i + 1..<min maxlen stoplen]))"
        proof (rule "1.IH" [OF _ _ st [symmetric]])
          show "kmem (st0\<lparr>kmem := copied dest src (i + 1) m\<rparr>) (src + i) \<noteq> NUL" using False keep [of "Suc i"] by simp
        qed (use "1.prems" reached \<open>i < min maxlen stoplen\<close> in auto)
        then show ?thesis
          using \<open>i < min maxlen stoplen\<close> reached u False
          by (simp add: copystr.simps [of acc i] Let_def st keep stops_at_def [of acc m dest src i])
      qed
    qed
  qed
qed

lemma find_upt_Some: "List.find P [0..<N] = Some n \<longleftrightarrow> n < N \<and> P n \<and> (\<forall>j<n. \<not> P j)"
  by (auto simp: find_Some_iff)

lemma find_upt_None: "List.find P [0..<N] = None \<longleftrightarrow> (\<forall>j<N. \<not> P j)"
  by (auto simp: find_None_iff)

text \<open>The string that ends at the first null character.\<close>

lemma cstr_prefix:
  assumes "m (p + n) = NUL" "\<forall>j<n. m (p + j) \<noteq> NUL"
  shows "cstr m p (map m [p..<p + n])"
  using assms by (auto simp: cstr_iff)

lemma cstr_length_unique: "cstr m p s \<Longrightarrow> m (p + n) = NUL \<Longrightarrow> \<forall>j<n. m (p + j) \<noteq> NUL \<Longrightarrow> length s = n"
  using cstr_unique [OF _ cstr_prefix, of m p s n] by auto

text \<open>The length that may be looked at, and the error when it is exhausted.\<close>

definition str_room :: "nat \<Rightarrow> nat \<Rightarrow> nat" where
  "str_room base len = min len (USERSPACETOP - base)"

lemma copyinstr_eq:
  assumes "\<not> tm_badfaultfunc st" "USERSPACETOP \<le> dest" "usersrc < USERSPACETOP" "usersrc + len \<le> 4294967296" "0 < len"
    "len < 4294967296"
  defines "full \<equiv> if usersrc + len \<le> USERSPACETOP then ENAMETOOLONG else EFAULT"
  shows "copyinstr acc usersrc dest len st =
    (case copystr_stop acc (str_room usersrc len) full dest usersrc (kmem st) st
        (List.find (stops_at acc (kmem st) dest usersrc) [0..<str_room usersrc len]) of
       (None, st) \<Rightarrow> Some (EFAULT, None, st)
     | (Some (result, actual), st) \<Rightarrow> Some (result, actual, st))"
proof -
  define stoplen where "stoplen = (if usersrc + len \<le> USERSPACETOP then len else USERSPACETOP - usersrc)"
  have room: "min len stoplen = str_room usersrc len" "(if stoplen < len then EFAULT else ENAMETOOLONG) = full"
    using assms(3) by (auto simp: stoplen_def str_room_def full_def)
  have chk: "copycheck usersrc len = (0, stoplen)"
    using copycheck_cases [of usersrc len] assms by (auto simp: stoplen_def)
  have fits: "usersrc + min len stoplen \<le> dest"
    using assms(2,3) by (auto simp: stoplen_def min_def)
  have cpy: "copystr acc 0 dest usersrc len stoplen (st\<lparr>tm_badfaultfunc := True\<rparr>) =
      Some (copystr_stop acc (str_room usersrc len) full dest usersrc (kmem st) (st\<lparr>tm_badfaultfunc := True\<rparr>)
        (List.find (stops_at acc (kmem st) dest usersrc) [0..<str_room usersrc len]))"
    unfolding room [symmetric] by (rule copystr_spec) (use fits in auto)
  show ?thesis
    using assms(1) unfolding copyinstr_def chk
    by (cases "List.find (stops_at acc (kmem st) dest usersrc) [0..<str_room usersrc len]") (auto simp: cpy)
qed

text \<open>Outside user space, or around the end of the address space, nothing is copied.\<close>

lemma copyinstr_outside:
  assumes "\<not> (usersrc < USERSPACETOP \<and> usersrc + len \<le> 4294967296)" "usersrc < 4294967296" "len < 4294967296" "0 < len"
  shows "copyinstr acc usersrc dest len st = Some (EFAULT, None, st)"
  using assms copycheck_cases [of usersrc len] by (auto simp: copyinstr_def)

text \<open>What a call of \<^verbatim>\<open>copyinstr\<close> into kernel memory does, for any user address.\<close>

definition str_outcome :: "user_access \<Rightarrow> cmem \<Rightarrow> nat \<Rightarrow> nat \<Rightarrow> errno \<Rightarrow> nat option \<Rightarrow> nat \<Rightarrow> bool" where
  "str_outcome acc m p len r got k \<longleftrightarrow>
     k \<le> len \<and>
     (if \<exists>s. cstr m p s \<and> length s < len \<and> user_range acc Load p (length s + 1)
      then r = 0 \<and> got = Some k \<and> (\<exists>s. cstr m p s \<and> k = length s + 1)
      else got = None \<and>
        r = (if user_range acc Load p len \<and> (\<forall>j<len. m (p + j) \<noteq> NUL) then ENAMETOOLONG else EFAULT))"

lemma str_outcome_found:
  assumes "m (p + n) = NUL" "\<forall>j<n. m (p + j) \<noteq> NUL" "n < len" "user_range acc Load p (n + 1)"
  shows "str_outcome acc m p len 0 (Some (n + 1)) (n + 1)"
  unfolding str_outcome_def
  using assms cstr_prefix [of m p n] by (auto intro!: exI [of _ "map m [p..<p + n]"])

lemma str_outcome_missed:
  assumes "k \<le> len" "\<And>s. cstr m p s \<Longrightarrow> length s < len \<Longrightarrow> \<not> user_range acc Load p (length s + 1)"
    "r = (if user_range acc Load p len \<and> (\<forall>j<len. m (p + j) \<noteq> NUL) then ENAMETOOLONG else EFAULT)"
  shows "str_outcome acc m p len r None k"
  using assms unfolding str_outcome_def by auto

lemma copyinstr_outcome_inside:
  assumes st: "\<not> tm_badfaultfunc st" and "USERSPACETOP \<le> dest"
    and p: "p < USERSPACETOP" "p + len \<le> 4294967296" "0 < len" "len < 4294967296"
  shows "\<exists>r got k. copyinstr acc p dest len st = Some (r, got, st\<lparr>kmem := copied dest p k (kmem st)\<rparr>) \<and>
    str_outcome acc (kmem st) p len r got k"
proof -
  define m where "m = kmem st"
  have room: "str_room p len \<le> len" "p + str_room p len \<le> USERSPACETOP" using p by (auto simp: str_room_def)
  have stop: "stops_at acc m dest p j \<longleftrightarrow> \<not> acc Load (p + j) \<or> m (p + j) = NUL" if "j < str_room p len" for j
    using that room assms(2) by (auto simp: stops_at_def reach_def)
  note eq = copyinstr_eq [OF assms(1,2) p(1-4), of acc, folded m_def]
  show ?thesis
  proof (cases "List.find (stops_at acc m dest p) [0..<str_room p len]")
    case None
    then have all: "acc Load (p + j) \<and> m (p + j) \<noteq> NUL" if "j < str_room p len" for j
      using that stop unfolding find_upt_None by auto
    have miss: "\<not> user_range acc Load p (length s + 1)" if "cstr m p s" "length s < len" for s
    proof
      assume "user_range acc Load p (length s + 1)"
      then have "length s < str_room p len" using that(2) by (auto simp: str_room_def user_range_def)
      then show False using all cstr_end [OF that(1)] by auto
    qed
    have "str_outcome acc m p len (if p + len \<le> USERSPACETOP then ENAMETOOLONG else EFAULT) None (str_room p len)"
      by (rule str_outcome_missed)
        (use room miss all p in \<open>auto simp: user_range_def str_room_def min_def split: if_splits\<close>)
    moreover have "copyinstr acc p dest len st = Some (if p + len \<le> USERSPACETOP then ENAMETOOLONG else EFAULT, None,
        st\<lparr>kmem := copied dest p (str_room p len) m\<rparr>)" by (simp add: eq None)
    ultimately show ?thesis unfolding m_def by blast
  next
    case (Some n)
    then have n: "n < str_room p len" "\<not> acc Load (p + n) \<or> m (p + n) = NUL"
      "\<And>j. j < n \<Longrightarrow> acc Load (p + j) \<and> m (p + j) \<noteq> NUL"
      using stop unfolding find_upt_Some by auto
    show ?thesis
    proof (cases "acc Load (p + n)")
      case True
      then have "str_outcome acc m p len 0 (Some (n + 1)) (n + 1)"
        by (intro str_outcome_found) (use n room in \<open>auto simp: user_range_def less_Suc_eq\<close>)
      moreover have "copyinstr acc p dest len st = Some (0, Some (n + 1), st\<lparr>kmem := copied dest p (n + 1) m\<rparr>)"
        using True assms(2) by (simp add: eq Some reach_def)
      ultimately show ?thesis unfolding m_def by blast
    next
      case False
      have "\<not> user_range acc Load p (length s + 1)" if "cstr m p s" for s
      proof
        assume r: "user_range acc Load p (length s + 1)"
        have "\<not> n \<le> length s" using r False by (auto simp: user_range_def)
        then show False using n(3) [of "length s"] cstr_end [OF that] by auto
      qed
      then have "str_outcome acc m p len EFAULT None n"
        by (intro str_outcome_missed) (use n room False in \<open>auto simp: user_range_def\<close>)
      moreover have "copyinstr acc p dest len st = Some (EFAULT, None, st\<lparr>kmem := copied dest p n m\<rparr>)"
        using False n(1) room by (simp add: eq Some reach_def)
      ultimately show ?thesis unfolding m_def by blast
    qed
  qed
qed

section \<open>Scattered transfers\<close>

text \<open>The bytes that a list of blocks stands for, in order, and a well-formed \<^verbatim>\<open>struct uio\<close>.\<close>

definition iov_addrs :: "iovec list \<Rightarrow> nat list" where
  "iov_addrs vs = concat (map (\<lambda>v. [iov_base v..<iov_base v + iov_len v]) vs)"

definition uio_ok :: "uio \<Rightarrow> bool" where
  "uio_ok u \<longleftrightarrow> uio_iovcnt u = length (uio_iov u) \<and> uio_iovcnt u < 4294967296 \<and>
     uio_resid u = length (iov_addrs (uio_iov u)) \<and> uio_resid u < 4294967296 \<and>
     (uio_segflg u \<noteq> UIO_SYSSPACE \<longrightarrow> (\<forall>v\<in>set (uio_iov u). iov_base v < 4294967296))"

lemma iov_addrs_simps [simp]:
  "iov_addrs [] = []"
  "iov_addrs (v # vs) = [iov_base v..<iov_base v + iov_len v] @ iov_addrs vs"
  by (simp_all add: iov_addrs_def)

text \<open>After \<open>k\<close> more bytes have gone through it.\<close>

definition uio_moved :: "uio \<Rightarrow> uio \<Rightarrow> nat \<Rightarrow> bool" where
  "uio_moved u u' k \<longleftrightarrow> uio_ok u' \<and> iov_addrs (uio_iov u') = drop k (iov_addrs (uio_iov u)) \<and>
     uio_resid u' + k = uio_resid u \<and> uio_offset u' = uio_offset u + int k \<and>
     uio_segflg u' = uio_segflg u \<and> uio_rw u' = uio_rw u \<and> uio_space u' = uio_space u"

lemma uio_moved_refl: "uio_ok u \<Longrightarrow> uio_moved u u 0"
  by (simp add: uio_moved_def)

lemma uio_moved_trans: "uio_moved u u1 j \<Longrightarrow> uio_moved u1 u2 k \<Longrightarrow> uio_moved u u2 (j + k)"
  by (auto simp: uio_moved_def add.commute)

lemma uio_skip:
  assumes "uio_ok u" "uio_iov u = iov # rest" "iov_len iov = 0" "0 < uio_resid u"
  defines "u' \<equiv> u\<lparr>uio_iov := rest, uio_iovcnt := usub (uio_iovcnt u) 1\<rparr>"
  shows "uio_moved u u' 0" "uio_iovcnt u' \<noteq> 0"
proof -
  have c: "usub (Suc (length rest)) 1 = length rest" using assms(1,2) by (simp add: uio_ok_def)
  show "uio_moved u u' 0" using assms c by (auto simp: uio_moved_def uio_ok_def)
  show "uio_iovcnt u' \<noteq> 0" using assms c by (auto simp: uio_ok_def)
qed

lemma uio_advance:
  assumes "uio_ok u" "uio_iov u = iov # rest" "sz \<le> iov_len iov"
    "uio_segflg u \<noteq> UIO_SYSSPACE \<Longrightarrow> iov_base iov + sz < 4294967296"
  shows "uio_moved u (u\<lparr>uio_iov := iov\<lparr>iov_base := iov_base iov + sz, iov_len := iov_len iov - sz\<rparr> # rest,
    uio_resid := usub (uio_resid u) sz, uio_offset := uio_offset u + int sz\<rparr>) sz"
proof -
  have "sz \<le> uio_resid u" "uio_resid u < 2 ^ 32" using assms(1-3) by (auto simp: uio_ok_def)
  then have "usub (uio_resid u) sz = uio_resid u - sz" by simp
  then show ?thesis using assms \<open>sz \<le> uio_resid u\<close> by (auto simp: uio_moved_def uio_ok_def)
qed

text \<open>A piece that comes back with success was one the rest of the loop can go on from.\<close>

lemma uio_piece_cases:
  assumes "\<not> tm_badfaultfunc st" "sz < 4294967296"
    "seg \<noteq> UIO_SYSSPACE \<Longrightarrow> USERSPACETOP \<le> ptr \<and> base < 4294967296"
  shows "\<exists>r st'. uio_piece acc seg rw base ptr sz st = Some (r, st') \<and> (r = 0 \<or> r = EFAULT) \<and> \<not> tm_badfaultfunc st' \<and>
    (r = 0 \<and> seg \<noteq> UIO_SYSSPACE \<longrightarrow> base + sz \<le> USERSPACETOP)"
proof (cases "seg = UIO_SYSSPACE")
  case True
  then show ?thesis using assms(1) by (auto simp: uio_piece_def split: uio_rw.splits)
next
  case False
  have "\<exists>r st'. copyout acc ptr base sz st = Some (r, st') \<and> (r = 0 \<or> r = EFAULT) \<and> \<not> tm_badfaultfunc st' \<and>
      (r = 0 \<longrightarrow> base + sz \<le> USERSPACETOP)"
    using copyout_spec [of st ptr base sz acc] assms False
    by (cases "user_range acc Store base sz") (auto dest: user_range_le)
  moreover have "\<exists>r st'. copyin acc base ptr sz st = Some (r, st') \<and> (r = 0 \<or> r = EFAULT) \<and> \<not> tm_badfaultfunc st' \<and>
      (r = 0 \<longrightarrow> base + sz \<le> USERSPACETOP)"
    using copyin_spec [of st ptr base sz acc] assms False
    by (cases "user_range acc Load base sz") (auto dest: user_range_le)
  ultimately show ?thesis using False by (cases seg; cases rw) (auto simp: uio_piece_def)
qed

text \<open>The three ways a turn of the loop can go.\<close>

definition uio_next :: "uio \<Rightarrow> uio" where
  "uio_next u = u\<lparr>uio_iov := tl (uio_iov u), uio_iovcnt := usub (uio_iovcnt u) 1\<rparr>"

definition uio_past :: "nat \<Rightarrow> uio \<Rightarrow> uio" where
  "uio_past sz u = u\<lparr>uio_iov := (hd (uio_iov u))\<lparr>iov_base := iov_base (hd (uio_iov u)) + sz,
       iov_len := iov_len (hd (uio_iov u)) - sz\<rparr> # tl (uio_iov u),
     uio_resid := usub (uio_resid u) sz, uio_offset := uio_offset u + int sz\<rparr>"

lemma uiomove_loop_stop: "\<not> (0 < n \<and> 0 < uio_resid u) \<Longrightarrow> uiomove_loop acc ptr n u st = Some (0, u, st)"
  by (auto simp: uiomove_loop.simps [of acc ptr n])

lemma uiomove_loop_skip:
  assumes "0 < n" "0 < uio_resid u" "uio_iov u = iov # rest" "iov_len iov = 0" "uio_iovcnt (uio_next u) \<noteq> 0"
  shows "uiomove_loop acc ptr n u st = uiomove_loop acc ptr n (uio_next u) st"
  using assms by (simp add: uiomove_loop.simps [of acc ptr n u] uio_next_def)

lemma uiomove_loop_go:
  assumes "0 < n" "0 < uio_resid u" "uio_iov u = iov # rest" "sz = min n (iov_len iov)" "0 < sz"
    "uio_piece acc (uio_segflg u) (uio_rw u) (iov_base iov) ptr sz st = Some (r, st1)"
  shows "uiomove_loop acc ptr n u st =
    (if r \<noteq> 0 then Some (r, u, st1) else uiomove_loop acc (ptr + sz) (n - sz) (uio_past sz u) st1)"
proof -
  have sz: "(if iov_len iov > n then n else iov_len iov) = sz" using assms(4) by (simp add: min_def)
  show ?thesis using assms(1-3,5,6) by (simp add: uiomove_loop.simps [of acc ptr n u] sz uio_past_def)
qed

lemma uiomove_induct [consumes 1, case_names stop skip go]:
  assumes "uio_ok u"
    "\<And>ptr n u st. uio_ok u \<Longrightarrow> \<not> (0 < n \<and> 0 < uio_resid u) \<Longrightarrow> P ptr n u st"
    "\<And>ptr n u st iov rest. uio_ok u \<Longrightarrow> 0 < n \<Longrightarrow> 0 < uio_resid u \<Longrightarrow> uio_iov u = iov # rest \<Longrightarrow> iov_len iov = 0 \<Longrightarrow>
       uio_moved u (uio_next u) 0 \<Longrightarrow> uio_iovcnt (uio_next u) \<noteq> 0 \<Longrightarrow> P ptr n (uio_next u) st \<Longrightarrow> P ptr n u st"
    "\<And>ptr n u st iov rest sz. uio_ok u \<Longrightarrow> 0 < n \<Longrightarrow> 0 < uio_resid u \<Longrightarrow> uio_iov u = iov # rest \<Longrightarrow>
       sz = min n (iov_len iov) \<Longrightarrow> 0 < sz \<Longrightarrow>
       (\<And>st'. uio_ok (uio_past sz u) \<Longrightarrow> P (ptr + sz) (n - sz) (uio_past sz u) st') \<Longrightarrow> P ptr n u st"
  shows "P ptr n u st"
  using assms(1)
proof (induction "(n, length (uio_iov u))" arbitrary: ptr n u st rule: wf_induct_rule [OF wf_lex_prod [OF wf_less wf_less]])
  case (1 n u ptr st)
  show ?case
  proof (cases "0 < n \<and> 0 < uio_resid u")
    case False
    then show ?thesis using assms(2) "1.prems" by blast
  next
    case True
    obtain iov rest where vs: "uio_iov u = iov # rest"
      using True "1.prems"(1) by (cases "uio_iov u") (auto simp: uio_ok_def)
    show ?thesis
    proof (cases "iov_len iov = 0")
      case z: True
      have s: "uio_moved u (uio_next u) 0" "uio_iovcnt (uio_next u) \<noteq> 0"
        using uio_skip [OF "1.prems" vs z] True vs by (auto simp: uio_next_def)
      have "P ptr n (uio_next u) st"
        by (rule "1.hyps") (use s vs in \<open>auto simp: uio_next_def uio_moved_def\<close>)
      then show ?thesis using assms(3) "1.prems" True vs z s by blast
    next
      case False
      have "P (ptr + sz) (n - sz) (uio_past sz u) st'" if "sz = min n (iov_len iov)" "uio_ok (uio_past sz u)" for sz st'
        by (rule "1.hyps") (use that True False in auto)
      then show ?thesis using assms(4) [OF "1.prems" _ _ vs refl] True False by auto
    qed
  qed
qed

lemma uio_past_moved:
  assumes "uio_ok u" "uio_iov u = iov # rest" "sz = min n (iov_len iov)"
    "uio_segflg u \<noteq> UIO_SYSSPACE \<Longrightarrow> iov_base iov + sz \<le> USERSPACETOP"
  shows "uio_moved u (uio_past sz u) sz"
proof -
  have "iov_base iov + sz < 4294967296" if "uio_segflg u \<noteq> UIO_SYSSPACE" using assms(4) [OF that] by simp
  then show ?thesis using uio_advance [OF assms(1,2), of sz] assms(2,3) by (simp add: uio_past_def)
qed

text \<open>Whatever happens, the structure stays well formed and accounts for exactly the bytes that have moved.\<close>

lemma uiomove_loop_keeps:
  assumes "uio_ok u" "\<not> tm_badfaultfunc st" "uio_segflg u \<noteq> UIO_SYSSPACE \<Longrightarrow> USERSPACETOP \<le> ptr"
  shows "\<exists>r u' st' k. uiomove_loop acc ptr n u st = Some (r, u', st') \<and> (r = 0 \<or> r = EFAULT) \<and> uio_moved u u' k \<and>
    k \<le> n \<and> (r = 0 \<longrightarrow> k = min n (uio_resid u)) \<and> \<not> tm_badfaultfunc st'"
  using assms
proof (induction ptr n u st rule: uiomove_induct)
  case (stop ptr n u st)
  then show ?case by (auto simp: uiomove_loop_stop intro!: exI [of _ 0] uio_moved_refl)
next
  case (skip ptr n u st iov rest)
  have r: "uio_resid (uio_next u) = uio_resid u" "uio_segflg (uio_next u) = uio_segflg u" by (simp_all add: uio_next_def)
  show ?case
    using skip.IH skip.prems uio_moved_trans [OF skip.hyps(6)]
    unfolding uiomove_loop_skip [OF skip.hyps(2-5,7)] r by (metis add_0)
next
  case (go ptr n u st iov rest sz)
  have len: "sz \<le> n" "sz \<le> iov_len iov" "sz \<le> uio_resid u" "sz < 4294967296"
    "uio_segflg u \<noteq> UIO_SYSSPACE \<Longrightarrow> iov_base iov < 4294967296"
    using go.hyps by (auto simp: uio_ok_def min_def)
  obtain r st1 where pc: "uio_piece acc (uio_segflg u) (uio_rw u) (iov_base iov) ptr sz st = Some (r, st1)"
      "r = 0 \<or> r = EFAULT" "\<not> tm_badfaultfunc st1"
      "r = 0 \<and> uio_segflg u \<noteq> UIO_SYSSPACE \<longrightarrow> iov_base iov + sz \<le> USERSPACETOP"
    using uio_piece_cases [OF go.prems(1) len(4), of "uio_segflg u" ptr "iov_base iov" acc "uio_rw u"] go.prems(2) len(5) by blast
  note eq = uiomove_loop_go [OF go.hyps(2-6) pc(1)]
  show ?case
  proof (cases "r = 0")
    case False
    then show ?thesis using eq pc go.hyps(1) by (auto intro!: exI [of _ "0::nat"] uio_moved_refl)
  next
    case True
    then have m: "uio_moved u (uio_past sz u) sz" using uio_past_moved [OF go.hyps(1,4,5)] pc(4) by blast
    then have u1: "uio_ok (uio_past sz u)" "uio_segflg (uio_past sz u) = uio_segflg u"
      "uio_resid (uio_past sz u) = uio_resid u - sz" by (auto simp: uio_moved_def)
    have "USERSPACETOP \<le> ptr + sz" if "uio_segflg u \<noteq> UIO_SYSSPACE" using go.prems(2) [OF that] by simp
    then obtain r' u' st' k where "uiomove_loop acc (ptr + sz) (n - sz) (uio_past sz u) st1 = Some (r', u', st')"
        "r' = 0 \<or> r' = EFAULT" "uio_moved (uio_past sz u) u' k" "k \<le> n - sz"
        "r' = 0 \<longrightarrow> k = min (n - sz) (uio_resid u - sz)" "\<not> tm_badfaultfunc st'"
      using go.IH [OF u1(1) pc(3)] unfolding u1(2,3) by blast
    moreover have "uio_moved u u' (sz + k)" by (rule uio_moved_trans [OF m]) fact
    ultimately show ?thesis
      using eq True len(1,3) by (intro exI [of _ r'] exI [of _ u'] exI [of _ st'] exI [of _ "sz + k"]) auto
  qed
qed

text \<open>The reference: one byte after the other.\<close>

fun byte_moves :: "uio_rw \<Rightarrow> nat \<Rightarrow> nat list \<Rightarrow> cmem \<Rightarrow> cmem" where
  "byte_moves rw ptr [] m = m"
| "byte_moves rw ptr (a # as) m =
     byte_moves rw (ptr + 1) as (case rw of UIO_READ \<Rightarrow> m(a := m ptr) | UIO_WRITE \<Rightarrow> m(ptr := m a))"

lemma byte_moves_append: "byte_moves rw ptr (as @ bs) m = byte_moves rw (ptr + length as) bs (byte_moves rw ptr as m)"
  by (induction rw ptr as m rule: byte_moves.induct) auto

lemma byte_moves_block:
  assumes "base + sz \<le> ptr \<or> ptr + sz \<le> base"
  shows "byte_moves rw ptr [base..<base + sz] m =
    (case rw of UIO_READ \<Rightarrow> copied base ptr sz m | UIO_WRITE \<Rightarrow> copied ptr base sz m)"
  using assms
proof (induction sz)
  case (Suc sz)
  have "[base..<base + Suc sz] = [base..<base + sz] @ [base + sz]" by simp
  then have "byte_moves rw ptr [base..<base + Suc sz] m =
      byte_moves rw (ptr + sz) [base + sz] (byte_moves rw ptr [base..<base + sz] m)" by (simp only: byte_moves_append) simp
  moreover have "byte_moves rw ptr [base..<base + sz] m =
      (case rw of UIO_READ \<Rightarrow> copied base ptr sz m | UIO_WRITE \<Rightarrow> copied ptr base sz m)"
    by (rule Suc.IH) (use Suc.prems in auto)
  ultimately show ?case
    using Suc.prems by (cases rw) (auto simp: copied_def fun_eq_iff)
qed (cases rw; simp)

text \<open>Every byte of the blocks can be reached in the direction of the transfer.\<close>

definition uio_access :: "user_access \<Rightarrow> uio \<Rightarrow> bool" where
  "uio_access acc u \<longleftrightarrow> uio_segflg u = UIO_SYSSPACE \<or>
     (\<forall>a\<in>set (iov_addrs (uio_iov u)). a < USERSPACETOP \<and> acc (case uio_rw u of UIO_READ \<Rightarrow> Store | UIO_WRITE \<Rightarrow> Load) a)"

lemma uio_piece_bytes:
  assumes "\<not> tm_badfaultfunc st" "0 < sz" "sz < 4294967296" "base + sz \<le> ptr \<or> ptr + sz \<le> base"
    "seg \<noteq> UIO_SYSSPACE \<Longrightarrow> USERSPACETOP \<le> ptr \<and> user_range acc (case rw of UIO_READ \<Rightarrow> Store | UIO_WRITE \<Rightarrow> Load) base sz"
  shows "uio_piece acc seg rw base ptr sz st = Some (0, st\<lparr>kmem := byte_moves rw ptr [base..<base + sz] (kmem st)\<rparr>)"
proof (cases "seg = UIO_SYSSPACE")
  case True
  then show ?thesis by (cases rw) (simp_all add: uio_piece_def memmove_spec byte_moves_block [OF assms(4)])
next
  case False
  then have u: "USERSPACETOP \<le> ptr" "base < 4294967296"
      "user_range acc (case rw of UIO_READ \<Rightarrow> Store | UIO_WRITE \<Rightarrow> Load) base sz"
    using assms(5) by (auto simp: user_range_def)
  have "copyout acc ptr base sz st = Some (0, st\<lparr>kmem := copied base ptr sz (kmem st)\<rparr>)" if "rw = UIO_READ"
    using copyout_spec [OF assms(1) u(1,2) assms(3), of acc] u(3) that by auto
  moreover have "copyin acc base ptr sz st = Some (0, st\<lparr>kmem := copied ptr base sz (kmem st)\<rparr>)" if "rw = UIO_WRITE"
    using copyin_spec [OF assms(1) u(1,2) assms(3), of acc] u(3) that by auto
  ultimately show ?thesis
    using False by (cases seg; cases rw) (simp_all add: uio_piece_def byte_moves_block [OF assms(4)])
qed

lemma uiomove_loop_bytes:
  assumes "uio_ok u" "\<not> tm_badfaultfunc st" "uio_segflg u \<noteq> UIO_SYSSPACE \<Longrightarrow> USERSPACETOP \<le> ptr" "uio_access acc u"
    "\<forall>a\<in>set (iov_addrs (uio_iov u)). a < ptr \<or> ptr + n \<le> a"
  shows "\<exists>u'. uiomove_loop acc ptr n u st =
    Some (0, u', st\<lparr>kmem := byte_moves (uio_rw u) ptr (take n (iov_addrs (uio_iov u))) (kmem st)\<rparr>)"
  using assms
proof (induction ptr n u st rule: uiomove_induct)
  case (stop ptr n u st)
  then have "take n (iov_addrs (uio_iov u)) = []" by (auto simp: uio_ok_def)
  then show ?case using uiomove_loop_stop [OF stop(2)] by (simp only: byte_moves.simps) simp
next
  case (skip ptr n u st iov rest)
  have r: "uio_segflg (uio_next u) = uio_segflg u" "uio_rw (uio_next u) = uio_rw u"
    "iov_addrs (uio_iov (uio_next u)) = iov_addrs (uio_iov u)"
    using skip.hyps(4,5) by (simp_all add: uio_next_def)
  show ?case
    using skip.IH skip.prems unfolding uiomove_loop_skip [OF skip.hyps(2-5,7)] uio_access_def r by blast
next
  case (go ptr n u st iov rest sz)
  let ?b = "iov_base iov"
  define R where "R = drop sz (iov_addrs (uio_iov u))"
  have len: "sz \<le> n" "sz \<le> iov_len iov" "sz < 4294967296" using go.hyps by (auto simp: uio_ok_def min_def)
  have "take sz (iov_addrs (uio_iov u)) = [?b..<?b + sz]" using go.hyps(4) len(2) by simp
  then have addrs: "iov_addrs (uio_iov u) = [?b..<?b + sz] @ R" by (metis R_def append_take_drop_id)
  have out: "a < ptr \<or> ptr + n \<le> a" if "?b \<le> a" "a < ?b + sz" for a
    using go.prems(4) that by (auto simp: addrs)
  have apart: "?b + sz \<le> ptr \<or> ptr + sz \<le> ?b"
    using out [of ?b] out [of ptr] len(1) go.hyps(2,6) by linarith
  have ok: "a < USERSPACETOP \<and> acc (case uio_rw u of UIO_READ \<Rightarrow> Store | UIO_WRITE \<Rightarrow> Load) a"
    if "uio_segflg u \<noteq> UIO_SYSSPACE" "?b \<le> a" "a < ?b + sz" for a
    using that go.prems(3) unfolding uio_access_def addrs by auto
  have range: "USERSPACETOP \<le> ptr \<and> user_range acc (case uio_rw u of UIO_READ \<Rightarrow> Store | UIO_WRITE \<Rightarrow> Load) ?b sz"
    if "uio_segflg u \<noteq> UIO_SYSSPACE"
  proof -
    have "?b + (sz - 1) < USERSPACETOP" using ok [OF that, of "?b + (sz - 1)"] go.hyps(6) by linarith
    then have "?b + sz \<le> USERSPACETOP" by linarith
    then show ?thesis using go.prems(2) ok that go.hyps(6) unfolding user_range_def by auto
  qed
  have "uio_piece acc (uio_segflg u) (uio_rw u) ?b ptr sz st =
      Some (0, st\<lparr>kmem := byte_moves (uio_rw u) ptr [?b..<?b + sz] (kmem st)\<rparr>)"
    by (rule uio_piece_bytes [OF go.prems(1) go.hyps(6) len(3) apart]) (rule range)
  note eq = uiomove_loop_go [OF go.hyps(2-6) this]
  have m: "uio_moved u (uio_past sz u) sz"
    by (rule uio_past_moved [OF go.hyps(1,4,5)]) (use range in \<open>auto simp: user_range_def\<close>)
  then have u1: "uio_ok (uio_past sz u)" "uio_segflg (uio_past sz u) = uio_segflg u" "uio_rw (uio_past sz u) = uio_rw u"
    "iov_addrs (uio_iov (uio_past sz u)) = R" by (auto simp: uio_moved_def R_def)
  have t: "take n (iov_addrs (uio_iov u)) = [?b..<?b + sz] @ take (n - sz) R"
    by (subst addrs) (use len(1) in simp)
  have acc1: "uio_access acc (uio_past sz u)"
    using go.prems(3) unfolding uio_access_def u1 addrs by auto
  have far: "\<forall>a\<in>set (iov_addrs (uio_iov (uio_past sz u))). a < ptr + sz \<or> ptr + sz + (n - sz) \<le> a"
    using go.prems(4) len(1) unfolding u1 addrs by (force intro: trans_less_add1)
  have hi_ptr: "uio_segflg (uio_past sz u) \<noteq> UIO_SYSSPACE \<Longrightarrow> USERSPACETOP \<le> ptr + sz"
    using go.prems(2) unfolding u1 by auto
  have "\<exists>u'. uiomove_loop acc (ptr + sz) (n - sz) (uio_past sz u) (st\<lparr>kmem := m\<rparr>) =
      Some (0, u', st\<lparr>kmem := byte_moves (uio_rw u) (ptr + sz) (take (n - sz) R) m\<rparr>)" for m
    using go.IH [OF u1(1) _ hi_ptr acc1 far, of "st\<lparr>kmem := m\<rparr>"] go.prems(1) unfolding u1 by simp
  then show ?case unfolding eq t byte_moves_append by simp
qed

lemma uiomove_checked:
  assumes "if uio_segflg u = UIO_SYSSPACE then uio_space u = None else uio_space u = space \<and> USERSPACETOP \<le> ptr"
  shows "uiomove acc space ptr n u st = uiomove_loop acc ptr n u st"
  using assms by (simp add: uiomove_def split: if_splits)

section \<open>Properties\<close>

text \<open>C9: \<^verbatim>\<open>copyin\<close> and \<^verbatim>\<open>copyout\<close> with any user pointer and length never stop the kernel; they succeed exactly when the
  block is not empty, lies in user space and can be reached throughout, and then copy all of it; otherwise they return
  \<^verbatim>\<open>EFAULT\<close>.  Nothing outside the destination changes, \<^verbatim>\<open>copyout\<close> never changes the kernel's memory, and the recovery
  function is removed again.\<close>

theorem user_copy_outcome:
  assumes "\<not> tm_badfaultfunc st" "USERSPACETOP \<le> kptr" "uptr < 4294967296" "len < 4294967296"
  shows "(\<exists>k\<le>len. copyin acc uptr kptr len st =
      Some (if user_range acc Load uptr len then 0 else EFAULT, st\<lparr>kmem := copied kptr uptr k (kmem st)\<rparr>) \<and>
      (user_range acc Load uptr len \<longrightarrow> k = len)) \<and>
    (\<exists>k\<le>len. copyout acc kptr uptr len st =
      Some (if user_range acc Store uptr len then 0 else EFAULT, st\<lparr>kmem := copied uptr kptr k (kmem st)\<rparr>) \<and>
      (user_range acc Store uptr len \<longrightarrow> k = len) \<and>
      (\<forall>a\<ge>USERSPACETOP. copied uptr kptr k (kmem st) a = kmem st a))"
proof (intro conjI copyin_spec [OF assms])
  obtain k where "k \<le> len" "copyout acc kptr uptr len st =
      Some (if user_range acc Store uptr len then 0 else EFAULT, st\<lparr>kmem := copied uptr kptr k (kmem st)\<rparr>)"
      "user_range acc Store uptr len \<longrightarrow> k = len" "0 < k \<longrightarrow> uptr + len \<le> USERSPACETOP"
    using copyout_spec [OF assms] by blast
  then show "\<exists>k\<le>len. copyout acc kptr uptr len st =
      Some (if user_range acc Store uptr len then 0 else EFAULT, st\<lparr>kmem := copied uptr kptr k (kmem st)\<rparr>) \<and>
      (user_range acc Store uptr len \<longrightarrow> k = len) \<and>
      (\<forall>a\<ge>USERSPACETOP. copied uptr kptr k (kmem st) a = kmem st a)"
    by (intro exI [of _ k]) (auto simp: copied_def)
qed

theorem user_copy_outcome_witness:
  "\<exists>k\<le>4. copyin (\<lambda>_ a. a < 0x2000) 0x1ffe 0x80001000 4 \<lparr>kmem = (\<lambda>_. CHR ''x''), tm_badfaultfunc = False\<rparr> =
     Some (EFAULT, \<lparr>kmem = copied 0x80001000 0x1ffe k (\<lambda>_. CHR ''x''), tm_badfaultfunc = False\<rparr>)"
proof -
  have "\<not> user_range (\<lambda>_ a. a < 0x2000) Load 0x1ffe 4" by (auto simp: user_range_def intro!: exI [of _ 2])
  then show ?thesis
    using user_copy_outcome [of "\<lparr>kmem = (\<lambda>_. CHR ''x''), tm_badfaultfunc = False\<rparr>" "0x80001000" "0x1ffe" 4
        "\<lambda>_ a. a < 0x2000"] by simp
qed

text \<open>C20: \<^verbatim>\<open>copyinstr\<close> with any user pointer and a length up to the size of user space returns.  It succeeds exactly when a string with its terminator fits and can be
  reached in user space; then the kernel's buffer holds that string and \<^verbatim>\<open>*actual\<close> its size.  It returns
  \<^verbatim>\<open>ENAMETOOLONG\<close> exactly when the whole length can be reached and has no terminator, and \<^verbatim>\<open>EFAULT\<close> otherwise.\<close>

theorem copyinstr_outcome:
  assumes "\<not> tm_badfaultfunc st" "USERSPACETOP \<le> dest" "p < 4294967296" "0 < len" "len \<le> USERSPACETOP"
  shows "\<exists>r got k. copyinstr acc p dest len st = Some (r, got, st\<lparr>kmem := copied dest p k (kmem st)\<rparr>) \<and>
    str_outcome acc (kmem st) p len r got k \<and> (r = 0 \<longrightarrow> (\<exists>s. cstr (kmem st) p s \<and> cstr (copied dest p k (kmem st)) dest s))"
proof (cases "p < USERSPACETOP \<and> p + len \<le> 4294967296")
  case True
  then obtain r got k where o: "copyinstr acc p dest len st = Some (r, got, st\<lparr>kmem := copied dest p k (kmem st)\<rparr>)"
      "str_outcome acc (kmem st) p len r got k"
    using copyinstr_outcome_inside [of st dest p len acc] assms by auto
  moreover have "\<exists>s. cstr (kmem st) p s \<and> k = length s + 1" if "r = 0"
    using o(2) that unfolding str_outcome_def by (auto split: if_splits)
  ultimately show ?thesis using cstr_copied [of "kmem st" p _ dest] by blast
next
  case False
  have "str_outcome acc (kmem st) p len EFAULT None 0"
    by (rule str_outcome_missed) (use False assms in \<open>auto simp: user_range_def\<close>)
  then show ?thesis using copyinstr_outside [of p len acc dest st] False assms
    by (intro exI [of _ "EFAULT"] exI [of _ None] exI [of _ "0::nat"]) auto
qed

theorem copyinstr_outcome_witness:
  "\<exists>k st'. copyinstr (\<lambda>_ a. a < 0x2000) 0x1ffc 0x80001000 1024
     \<lparr>kmem = (\<lambda>a. if a < 0x1fff then CHR ''x'' else NUL), tm_badfaultfunc = False\<rparr> = Some (0, Some k, st')"
proof -
  let ?m = "\<lambda>a :: nat. if a < 0x1fff then CHR ''x'' else NUL"
  have "\<exists>s. cstr ?m 0x1ffc s \<and> length s < 1024 \<and> user_range (\<lambda>_ a. a < 0x2000) Load 0x1ffc (length s + 1)"
    by (rule exI [of _ "''xxx''"]) (simp add: user_range_def)
  then show ?thesis
    using copyinstr_outcome [of "\<lparr>kmem = ?m, tm_badfaultfunc = False\<rparr>" "0x80001000" "0x1ffc" 1024 "\<lambda>_ a. a < 0x2000"]
    unfolding str_outcome_def by auto
qed

text \<open>C19: a well-formed \<^verbatim>\<open>struct uio\<close> stays well formed.  \<^verbatim>\<open>uiomove\<close> returns for every buffer and every user address, with
  success or \<^verbatim>\<open>EFAULT\<close>; the blocks, the residual count and the offset account for the same number of bytes, which is the
  smaller of the request and the residual count on success; direction, segment and address space stay.\<close>

theorem uiomove_keeps:
  assumes "uio_ok u" "\<not> tm_badfaultfunc st"
    "if uio_segflg u = UIO_SYSSPACE then uio_space u = None else uio_space u = space \<and> USERSPACETOP \<le> ptr"
  shows "\<exists>r u' st' k. uiomove acc space ptr n u st = Some (r, u', st') \<and> (r = 0 \<or> r = EFAULT) \<and> uio_moved u u' k \<and>
    k \<le> n \<and> (r = 0 \<longrightarrow> k = min n (uio_resid u)) \<and> \<not> tm_badfaultfunc st'"
  unfolding uiomove_checked [OF assms(3)] by (rule uiomove_loop_keeps [OF assms(1,2)]) (use assms(3) in simp)

theorem uiomove_keeps_witness:
  "\<exists>r u' st'. uiomove (\<lambda>_ a. a < 0x1002) (Some 9) 0x80001000 8
       \<lparr>uio_iov = [\<lparr>iov_base = 0x1000, iov_len = 2\<rparr>, \<lparr>iov_base = 0x1002, iov_len = 3\<rparr>], uio_iovcnt = 2, uio_offset = 7,
        uio_resid = 5, uio_segflg = UIO_USERSPACE, uio_rw = UIO_READ, uio_space = Some 9\<rparr>
       \<lparr>kmem = (\<lambda>_. CHR ''x''), tm_badfaultfunc = False\<rparr> = Some (r, u', st') \<and>
     uio_offset u' + int (uio_resid u') = 12"
proof -
  let ?u = "\<lparr>uio_iov = [\<lparr>iov_base = 0x1000, iov_len = 2\<rparr>, \<lparr>iov_base = 0x1002, iov_len = 3\<rparr>], uio_iovcnt = 2,
    uio_offset = 7, uio_resid = 5, uio_segflg = UIO_USERSPACE, uio_rw = UIO_READ, uio_space = Some 9\<rparr>"
  let ?st = "\<lparr>kmem = (\<lambda>_. CHR ''x''), tm_badfaultfunc = False\<rparr>"
  have "uio_ok ?u" by (simp add: uio_ok_def)
  then obtain r u' st' k where "uiomove (\<lambda>_ a. a < 0x1002) (Some 9) 0x80001000 8 ?u ?st = Some (r, u', st')"
      "uio_moved ?u u' k" "k \<le> 8"
    using uiomove_keeps [of ?u ?st "Some 9" "0x80001000" "\<lambda>_ a. a < 0x1002" 8] by auto
  moreover have "uio_offset u' + int (uio_resid u') = 12"
    using \<open>uio_moved ?u u' k\<close> unfolding uio_moved_def by simp
  ultimately show ?thesis by blast
qed



end
