(* ===== verification/Spec2Isabelle.thy ===== *)
theory Spec2Isabelle
  imports Byte_Order Bitmap Kern_Array Thread_List Coremap Addrspace_Copy Rw_Lock Cond_Var Synch_Create Scheduler_Correct Qdivrem_Correct Kmalloc_Free Menu Printf_Correct User_Copy
begin

text \<open>
  OS/161 kernel (\<^verbatim>\<open>src/os161/src/\<close>): a verification library.

  \<^bold>\<open>The program and its parts.\<close>  OS/161 is a small multiprocessor kernel for a MIPS machine, with virtual memory,
  synchronisation and system calls filled in.  At the bottom are interrupt levels and spinlocks; on them stand the wait
  channels and the sleep locks, the page allocator with its coremap, and the kernel heap.  The address spaces take their
  frames from the page allocator and load the TLB, and flush the TLBs of other processors with inter-processor
  interrupts.  The scheduler moves threads between the run queues, which are doubly linked lists.  The support libraries
  hold bitmaps, resizable pointer arrays, byte order conversions and the 64-bit arithmetic the compiler calls.

  \<^bold>\<open>Conventions.\<close>  A kernel routine is a function into an option: \<open>None\<close> stands for a panic, a failed assertion, an
  access outside an array or through a null pointer, and a loop that never ends.  Error codes are integers inside
  \<open>Some\<close>.  State is passed explicitly, as records with the fields of the C structures.  An unsigned 32-bit number is a
  natural number with \<open>u32\<close> and \<open>usub\<close> writing out the wrap-around, or a word where bits matter.  The outcome of a
  memory allocation and what fresh memory holds are arguments where the heap is not part of the state.  Concurrent code
  is an inductive step relation with one program counter per thread or processor; a step is the code between two points
  where another thread can interfere.

  \<^bold>\<open>Theories.\<close>

  \<^item> \<^verbatim>\<open>Kern_Prelude\<close>: machine arithmetic, assertions, checked access to arrays, single bits of words.
  \<^item> \<^verbatim>\<open>Slot_Allocator\<close>: the contract of a pool of numbered slots as a locale, with its consequences for a client that
    allocates repeatedly.  Interpreted for the bitmap, the coremap and the page references of the heap.
  \<^item> \<^verbatim>\<open>Byte_Order\<close> (\<^verbatim>\<open>kern/lib/bswap.c\<close>): \<open>bswap16\<close>, \<open>bswap32\<close> reverse bytes, \<open>bswap64\<close> does not; splitting and joining
    of 64-bit values.
  \<^item> \<^verbatim>\<open>Bitmap\<close> (\<^verbatim>\<open>kern/lib/bitmap.c\<close>): creation, allocation of the least clear bit, marking and unmarking.
  \<^item> \<^verbatim>\<open>Kern_Array\<close> (\<^verbatim>\<open>kern/lib/array.c\<close>): the array against its list of entries; a size request past \<open>2 ^ 31\<close> never returns.
  \<^item> \<^verbatim>\<open>Thread_List\<close> (\<^verbatim>\<open>kern/thread/threadlist.c\<close>): the node-level operations on a store of nodes against lists of threads.
  \<^item> \<^verbatim>\<open>Spinlock\<close> (\<^verbatim>\<open>kern/thread/spl.c\<close>, \<^verbatim>\<open>spinlock.c\<close>): mutual exclusion of interleaved processors, nesting of interrupt
    levels.
  \<^item> \<^verbatim>\<open>Coremap\<close> (\<^verbatim>\<open>ram.c\<close>, \<^verbatim>\<open>coremap.c\<close>, \<^verbatim>\<open>vm.c\<close>): boot, first fit, marking and freeing of chunks, with the case in which
    freeing takes pages of a neighbour.
  \<^item> \<^verbatim>\<open>Kmalloc\<close>, \<^verbatim>\<open>Kmalloc_Correct\<close>, \<^verbatim>\<open>Kmalloc_Free\<close> (\<^verbatim>\<open>kern/vm/kmalloc.c\<close>): the subpage allocator with its page references,
    two linked lists and the free lists threaded through memory, on the page allocator of the coremap; the invariant
    relates all of it to a list of pages with their free blocks.  The page allocator is used through the locale
    \<open>page_source\<close>.
  \<^item> \<^verbatim>\<open>Tlb_Ipi\<close>, \<^verbatim>\<open>Addrspace\<close>, \<^verbatim>\<open>Addrspace_Correct\<close>, \<^verbatim>\<open>Addrspace_Heap\<close>, \<^verbatim>\<open>Addrspace_Copy\<close> (\<^verbatim>\<open>kern/vm/addrspace.c\<close>, \<^verbatim>\<open>vm.c\<close>):
    TLB shootdown, page tables, \<open>vm_fault\<close>, \<open>sbrk\<close>, \<open>as_copy\<close> and \<open>as_destroy\<close> on the frames of the coremap.
  \<^item> \<^verbatim>\<open>Semaphore\<close>, \<^verbatim>\<open>Sleep_Lock\<close>, \<^verbatim>\<open>Cond_Var\<close>, \<^verbatim>\<open>Rw_Lock\<close>, \<^verbatim>\<open>Synch_Create\<close> (\<^verbatim>\<open>kern/thread/synch.c\<close>): step relations for P and V,
    locks, condition variables and reader-writer locks, their safety on every interleaving, the refinement of the
    semaphore by the lock, and what creation and destruction allocate.
  \<^item> \<^verbatim>\<open>Scheduler\<close>, \<^verbatim>\<open>Scheduler_Correct\<close> (\<^verbatim>\<open>kern/thread/thread.c\<close>): run queues, switching, wait channels, migration of
    threads between processors.
  \<^item> \<^verbatim>\<open>Millicode\<close>, \<^verbatim>\<open>Qdivrem\<close>, \<^verbatim>\<open>Qdivrem_Correct\<close> (\<^verbatim>\<open>common/gcc-millicode\<close>): 64-bit addition, shifts, comparison,
    multiplication by parts, and division by Knuth's algorithm D, equal to the operations of the 64-bit ring.
  \<^item> \<^verbatim>\<open>C_String\<close> (\<^verbatim>\<open>common/libc/string\<close>): copying with any overlap and alignment, comparison, search and the tokenizer, on a
    memory of characters.
  \<^item> \<^verbatim>\<open>Menu\<close> (\<^verbatim>\<open>kern/startup/menu.c\<close>): the command interpreter on the tokenizer.
  \<^item> \<^verbatim>\<open>Printf\<close>, \<^verbatim>\<open>Printf_Correct\<close> (\<^verbatim>\<open>common/libc/printf\<close>, \<^verbatim>\<open>atoi.c\<close>): the printf engine with its callback, printing into a
    buffer, and reading a printed number back.  The callback is used through the locale \<open>text_sink\<close>.
  \<^item> \<^verbatim>\<open>User_Copy\<close> (\<^verbatim>\<open>kern/vm/copyinout.c\<close>, \<^verbatim>\<open>kern/lib/uio.c\<close>): copying between user programs and the kernel under faults, and
    scattered transfers against moving single bytes.
  \<^bold>\<open>Interfaces.\<close>  The locales \<open>slot_allocator\<close>, \<open>page_source\<close>, \<open>text_sink\<close>, \<open>pointer_array\<close> and \<open>thread_queue\<close> state what a component
  promises its clients; each is interpreted on the definitions that model the code, and the properties of the clients
  rest on the interpreted facts.

  \<^bold>\<open>Bounds and fuel.\<close>  Every loop of the source is a total recursive function, or a partial function into an option for
  which the theorems prove that it returns.  The number of times a spinlock is tried is the only fuel; the theorems about
  single routines hold for any number, those about interleavings have no fuel.  RAM ends at 508 MB, as \<open>ram_bootstrap\<close>
  enforces it; the theorems about the heap hold while only single pages are handed out, because a chunk of several pages
  next to a freed one is itself a case in which the coremap fails.

  \<^bold>\<open>Not modelled.\<close>  The emulated file systems and devices (\<^verbatim>\<open>kern/dev\<close>, \<^verbatim>\<open>kern/fs/sfs\<close>, \<^verbatim>\<open>kern/vfs\<close>): they act through
  hardware registers and a disk, and are large.  Assembly (\<^verbatim>\<open>start.S\<close>, exceptions, context switch): the thread switch
  appears as the change of the current thread.  Boot, the menu and the in-kernel tests: sequences of calls with printed
  output.  User programs and the host tools: clients of the kernel.  Printing functions (\<^verbatim>\<open>kprintf\<close>, dumps of the heap):
  output only.
\<close>

end
